(* ===== verification/CPrelude.thy ===== *)
theory CPrelude
  imports Main "HOL-Library.Word"
begin

text \<open>
  The C library that FastKey is written against, and the lemmas that every component shares.

  \<^item> A buffer of bytes is a \<^typ>\<open>string\<close> (a list of 8-bit characters). A \<^verbatim>\<open>char *\<close> that
    the code reads up to its terminating NUL is \<open>cstr\<close> of the buffer it points to.
  \<^item> Undefined behaviour of the C program (a NULL dereference, a read of uninitialised
    memory, a read past an allocation, a wrong union member, a signed overflow), and a call
    that never returns, is a value \<open>Fault\<close> of the result type \<open>'a run\<close>; \<open>Ok\<close> is a call that returns.
  \<^item> \<open>strtoll\<close>, \<open>strtoull\<close>, \<open>atoi\<close> and \<open>atoll\<close> follow the C library: white space, one
    optional sign, decimal digits, and saturation at the ends of the 64-bit range;
    \<open>atoi\<close> is the 32-bit truncation of the 64-bit result, as in glibc.
  \<^item> \<open>printf\<close> conversions of integers are \<open>show_nat\<close> (\<^verbatim>\<open>%zu\<close>, \<^verbatim>\<open>%lu\<close>) and
    \<open>show_int\<close> (\<^verbatim>\<open>%d\<close>, \<^verbatim>\<open>%lld\<close>).
\<close>

named_theorems c_simps \<open>evaluation rules of the C library model\<close>
named_theorems run_simps \<open>case splits of runs\<close>

section \<open>Runs and faults\<close>

datatype fault =
    NullDeref         \<comment> \<open>a NULL pointer is dereferenced\<close>
  | UninitRead        \<comment> \<open>an object that was never written is read (or freed through)\<close>
  | OutOfBounds       \<comment> \<open>a read or write past the end of an allocation\<close>
  | TypeConfusion     \<comment> \<open>a union is read through a member that was not stored\<close>
  | UseAfterFree      \<comment> \<open>a pointer into freed memory is dereferenced\<close>
  | SignedOverflow    \<comment> \<open>arithmetic on a signed type leaves its range\<close>
  | Diverges          \<comment> \<open>the call never returns\<close>

datatype 'a run = Ok 'a | Fault fault

primrec bind_run :: "'a run \<Rightarrow> ('a \<Rightarrow> 'b run) \<Rightarrow> 'b run" where
  "bind_run (Ok x) f = f x"
| "bind_run (Fault e) f = Fault e"

primrec map_run_list :: "('a \<Rightarrow> 'b run) \<Rightarrow> 'a list \<Rightarrow> 'b list run" where
  "map_run_list f [] = Ok []"
| "map_run_list f (x # xs) =
     bind_run (f x) (\<lambda>y. bind_run (map_run_list f xs) (\<lambda>ys. Ok (y # ys)))"

text \<open>What an allocation of so many bytes does: \<open>True\<close> for success, \<open>False\<close> for NULL.\<close>

type_synonym allocator = "nat \<Rightarrow> bool"

abbreviation always :: allocator where
  "always \<equiv> \<lambda>_. True"

section \<open>Bytes and C strings\<close>

abbreviation NUL :: char where "NUL \<equiv> CHR 0x00"
abbreviation CR :: char where "CR \<equiv> CHR 0x0D"
abbreviation LF :: char where "LF \<equiv> CHR 0x0A"

definition crlf :: string where
  "crlf = [CR, LF]"

definition cstr :: "string \<Rightarrow> string" where
  "cstr s = takeWhile (\<lambda>c. c \<noteq> NUL) s"

definition nul_free :: "string \<Rightarrow> bool" where
  "nul_free s = list_all (\<lambda>c. c \<noteq> NUL) s"

definition is_digit :: "char \<Rightarrow> bool" where
  "is_digit c = (48 \<le> (of_char c :: nat) \<and> (of_char c :: nat) \<le> 57)"

definition is_space :: "char \<Rightarrow> bool" where
  "is_space c = ((of_char c :: nat) = 32 \<or> (9 \<le> (of_char c :: nat) \<and> (of_char c :: nat) \<le> 13))"

definition to_lower :: "char \<Rightarrow> char" where
  "to_lower c = (if 65 \<le> (of_char c :: int) \<and> (of_char c :: int) \<le> 90
                 then char_of ((of_char c :: int) + 32) else c)"

text \<open>\<^verbatim>\<open>strcasecmp (a, b) == 0\<close>, in the C locale.\<close>

definition strcaseeq :: "string \<Rightarrow> string \<Rightarrow> bool" where
  "strcaseeq a b = (map to_lower (cstr a) = map to_lower (cstr b))"

text \<open>\<^verbatim>\<open>memmem (data, len, "\r\n", 2)\<close>: the offset of the first CR LF.\<close>

fun find_crlf :: "string \<Rightarrow> nat option" where
  "find_crlf (a # b # r) =
     (if a = CR \<and> b = LF then Some 0 else map_option Suc (find_crlf (b # r)))"
| "find_crlf [a] = None"
| "find_crlf [] = None"

text \<open>\<^verbatim>\<open>strchr (s, c)\<close>: the offset of the first \<open>c\<close> before the terminating NUL.\<close>

fun find_char :: "char \<Rightarrow> string \<Rightarrow> nat option" where
  "find_char c [] = None"
| "find_char c (x # xs) = (if x = c then Some 0 else map_option Suc (find_char c xs))"

section \<open>Decimal numbers\<close>

definition digit_char :: "int \<Rightarrow> char" where
  "digit_char d = char_of (48 + d)"

definition digit_val :: "char \<Rightarrow> int" where
  "digit_val c = of_char c - 48"

text \<open>The decimal digits of a number that is not negative.\<close>

function show_digits :: "int \<Rightarrow> string" where
  "show_digits n =
     (if n < 10 then [digit_char n] else show_digits (n div 10) @ [digit_char (n mod 10)])"
  by pat_completeness auto
termination
  by (relation "measure nat") auto

declare show_digits.simps [simp del]

definition show_nat :: "nat \<Rightarrow> string" where
  "show_nat n = show_digits (int n)"

definition show_int :: "int \<Rightarrow> string" where
  "show_int i = (if i < 0 then CHR ''-'' # show_digits (- i) else show_digits i)"

definition digits_val :: "string \<Rightarrow> int" where
  "digits_val ds = foldl (\<lambda>a c. 10 * a + digit_val c) 0 ds"

text \<open>The sign in front of the digits: whether it is a minus, and what follows it.\<close>

definition scan_sign :: "string \<Rightarrow> bool \<times> string" where
  "scan_sign s = (case s of [] \<Rightarrow> (False, [])
     | c # r \<Rightarrow> if c = CHR ''-'' then (True, r) else if c = CHR ''+'' then (False, r) else (False, s))"

text \<open>
  The subject sequence of the \<^verbatim>\<open>strtol\<close> family in base 10: the sign, the magnitude and the
  rest of the string (\<^verbatim>\<open>*endptr\<close>), which is the whole string when there is no number.
\<close>

definition scan_number :: "string \<Rightarrow> bool \<times> int \<times> string" where
  "scan_number s =
     (let (neg, u) = scan_sign (dropWhile is_space s); ds = takeWhile is_digit u
      in if ds = [] then (False, 0, s) else (neg, digits_val ds, dropWhile is_digit u))"

definition strtoll :: "string \<Rightarrow> int \<times> string" where
  "strtoll s =
     (let (neg, m, r) = scan_number s; v = (if neg then - m else m)
      in (max (- (2 ^ 63)) (min (2 ^ 63 - 1) v), r))"

definition strtoull :: "string \<Rightarrow> 64 word \<times> string" where
  "strtoull s =
     (let (neg, m, r) = scan_number s
      in (if 2 ^ 64 \<le> m then - 1 else if neg then - of_int m else of_int m, r))"

definition atoll :: "string \<Rightarrow> int" where
  "atoll s = fst (strtoll s)"

definition atoi :: "string \<Rightarrow> int" where
  "atoi s = signed_take_bit 31 (atoll s)"

section \<open>Shared lemmas\<close>

subsection \<open>Runs\<close>

lemma bind_run_Ok_iff: "bind_run m f = Ok y \<longleftrightarrow> (\<exists>x. m = Ok x \<and> f x = Ok y)"
  by (cases m) auto

lemma bind_run_Fault_iff:
  "bind_run m f = Fault e \<longleftrightarrow> m = Fault e \<or> (\<exists>x. m = Ok x \<and> f x = Fault e)"
  by (cases m) auto

lemma bind_run_Ok_right [simp]: "bind_run m Ok = m"
  by (cases m) auto

lemma map_run_list_Ok [simp]: "map_run_list (\<lambda>x. Ok (f x)) xs = Ok (map f xs)"
  by (induction xs) auto

lemma map_run_list_cong_Ok:
  "(\<And>x. x \<in> set xs \<Longrightarrow> g x = Ok (f x)) \<Longrightarrow> map_run_list g xs = Ok (map f xs)"
  by (induction xs) auto

lemmas [run_simps] = bind_run_Ok_iff bind_run_Fault_iff

subsection \<open>C strings\<close>

lemma nul_free_simps [simp]:
  "nul_free []"
  "nul_free (c # s) \<longleftrightarrow> c \<noteq> NUL \<and> nul_free s"
  "nul_free (s @ t) \<longleftrightarrow> nul_free s \<and> nul_free t"
  by (simp_all add: nul_free_def)

lemma nul_free_concat: "nul_free (concat ss) \<longleftrightarrow> list_all nul_free ss"
  by (induction ss) auto

lemma nul_free_cstr [simp]: "nul_free (cstr s)"
  by (auto simp: nul_free_def cstr_def list_all_iff dest: set_takeWhileD)

lemma cstr_nul_free [simp]: "nul_free s \<Longrightarrow> cstr s = s"
  by (simp add: nul_free_def cstr_def list_all_iff)

lemma cstr_idem [simp]: "cstr (cstr s) = cstr s"
  by simp

lemma nul_free_crlf [simp]: "nul_free crlf"
  by (simp add: crlf_def)

lemma length_crlf [simp]: "length crlf = 2"
  by (simp add: crlf_def)

lemma nul_free_take: "nul_free s \<Longrightarrow> nul_free (take n s)"
  by (auto simp: nul_free_def list_all_iff dest: in_set_takeD)

lemma cstr_append_nul_free: "nul_free s \<Longrightarrow> cstr (s @ t) = s @ cstr t"
  by (induction s) (auto simp: cstr_def)

lemma length_cstr: "length (cstr s) \<le> length s"
  by (simp add: cstr_def length_takeWhile_le)

subsection \<open>Searching for a line end\<close>

lemma find_crlf_bound: "find_crlf s = Some n \<Longrightarrow> n + 2 \<le> length s"
  by (induction s arbitrary: n rule: find_crlf.induct) (auto split: if_splits)

lemma find_crlf_append: "find_crlf s = Some n \<Longrightarrow> find_crlf (s @ t) = Some n"
  by (induction s arbitrary: n rule: find_crlf.induct) (auto split: if_splits)

lemma find_crlf_line: "CR \<notin> set s \<Longrightarrow> find_crlf (s @ crlf @ t) = Some (length s)"
proof (induction s)
  case Nil
  then show ?case by (simp add: crlf_def)
next
  case (Cons c s)
  then show ?case by (cases s) (auto simp: crlf_def)
qed

lemma find_crlf_None_iff:
  "find_crlf s = None \<longleftrightarrow> (\<forall>i. \<not> (Suc i < length s \<and> s ! i = CR \<and> s ! Suc i = LF))"
proof (induction s rule: find_crlf.induct)
  case (1 a b r)
  then show ?case
    by (auto simp: nth_Cons split: nat.splits)
qed auto

lemma find_char_Some:
  "find_char c s = Some n \<Longrightarrow> n < length s \<and> s ! n = c \<and> c \<notin> set (take n s)"
  by (induction s arbitrary: n) (auto split: if_splits)

lemma find_char_append: "c \<notin> set s \<Longrightarrow> find_char c (s @ c # t) = Some (length s)"
  by (induction s) auto

subsection \<open>Decimal numbers\<close>

lemma of_char_digit_char: "0 \<le> d \<Longrightarrow> d < 10 \<Longrightarrow> (of_char (digit_char d) :: int) = 48 + d"
  by (simp add: digit_char_def)

lemma of_char_nat_int: "(of_char c :: nat) = nat (of_char c :: int)"
  by (cases c) (simp add: of_char_Char)

lemma is_digit_digit_char: "0 \<le> d \<Longrightarrow> d < 10 \<Longrightarrow> is_digit (digit_char d)"
  using of_char_digit_char [of d] by (auto simp: is_digit_def of_char_nat_int)

lemma digit_val_digit_char: "0 \<le> d \<Longrightarrow> d < 10 \<Longrightarrow> digit_val (digit_char d) = d"
  by (simp add: digit_val_def of_char_digit_char)

lemma show_digits_digits: "0 \<le> n \<Longrightarrow> list_all is_digit (show_digits n)"
proof (induction n rule: show_digits.induct)
  case (1 n)
  then show ?case
    by (cases "n < 10") (auto simp: show_digits.simps [of n] is_digit_digit_char)
qed

lemma show_digits_Nil [simp]: "show_digits n \<noteq> []"
  by (simp add: show_digits.simps [of n])

lemma digits_val_snoc: "digits_val (ds @ [c]) = 10 * digits_val ds + digit_val c"
  by (simp add: digits_val_def)

lemma digits_val_show: "0 \<le> n \<Longrightarrow> digits_val (show_digits n) = n"
proof (induction n rule: show_digits.induct)
  case (1 n)
  show ?case
  proof (cases "n < 10")
    case True
    with "1.prems" show ?thesis
      by (simp add: show_digits.simps [of n] digits_val_def digit_val_digit_char)
  next
    case False
    with "1.IH" have "digits_val (show_digits (n div 10)) = n div 10" by simp
    with False show ?thesis
      by (simp add: show_digits.simps [of n] digits_val_snoc digit_val_digit_char)
  qed
qed

lemma show_digits_inj: "0 \<le> m \<Longrightarrow> 0 \<le> n \<Longrightarrow> show_digits m = show_digits n \<longleftrightarrow> m = n"
  by (metis digits_val_show)

lemma length_show_digits: "0 \<le> n \<Longrightarrow> n < 10 ^ k \<Longrightarrow> 0 < k \<Longrightarrow> length (show_digits n) \<le> k"
proof (induction n arbitrary: k rule: show_digits.induct)
  case (1 n)
  show ?case
  proof (cases "n < 10")
    case True
    with "1.prems" show ?thesis by (simp add: show_digits.simps [of n])
  next
    case False
    with "1.prems" obtain j where k: "k = Suc j" "0 < j"
      by (cases k; cases "k - 1") auto
    with "1.prems" have "n div 10 < 10 ^ j" by auto
    with "1.IH" [of j] False k show ?thesis by (simp add: show_digits.simps [of n])
  qed
qed

lemma not_digit [simp]:
  "\<not> is_digit NUL" "\<not> is_digit CR" "\<not> is_digit LF" "\<not> is_digit (CHR ''-'')"
  "\<not> is_digit (CHR ''+'')" "\<not> is_digit (CHR ''*'')"
  by (simp_all add: is_digit_def)

lemma not_space_digit: "is_digit c \<Longrightarrow> \<not> is_space c"
  by (auto simp: is_digit_def is_space_def)

lemma digits_nul_free: "list_all is_digit s \<Longrightarrow> nul_free s"
  by (induction s) auto

lemma digits_no_CR: "list_all is_digit s \<Longrightarrow> CR \<notin> set s"
  by (induction s) auto

lemma digits_no_dash: "list_all is_digit s \<Longrightarrow> CHR ''-'' \<notin> set s"
  by (induction s) auto

lemma takeWhile_digits:
  "list_all is_digit ds \<Longrightarrow> (case r of [] \<Rightarrow> True | c # _ \<Rightarrow> \<not> is_digit c) \<Longrightarrow>
   takeWhile is_digit (ds @ r) = ds \<and> dropWhile is_digit (ds @ r) = r"
  by (induction ds) (auto split: list.splits)

lemma scan_number_show:
  assumes "0 \<le> n" and "case r of [] \<Rightarrow> True | c # _ \<Rightarrow> \<not> is_digit c"
  shows "scan_number (show_digits n @ r) = (False, n, r)"
proof -
  obtain c s where cs: "show_digits n = c # s" by (cases "show_digits n") auto
  have ds: "list_all is_digit (show_digits n)" using assms(1) by (rule show_digits_digits)
  then have c: "is_digit c" by (simp add: cs)
  then have "c \<noteq> CHR ''-''" "c \<noteq> CHR ''+''" by auto
  then have sign: "scan_sign (dropWhile is_space (show_digits n @ r)) = (False, show_digits n @ r)"
    using not_space_digit [OF c] by (simp add: cs scan_sign_def)
  have "takeWhile is_digit (show_digits n @ r) = show_digits n"
    and "dropWhile is_digit (show_digits n @ r) = r"
    using takeWhile_digits [OF ds assms(2)] by auto
  then show ?thesis
    by (simp add: scan_number_def sign digits_val_show assms(1))
qed

lemma show_nat_nul_free [simp]: "nul_free (show_nat n)"
  by (simp add: show_nat_def digits_nul_free show_digits_digits)

lemma show_nat_no_CR [simp]: "CR \<notin> set (show_nat n)"
  by (simp add: show_nat_def digits_no_CR show_digits_digits)

lemma show_int_nul_free [simp]: "nul_free (show_int i)"
  by (simp add: show_int_def digits_nul_free show_digits_digits)

lemma show_int_no_CR [simp]: "CR \<notin> set (show_int i)"
  by (simp add: show_int_def digits_no_CR show_digits_digits)

lemma atoll_show_digits:
  "0 \<le> n \<Longrightarrow> n < 2 ^ 63 \<Longrightarrow> atoll (show_digits n) = n"
  using scan_number_show [of n "[]"] by (simp add: atoll_def strtoll_def)

lemma atoi_show_nat: "n < 2 ^ 31 \<Longrightarrow> atoi (show_nat n) = int n"
  using atoll_show_digits [of "int n"]
  by (simp add: atoi_def show_nat_def signed_take_bit_int_eq_self_iff)

lemma strtoull_show:
  assumes "case r of [] \<Rightarrow> True | c # _ \<Rightarrow> \<not> is_digit c"
  shows "strtoull (show_digits (uint w) @ r) = (w, r)"
proof -
  have "uint w < 2 ^ 64" using uint_lt2p [of w] by simp
  then show ?thesis
    using scan_number_show [OF _ assms, of "uint w"] by (simp add: strtoull_def)
qed

lemma strtoll_show_int:
  assumes "- (2 ^ 63) \<le> i" and "i < 2 ^ 63"
  shows "strtoll (show_int i) = (i, [])"
proof (cases "i < 0")
  case False
  then show ?thesis
    using scan_number_show [of i "[]"] assms by (simp add: strtoll_def show_int_def)
next
  case True
  have ds: "list_all is_digit (show_digits (- i))" using True by (simp add: show_digits_digits)
  have tw: "takeWhile is_digit (show_digits (- i)) = show_digits (- i)"
    and dw: "dropWhile is_digit (show_digits (- i)) = []"
    using takeWhile_digits [OF ds, of "[]"] by auto
  have sp: "\<not> is_space (CHR ''-'')" by (simp add: is_space_def)
  have "scan_number (show_int i) = (True, - i, [])"
    using True sp unfolding scan_number_def show_int_def
    by (simp add: scan_sign_def tw dw digits_val_show)
  then show ?thesis using assms by (simp add: strtoll_def)
qed

subsection \<open>Words and lists\<close>

lemma word_less_succ: "w \<noteq> - 1 \<Longrightarrow> w < w + (1 :: 64 word)"
proof -
  assume "w \<noteq> - 1"
  then have "unat w \<noteq> unat (- 1 :: 64 word)" by (simp only: word_unat_eq_iff not_False_eq_True)
  moreover have "unat w < 2 ^ 64" using unsigned_less [of w] by simp
  moreover have "unat (- 1 :: 64 word) = 2 ^ 64 - 1"
    by (simp add: unsigned_minus_1_eq_mask mask_eq_exp_minus_1)
  ultimately have "unat w + 1 < 2 ^ 64" by linarith
  then show ?thesis by (simp add: word_less_nat_alt unat_word_ariths)
qed

lemma list_all_take: "list_all P xs \<Longrightarrow> list_all P (take n xs)"
  by (auto simp: list_all_iff dest: in_set_takeD)

lemma sum_list_update_nat:
  "i < length xs \<Longrightarrow> sum_list (xs[i := y]) + xs ! i = sum_list xs + (y :: nat)"
  by (induction xs arbitrary: i) (auto split: nat.splits)

end
