(* ===== verification/Redis_Stream.thy ===== *)
theory Redis_Stream
  imports CPrelude "HOL-Library.Signed_Division"
begin

text \<open>
  The stream component, \<^verbatim>\<open>src/app/stream.c\<close> and \<^verbatim>\<open>stream.h\<close>: stream identifiers and their
  order, parsing and printing of identifiers, the append operation with its choice of the next
  identifier, the two queries by range and by lower bound, the reads of several streams at
  once, and the timed wait for new data.

  A linked list of entries is the list of its entries, so \<^verbatim>\<open>stream->head\<close> and
  \<^verbatim>\<open>stream->tail\<close> are its first and last element. The parallel arrays \<^verbatim>\<open>fields\<close> and
  \<^verbatim>\<open>values\<close> of \<^verbatim>\<open>numFields\<close> strings are one list of pairs. Pointers that no caller passes
  as NULL are values, so the tests for a NULL argument have no counterpart. Allocations whose
  result the code tests are decided by a parameter \<open>alloc\<close>. The clock is a parameter \<open>now\<close>.
\<close>

section \<open>Stream identifiers\<close>

datatype StreamID = StreamID (ms: "64 word") (seq: "64 word")

abbreviation UINT64_MAX :: "64 word" where
  "UINT64_MAX \<equiv> - 1"

instantiation StreamID :: linorder
begin

definition less_StreamID :: "StreamID \<Rightarrow> StreamID \<Rightarrow> bool" where
  "less_StreamID a b = (ms a < ms b \<or> (ms a = ms b \<and> seq a < seq b))"

definition less_eq_StreamID :: "StreamID \<Rightarrow> StreamID \<Rightarrow> bool" where
  "less_eq_StreamID a b = (ms a < ms b \<or> (ms a = ms b \<and> seq a \<le> seq b))"

instance
  by standard (auto simp: less_StreamID_def less_eq_StreamID_def StreamID.expand)

end

definition isIdInRange :: "StreamID \<Rightarrow> StreamID \<Rightarrow> StreamID \<Rightarrow> bool" where
  "isIdInRange i start end =
     (if ms i < ms start \<or> ms end < ms i then False
      else if ms i = ms start \<and> seq i < seq start then False
      else if ms i = ms end \<and> seq end < seq i then False
      else True)"

definition compareStreamIDs :: "StreamID \<Rightarrow> StreamID \<Rightarrow> int" where
  "compareStreamIDs id1 id2 =
     (if ms id1 \<noteq> ms id2 then (if ms id2 < ms id1 then 1 else - 1)
      else if seq id1 \<noteq> seq id2 then (if seq id2 < seq id1 then 1 else - 1)
      else 0)"

text \<open>
  \<^verbatim>\<open>parseStreamID\<close>: \<open>None\<close> for a return value of false. A lone star takes the clock and
  the marker \<^verbatim>\<open>UINT64_MAX\<close> for the sequence; a star after the dash takes the marker only.
\<close>

definition parseStreamID :: "64 word \<Rightarrow> string \<Rightarrow> StreamID option" where
  "parseStreamID now i =
     (if i = ''*'' then Some (StreamID now UINT64_MAX)
      else case find_char (CHR ''-'') i of
        None \<Rightarrow> None
      | Some dash \<Rightarrow>
          if dash = 0 then None
          else if dash + 1 < length i \<and> i ! (dash + 1) = CHR ''*''
            then Some (StreamID (fst (strtoull i)) UINT64_MAX)
          else
            let (m, endptr) = strtoull i in
            if length endptr \<noteq> length i - dash then None
            else
              let (q, endptr2) = strtoull (drop (dash + 1) i) in
              if endptr2 \<noteq> [] then None else Some (StreamID m q))"

definition formatID :: "StreamID \<Rightarrow> string" where
  "formatID i = show_digits (uint (ms i)) @ CHR ''-'' # show_digits (uint (seq i))"

text \<open>\<^verbatim>\<open>snprintf\<close> into 32 bytes keeps 31 characters.\<close>

definition generateStreamID :: "64 word \<Rightarrow> 64 word \<Rightarrow> string" where
  "generateStreamID m q = take 31 (formatID (StreamID m q))"

section \<open>Streams and the append operation\<close>

record StreamEntry =
  entryId :: string
  fieldValues :: "(string \<times> string) list"

record Stream =
  entries :: "StreamEntry list"

definition createStream :: Stream where
  "createStream = \<lparr>entries = []\<rparr>"

definition stream_tail :: "Stream \<Rightarrow> StreamEntry option" where
  "stream_tail s = (if entries s = [] then None else Some (last (entries s)))"

text \<open>Whether \<^verbatim>\<open>strdup\<close> of a C string, or of every field and value, succeeds.\<close>

definition strdup_ok :: "allocator \<Rightarrow> string \<Rightarrow> bool" where
  "strdup_ok alloc s = alloc (length s + 1)"

definition strdups_ok :: "allocator \<Rightarrow> (string \<times> string) list \<Rightarrow> bool" where
  "strdups_ok alloc fvs = list_all (\<lambda>(f, v). strdup_ok alloc f \<and> strdup_ok alloc v) fvs"

definition copyStreamEntry :: "allocator \<Rightarrow> StreamEntry \<Rightarrow> StreamEntry option" where
  "copyStreamEntry alloc source =
     (if \<not> alloc 40 then None
      else if \<not> strdup_ok alloc (entryId source) then None
      else if \<not> alloc (length (fieldValues source) * 8) then None
      else if \<not> strdups_ok alloc (fieldValues source) then None
      else Some \<lparr>entryId = entryId source, fieldValues = fieldValues source\<rparr>)"

text \<open>
  \<^verbatim>\<open>getNextSequence\<close> ignores the result of parsing the last identifier; where parsing
  fails it reads the uninitialised \<^verbatim>\<open>lastId\<close>.
\<close>

definition getNextSequence :: "64 word \<Rightarrow> Stream \<Rightarrow> 64 word \<Rightarrow> 64 word run" where
  "getNextSequence now s m =
     (case stream_tail s of
        None \<Rightarrow> Ok (if m = 0 then 1 else 0)
      | Some e \<Rightarrow>
          (case parseStreamID now (entryId e) of
             None \<Rightarrow> Fault UninitRead
           | Some lastId \<Rightarrow> Ok (if ms lastId = m then seq lastId + 1 else 0)))"

definition isValidNextID :: "64 word \<Rightarrow> Stream \<Rightarrow> StreamID \<Rightarrow> bool" where
  "isValidNextID now s newId =
     (if ms newId = 0 \<and> seq newId = 0 then False
      else case stream_tail s of
        None \<Rightarrow> True
      | Some e \<Rightarrow>
          (case parseStreamID now (entryId e) of
             None \<Rightarrow> False
           | Some lastId \<Rightarrow>
               if ms newId < ms lastId then False
               else if ms newId = ms lastId \<and> seq newId \<le> seq lastId then False
               else True))"

definition err_zero_id :: string where
  "err_zero_id = ''-ERR The ID specified in XADD must be greater than 0-0''"

definition err_small_id :: string where
  "err_small_id =
     ''-ERR The ID specified in XADD is equal or smaller than the target stream top item''"

text \<open>The identifier an append works with: the parsed one, its marker replaced.\<close>

definition resolveID :: "64 word \<Rightarrow> Stream \<Rightarrow> string \<Rightarrow> StreamID option run" where
  "resolveID now s i =
     (case parseStreamID now i of
        None \<Rightarrow> Ok None
      | Some p \<Rightarrow>
          if seq p = UINT64_MAX
          then bind_run (getNextSequence now s (ms p)) (\<lambda>q. Ok (Some (StreamID (ms p) q)))
          else Ok (Some p))"

text \<open>
  \<^verbatim>\<open>streamAdd\<close>: the new stream, the new value of the flag \<^verbatim>\<open>has_new_data\<close> that a
  successful append sets (and broadcasts), and the returned string, \<open>None\<close> for NULL.
\<close>

definition streamAdd ::
  "allocator \<Rightarrow> 64 word \<Rightarrow> bool \<Rightarrow> Stream \<Rightarrow> string \<Rightarrow> (string \<times> string) list
     \<Rightarrow> (Stream \<times> bool \<times> string option) run" where
  "streamAdd alloc now has_new s i fvs =
     bind_run (resolveID now s i) (\<lambda>r.
       case r of
         None \<Rightarrow> Ok (s, has_new, None)
       | Some p \<Rightarrow>
           if \<not> isValidNextID now s p then
             Ok (s, has_new, Some (if ms p = 0 \<and> seq p = 0 then err_zero_id else err_small_id))
           else if \<not> alloc 32 then Ok (s, has_new, None)
           else
             let finalId = generateStreamID (ms p) (seq p) in
             if \<not> alloc 40 then Ok (s, has_new, None)
             else if \<not> alloc (length fvs * 8) then Ok (s, has_new, None)
             else if \<not> strdups_ok alloc fvs then Ok (s, has_new, None)
             else
               Ok (s\<lparr>entries := entries s @ [\<lparr>entryId = finalId, fieldValues = fvs\<rparr>]\<rparr>, True,
                   if strdup_ok alloc finalId then Some finalId else None))"

section \<open>Queries\<close>

text \<open>
  The loop that \<^verbatim>\<open>streamRange\<close> and \<^verbatim>\<open>streamRead\<close> share: an entry whose identifier
  does not parse is skipped, an entry that satisfies the condition is copied, and the first
  copy that fails ends the loop.
\<close>

fun collectEntries ::
  "allocator \<Rightarrow> 64 word \<Rightarrow> (StreamID \<Rightarrow> bool) \<Rightarrow> StreamEntry list \<Rightarrow> StreamEntry list" where
  "collectEntries alloc now P [] = []"
| "collectEntries alloc now P (e # es) =
     (case parseStreamID now (entryId e) of
        None \<Rightarrow> collectEntries alloc now P es
      | Some i \<Rightarrow>
          if P i then
            (case copyStreamEntry alloc e of
               None \<Rightarrow> []
             | Some c \<Rightarrow> c # collectEntries alloc now P es)
          else collectEntries alloc now P es)"

text \<open>
  The result is the list of copies (empty for NULL) and what the call stores in \<^verbatim>\<open>*count\<close>:
  \<open>None\<close> where it returns before writing it.
\<close>

definition streamRange ::
  "allocator \<Rightarrow> 64 word \<Rightarrow> Stream \<Rightarrow> string \<Rightarrow> string \<Rightarrow> StreamEntry list \<times> nat option" where
  "streamRange alloc now s start end =
     (case (if start = ''-'' then Some (StreamID 0 0) else parseStreamID now start) of
        None \<Rightarrow> ([], None)
      | Some startId \<Rightarrow>
          (case (if end = ''+'' then Some (StreamID UINT64_MAX UINT64_MAX)
                 else parseStreamID now end) of
             None \<Rightarrow> ([], None)
           | Some endId \<Rightarrow>
               let result = collectEntries alloc now (\<lambda>i. isIdInRange i startId endId) (entries s)
               in (result, Some (length result))))"

definition streamRead ::
  "allocator \<Rightarrow> 64 word \<Rightarrow> Stream \<Rightarrow> string \<Rightarrow> StreamEntry list \<times> nat option" where
  "streamRead alloc now s i =
     (case parseStreamID now i of
        None \<Rightarrow> ([], None)
      | Some startId \<Rightarrow>
          let result = collectEntries alloc now (\<lambda>j. 0 < compareStreamIDs j startId) (entries s)
          in (result, Some (length result)))"

section \<open>Reading several streams\<close>

text \<open>\<open>infoCount\<close> is \<open>None\<close> while \<^verbatim>\<open>count\<close> has not been written.\<close>

record StreamInfo =
  infoKey :: string
  infoEntries :: "StreamEntry list"
  infoCount :: "nat option"

definition readOne ::
  "allocator \<Rightarrow> 64 word \<Rightarrow> Stream option \<times> string \<times> string \<Rightarrow> StreamInfo" where
  "readOne alloc now r =
     (case r of (st, k, i) \<Rightarrow>
        (case st of
           None \<Rightarrow> \<lparr>infoKey = k, infoEntries = [], infoCount = Some 0\<rparr>
         | Some s \<Rightarrow>
             (case streamRead alloc now s i of
                (es, c) \<Rightarrow> \<lparr>infoKey = k, infoEntries = es, infoCount = c\<rparr>)))"

text \<open>The loop of \<^verbatim>\<open>processStreamReads\<close>: it reads \<^verbatim>\<open>count\<close> after every read of a stream.\<close>

fun processReadsLoop ::
  "allocator \<Rightarrow> 64 word \<Rightarrow> (Stream option \<times> string \<times> string) list
     \<Rightarrow> (StreamInfo list option \<times> bool) run" where
  "processReadsLoop alloc now [] = Ok (Some [], False)"
| "processReadsLoop alloc now (r # rs) =
     (if \<not> strdup_ok alloc (fst (snd r)) then Ok (None, False)
      else
        let info = readOne alloc now r in
        case infoCount info of
          None \<Rightarrow> Fault UninitRead
        | Some c \<Rightarrow>
            bind_run (processReadsLoop alloc now rs) (\<lambda>(infos, more).
              Ok (map_option (\<lambda>is. info # is) infos, 0 < c \<or> more)))"

definition processStreamReads ::
  "allocator \<Rightarrow> 64 word \<Rightarrow> (Stream option \<times> string \<times> string) list
     \<Rightarrow> (StreamInfo list option \<times> bool) run" where
  "processStreamReads alloc now rs =
     (if rs = [] then Ok (None, False)
      else if \<not> alloc (length rs * 24) then Ok (None, False)
      else processReadsLoop alloc now rs)"

definition recheckStreams ::
  "allocator \<Rightarrow> 64 word \<Rightarrow> (Stream option \<times> string \<times> string) list \<Rightarrow> StreamInfo list" where
  "recheckStreams alloc now rs = map (readOne alloc now) rs"

section \<open>Waiting for new data\<close>

datatype wait_status = WaitSignalled | WaitTimedOut | WaitInvalid

text \<open>
  The deadline that \<^verbatim>\<open>waitForStreamData\<close> computes from the time of day (seconds,
  nanoseconds) and a timeout in milliseconds. \<^verbatim>\<open>pthread_cond_timedwait\<close> refuses a deadline
  whose nanoseconds are outside of a second (\<^verbatim>\<open>EINVAL\<close>); otherwise its outcome is the
  parameter. The call clears \<^verbatim>\<open>has_new_data\<close> and reports whether the wait did not time out.
\<close>

definition waitDeadline :: "int \<times> int \<Rightarrow> int \<Rightarrow> int \<times> int" where
  "waitDeadline tod timeoutMs =
     (fst tod + timeoutMs sdiv 1000, snd tod + (timeoutMs smod 1000) * 1000000)"

definition timedwait :: "int \<times> int \<Rightarrow> wait_status \<Rightarrow> wait_status" where
  "timedwait deadline outcome =
     (if snd deadline < 0 \<or> 1000000000 \<le> snd deadline then WaitInvalid else outcome)"

definition waitForStreamData :: "int \<times> int \<Rightarrow> int \<Rightarrow> wait_status \<Rightarrow> bool \<times> bool" where
  "waitForStreamData tod timeoutMs outcome =
     (False, timedwait (waitDeadline tod timeoutMs) outcome \<noteq> WaitTimedOut)"

text \<open>
  The state that the waits share, as the program starts with it: its flag \<^verbatim>\<open>has_new_data\<close>. And the
  clock of the identifiers, from the time of day.
\<close>

definition stream_block_state :: bool where
  "stream_block_state = False"

definition streamTimeMs :: "int \<times> int \<Rightarrow> 64 word" where
  "streamTimeMs tod = of_int (fst tod) * 1000 + of_int (snd tod div 1000) div 1000"

definition waitForStreamDataInfinite :: "bool \<times> bool" where
  "waitForStreamDataInfinite = (False, True)"

section \<open>Well-formed streams\<close>

definition entryKey :: "StreamEntry \<Rightarrow> StreamID" where
  "entryKey e = (case parseStreamID 0 (entryId e) of None \<Rightarrow> StreamID 0 0 | Some i \<Rightarrow> i)"

definition wf_entries :: "StreamEntry list \<Rightarrow> bool" where
  "wf_entries es =
     (list_all (\<lambda>e. entryId e = formatID (entryKey e)) es \<and> sorted_wrt (<) (map entryKey es))"

definition wf_stream :: "Stream \<Rightarrow> bool" where
  "wf_stream s = wf_entries (entries s)"

section \<open>Identifiers: order, parsing and printing\<close>

lemma compareStreamIDs_sign:
  "0 < compareStreamIDs a b \<longleftrightarrow> b < a"
  "compareStreamIDs a b < 0 \<longleftrightarrow> a < b"
  "compareStreamIDs a b = 0 \<longleftrightarrow> a = b"
  by (auto simp: compareStreamIDs_def less_StreamID_def StreamID.expand)

lemma isIdInRange_iff: "isIdInRange i a b \<longleftrightarrow> a \<le> i \<and> i \<le> b"
  by (auto simp: isIdInRange_def less_eq_StreamID_def)

lemma zero_le_StreamID [simp]: "StreamID 0 0 \<le> i"
  by (auto simp: less_eq_StreamID_def word_neq_0_conv)

lemma StreamID_le_max [simp]: "i \<le> StreamID UINT64_MAX UINT64_MAX"
  by (auto simp: less_eq_StreamID_def order_less_le)

lemma show_uint_digits: "list_all is_digit (show_digits (uint (w :: 64 word)))"
  by (simp add: show_digits_digits)

lemma formatID_find_dash:
  "find_char (CHR ''-'') (formatID i) = Some (length (show_digits (uint (ms i))))"
  unfolding formatID_def
  by (rule find_char_append) (rule digits_no_dash [OF show_uint_digits])

lemma formatID_not_star: "formatID i \<noteq> ''*''"
  by (auto simp: formatID_def append_eq_Cons_conv)

lemma formatID_nul_free [simp]: "nul_free (formatID i)"
  by (simp add: formatID_def digits_nul_free show_uint_digits)

lemma formatID_no_star:
  "length (show_digits (uint (ms i))) + 1 < length (formatID i) \<Longrightarrow>
   formatID i ! (length (show_digits (uint (ms i))) + 1) \<noteq> CHR ''*''"
proof -
  have "is_digit (hd (show_digits (uint (seq i))))"
    using show_uint_digits [of "seq i"] by (cases "show_digits (uint (seq i))") auto
  then show ?thesis
    by (auto simp: formatID_def nth_append hd_conv_nth)
qed

lemma parse_formatID: "parseStreamID now (formatID i) = Some i"
proof -
  let ?a = "show_digits (uint (ms i))" and ?b = "show_digits (uint (seq i))"
  have 1: "strtoull (formatID i) = (ms i, CHR ''-'' # ?b)"
    unfolding formatID_def by (rule strtoull_show) simp
  have 2: "strtoull (drop (length ?a + 1) (formatID i)) = (seq i, [])"
    using strtoull_show [of "[]" "seq i"] by (simp add: formatID_def)
  have 3: "length (CHR ''-'' # ?b) = length (formatID i) - length ?a"
    by (simp add: formatID_def)
  show ?thesis
    unfolding parseStreamID_def
    using formatID_not_star formatID_no_star [of i] 3
    by (simp only: formatID_find_dash option.case 1 2 prod.case) auto
qed

lemma formatID_inj: "formatID i = formatID j \<longleftrightarrow> i = j"
  by (metis parse_formatID option.inject)

lemma length_formatID: "length (formatID i) \<le> 41"
proof -
  have "uint w < 10 ^ 20" for w :: "64 word"
    using uint_lt2p [of w] by simp
  then have "length (show_digits (uint w)) \<le> 20" for w :: "64 word"
    by (intro length_show_digits) auto
  from this [of "ms i"] this [of "seq i"] show ?thesis by (simp add: formatID_def)
qed

lemma generate_fits: "length (formatID p) \<le> 31 \<Longrightarrow> generateStreamID (ms p) (seq p) = formatID p"
  by (simp add: generateStreamID_def)

text \<open>
  Round trip of stream identifiers: an identifier whose text fits the 32-byte buffer of
  \<^verbatim>\<open>generateStreamID\<close> is parsed back by \<^verbatim>\<open>parseStreamID\<close> to the same two 64-bit numbers,
  at every time of day.
\<close>

theorem parse_generateStreamID:
  "length (formatID (StreamID m q)) \<le> 31 \<Longrightarrow>
   parseStreamID now (generateStreamID m q) = Some (StreamID m q)"
  using generate_fits [of "StreamID m q"] by (simp add: parse_formatID)

theorem parse_generateStreamID_witness:
  "parseStreamID 0 (generateStreamID 1526919030474 55) = Some (StreamID 1526919030474 55)"
  by (rule parse_generateStreamID) code_simp

section \<open>The interface of an ordered log\<close>

text \<open>
  What the readers of a stream rely on: its entries carry strictly increasing keys. The
  queries of the code are filters; on an ordered log they return a suffix or a segment, and a
  reader that resumes after the last key it has seen gets exactly the entries added since.
\<close>

locale ordered_log =
  fixes log_key :: "'e \<Rightarrow> 'i::linorder"
    and log_inv :: "'e list \<Rightarrow> bool"
  assumes log_sorted: "log_inv es \<Longrightarrow> sorted_wrt (<) (map log_key es)"
begin

lemma log_distinct: "log_inv es \<Longrightarrow> distinct (map log_key es)"
  using log_sorted strict_sorted_iff by blast

lemma log_snoc_greater: "log_inv (es @ [e]) \<Longrightarrow> x \<in> set es \<Longrightarrow> log_key x < log_key e"
  using log_sorted [of "es @ [e]"] by (auto simp: sorted_wrt_append)

lemma log_after_suffix:
  assumes "log_inv es"
  shows "filter (\<lambda>e. x < log_key e) es = dropWhile (\<lambda>e. log_key e \<le> x) es"
proof -
  have "sorted_wrt (<) (map log_key es)" using assms by (rule log_sorted)
  then show ?thesis
  proof (induction es)
    case (Cons e es)
    show ?case
    proof (cases "log_key e \<le> x")
      case True
      with Cons show ?thesis by auto
    next
      case False
      with Cons.prems have "\<forall>y\<in>set es. x < log_key y" by fastforce
      with False show ?thesis by simp
    qed
  qed simp
qed

lemma log_resume:
  assumes "log_inv (es @ new)" and "es \<noteq> []"
  shows "filter (\<lambda>e. log_key (last es) < log_key e) (es @ new) = new"
proof -
  have srt: "sorted_wrt (<) (map log_key (es @ new))" using assms(1) by (rule log_sorted)
  have le: "log_key e \<le> log_key (last es)" if "e \<in> set es" for e
  proof -
    have "sorted_wrt (<) (map log_key (butlast es @ [last es]))"
      using srt assms(2) by (simp add: sorted_wrt_append)
    moreover have "e \<in> set (butlast es) \<or> e = last es"
      using that assms(2) by (metis append_butlast_last_id Un_iff
          set_append empty_iff insert_iff list.set)
    ultimately show ?thesis by (auto simp: sorted_wrt_append)
  qed
  have "filter (\<lambda>e. log_key (last es) < log_key e) es = []"
    using le by (auto simp: filter_empty_conv not_less)
  moreover have "filter (\<lambda>e. log_key (last es) < log_key e) new = new"
    using srt assms(2) by (auto simp: filter_id_conv sorted_wrt_append)
  ultimately show ?thesis by simp
qed

end

interpretation stream_log: ordered_log entryKey wf_entries
  by unfold_locales (simp add: wf_entries_def)

section \<open>Appending keeps a stream well-formed\<close>

lemma wf_entries_parse:
  assumes "wf_entries es" and "e \<in> set es"
  shows "parseStreamID now (entryId e) = Some (entryKey e)"
  using assms parse_formatID [of now "entryKey e"] by (auto simp: wf_entries_def list_all_iff)

lemma stream_tail_wf:
  assumes "wf_stream s" and "stream_tail s = Some e"
  shows "e \<in> set (entries s)" and "\<forall>x\<in>set (entries s). entryKey x \<le> entryKey e"
proof -
  from assms(2) have ne: "entries s \<noteq> []" and e: "e = last (entries s)"
    by (auto simp: stream_tail_def split: if_splits)
  then have split: "entries s = butlast (entries s) @ [e]" by simp
  then show "e \<in> set (entries s)" by (metis in_set_conv_decomp)
  have "wf_entries (butlast (entries s) @ [e])"
    using assms(1) split by (simp add: wf_stream_def)
  then have "\<forall>x\<in>set (butlast (entries s)). entryKey x < entryKey e"
    using stream_log.log_snoc_greater by blast
  with split show "\<forall>x\<in>set (entries s). entryKey x \<le> entryKey e"
    by (metis Un_iff empty_iff insert_iff less_imp_le list.set order_refl set_append)
qed

lemma parse_tail_wf:
  "wf_stream s \<Longrightarrow> stream_tail s = Some e \<Longrightarrow> parseStreamID now (entryId e) = Some (entryKey e)"
  using stream_tail_wf(1) wf_entries_parse by (simp add: wf_stream_def)

lemma isValidNextID_wf:
  assumes "wf_stream s"
  shows "isValidNextID now s p \<longleftrightarrow>
           p \<noteq> StreamID 0 0 \<and> (\<forall>e\<in>set (entries s). entryKey e < p)"
proof (cases "stream_tail s")
  case None
  then have "entries s = []" by (auto simp: stream_tail_def split: if_splits)
  with None show ?thesis
    by (auto simp: isValidNextID_def StreamID.expand)
next
  case (Some t)
  note t = stream_tail_wf [OF assms Some]
  have "isValidNextID now s p \<longleftrightarrow> p \<noteq> StreamID 0 0 \<and> entryKey t < p"
    using parse_tail_wf [OF assms Some]
    by (auto simp: isValidNextID_def Some StreamID.expand less_StreamID_def not_le)
  with t show ?thesis by (meson order_le_less_trans)
qed

lemma getNextSequence_wf:
  "wf_stream s \<Longrightarrow> \<exists>q. getNextSequence now s m = Ok q"
  by (auto simp: getNextSequence_def parse_tail_wf split: option.split)

lemma resolveID_wf: "wf_stream s \<Longrightarrow> \<exists>r. resolveID now s i = Ok r"
  using getNextSequence_wf [of s now]
  by (auto simp: resolveID_def run_simps split: option.split)

lemma wf_entries_snoc:
  assumes "wf_entries es" and "\<forall>e\<in>set es. entryKey e < p" and "entryId e = formatID p"
  shows "wf_entries (es @ [e])"
proof -
  have "entryKey e = p" using assms(3) by (simp add: entryKey_def parse_formatID)
  with assms show ?thesis by (simp add: wf_entries_def sorted_wrt_append)
qed


lemma streamAdd_keeps_wf:
  assumes "wf_stream s"
    and "streamAdd alloc now has_new s i fvs = Ok (s', has_new', r)"
    and fits: "\<And>p. resolveID now s i = Ok (Some p) \<Longrightarrow> length (formatID p) \<le> 31"
  shows "wf_stream s'"
proof -
  obtain q where q: "resolveID now s i = Ok q" using resolveID_wf [OF assms(1)] by blast
  show ?thesis
  proof (cases "entries s' = entries s")
    case True
    with assms(1) show ?thesis by (simp add: wf_stream_def)
  next
    case False
    with assms(2) q obtain p where p: "q = Some p" and v: "isValidNextID now s p"
      and es: "entries s' = entries s @ [\<lparr>entryId = generateStreamID (ms p) (seq p), fieldValues = fvs\<rparr>]"
      by (auto simp: streamAdd_def Let_def split: option.splits if_splits)
    have "generateStreamID (ms p) (seq p) = formatID p"
      using fits q p by (intro generate_fits) simp
    then show ?thesis
      using v assms(1) isValidNextID_wf [OF assms(1), of now p]
      by (auto simp: wf_stream_def es intro!: wf_entries_snoc)
  qed
qed

text \<open>
  The invariant of streams: an append keeps the identifiers of a well-formed stream
  strictly increasing and each stored text the exact print of its identifier, provided that
  the text of the chosen identifier fits the 31 characters \<^verbatim>\<open>generateStreamID\<close> can store.
\<close>

theorem streamAdd_wf:
  assumes "wf_stream s"
    and "streamAdd alloc now has_new s i fvs = Ok (s', has_new', r)"
    and "\<And>p. resolveID now s i = Ok (Some p) \<Longrightarrow> length (formatID p) \<le> 31"
  shows "wf_stream s'"
  by (rule streamAdd_keeps_wf [OF assms])

definition example_stream :: Stream where
  "example_stream = \<lparr>entries = [\<lparr>entryId = ''5-1'', fieldValues = [(''a'', ''x'')]\<rparr>,
                                \<lparr>entryId = ''7-0'', fieldValues = [(''b'', ''y'')]\<rparr>]\<rparr>"

lemma example_stream_wf: "wf_stream example_stream"
  by code_simp


theorem streamAdd_wf_witness:
  "wf_stream \<lparr>entries = entries example_stream @ [\<lparr>entryId = ''9-0'', fieldValues = []\<rparr>]\<rparr>"
proof (rule streamAdd_wf [OF example_stream_wf, of always 9 False "''*''" "[]" _ True "Some ''9-0''"])
  show "streamAdd always 9 False example_stream ''*'' [] =
    Ok (\<lparr>entries = entries example_stream @ [\<lparr>entryId = ''9-0'', fieldValues = []\<rparr>]\<rparr>,
        True, Some ''9-0'')"
    by code_simp
  have r: "resolveID 9 example_stream ''*'' = Ok (Some (StreamID 9 0))" by code_simp
  show "length (formatID p) \<le> 31" if "resolveID 9 example_stream ''*'' = Ok (Some p)" for p
  proof -
    from that r have "p = StreamID 9 0" by simp
    then show ?thesis by (simp del: length_greater_0_conv) code_simp
  qed
qed

text \<open>
  An automatic identifier is never refused: with a clock that is not behind the last
  entry of a well-formed stream, and past the zero of the epoch, \<^verbatim>\<open>XADD key *\<close> appends under
  the clock's millisecond, with sequence 0, or the successor of the last sequence in the
  same millisecond. (The hypothesis on the sequence excludes its wrap-around.)
\<close>

theorem streamAdd_auto:
  assumes "wf_stream s" and "now \<noteq> 0"
    and "\<forall>e\<in>set (entries s). ms (entryKey e) \<le> now \<and> seq (entryKey e) \<noteq> UINT64_MAX"
  shows "\<exists>q. streamAdd always now has_new s ''*'' fvs =
      Ok (s\<lparr>entries := entries s @ [\<lparr>entryId = generateStreamID now q, fieldValues = fvs\<rparr>]\<rparr>, True,
          Some (generateStreamID now q)) \<and>
    (case stream_tail s of
       None \<Rightarrow> q = 0
     | Some e \<Rightarrow> q = (if ms (entryKey e) = now then seq (entryKey e) + 1 else 0))"
proof -
  let ?q = "case stream_tail s of None \<Rightarrow> 0
     | Some e \<Rightarrow> (if ms (entryKey e) = now then seq (entryKey e) + 1 else 0)"
  have nx: "getNextSequence now s now = Ok ?q"
    using assms(2) by (auto simp: getNextSequence_def parse_tail_wf [OF assms(1)] split: option.split)
  have res: "resolveID now s ''*'' = Ok (Some (StreamID now ?q))"
    by (simp add: resolveID_def parseStreamID_def nx)
  have "entryKey e < StreamID now ?q" if e: "e \<in> set (entries s)" for e
  proof (cases "stream_tail s")
    case None
    with e show ?thesis by (auto simp: stream_tail_def split: if_splits)
  next
    case (Some t)
    note t = stream_tail_wf [OF assms(1) Some]
    have "seq (entryKey t) < seq (entryKey t) + 1"
      using t(1) assms(3) by (auto intro: word_less_succ)
    then have "entryKey t < StreamID now ?q"
      using t(1) assms(3) by (auto simp: Some less_StreamID_def order_less_le)
    with t(2) e show ?thesis by (meson order_le_less_trans)
  qed
  then have "isValidNextID now s (StreamID now ?q)"
    using assms(2) by (auto simp: isValidNextID_wf [OF assms(1)])
  then have "streamAdd always now has_new s ''*'' fvs =
      Ok (s\<lparr>entries := entries s @ [\<lparr>entryId = generateStreamID now ?q, fieldValues = fvs\<rparr>]\<rparr>, True,
          Some (generateStreamID now ?q))"
    by (simp add: streamAdd_def res strdup_ok_def strdups_ok_def list_all_iff Let_def)
  then show ?thesis by (intro exI [of _ ?q]) (simp split: option.split)
qed

theorem streamAdd_auto_witness:
  "\<exists>q. streamAdd always 7 False example_stream ''*'' [] =
      Ok (example_stream\<lparr>entries := entries example_stream @
            [\<lparr>entryId = generateStreamID 7 q, fieldValues = []\<rparr>]\<rparr>, True, Some (generateStreamID 7 q))
     \<and> q = 1"
proof -
  have h: "\<forall>e\<in>set (entries example_stream). ms (entryKey e) \<le> 7 \<and> seq (entryKey e) \<noteq> UINT64_MAX"
    by code_simp
  have t: "stream_tail example_stream = Some \<lparr>entryId = ''7-0'', fieldValues = [(''b'', ''y'')]\<rparr>"
    by code_simp
  have k: "entryKey \<lparr>entryId = ''7-0'', fieldValues = [(''b'', ''y'')]\<rparr> = StreamID 7 0"
    by code_simp
  show ?thesis
    using streamAdd_auto [OF example_stream_wf _ h, of False "[]"] by (simp add: t k)
qed

section \<open>Queries of a well-formed stream\<close>

lemma copyStreamEntry_always [simp]: "copyStreamEntry always e = Some e"
  by (simp add: copyStreamEntry_def strdup_ok_def strdups_ok_def list_all_iff)

lemma collectEntries_filter:
  assumes "wf_entries es"
  shows "collectEntries always now P es = filter (\<lambda>e. P (entryKey e)) es"
proof -
  have "\<forall>e\<in>set es. parseStreamID now (entryId e) = Some (entryKey e)"
    using wf_entries_parse [OF assms] by blast
  then show ?thesis by (induction es) auto
qed

lemma collectEntries_prefix:
  assumes "wf_entries es"
  shows "\<exists>n. collectEntries alloc now P es = take n (filter (\<lambda>e. P (entryKey e)) es)"
proof -
  have copy: "copyStreamEntry alloc e \<in> {None, Some e}" for e
    by (simp add: copyStreamEntry_def)
  have "\<forall>e\<in>set es. parseStreamID now (entryId e) = Some (entryKey e)"
    using wf_entries_parse [OF assms] by blast
  then show ?thesis
  proof (induction es)
    case (Cons e es)
    then obtain n where n: "collectEntries alloc now P es = take n (filter (\<lambda>e. P (entryKey e)) es)"
      by auto
    consider "copyStreamEntry alloc e = None" | "copyStreamEntry alloc e = Some e"
      using copy [of e] by auto
    then show ?case
      using n Cons.prems by cases (auto intro: exI [of _ 0] exI [of _ "Suc n"] exI [of _ n])
  qed auto
qed

text \<open>
  C16. \<^verbatim>\<open>streamRange\<close> on a well-formed stream returns exactly the entries whose identifiers
  lie between the two bounds, both included, in stream order, and stores their number in
  \<^verbatim>\<open>*count\<close>; \<^verbatim>\<open>-\<close> and \<^verbatim>\<open>+\<close> stand for the least and the greatest identifier.
\<close>

theorem streamRange_exact:
  assumes "wf_stream s"
    and "(if start = ''-'' then Some (StreamID 0 0) else parseStreamID now start) = Some a"
    and "(if end = ''+'' then Some (StreamID UINT64_MAX UINT64_MAX) else parseStreamID now end) = Some b"
  shows "streamRange always now s start end =
    (let r = filter (\<lambda>e. a \<le> entryKey e \<and> entryKey e \<le> b) (entries s) in (r, Some (length r)))"
  using assms
  by (simp add: streamRange_def wf_stream_def collectEntries_filter isIdInRange_iff)

theorem streamRange_exact_witness:
  "streamRange always 0 example_stream ''6-0'' ''+'' =
    ([\<lparr>entryId = ''7-0'', fieldValues = [(''b'', ''y'')]\<rparr>], Some 1)"
proof -
  have a: "(if ''6-0'' = ''-'' then Some (StreamID 0 0) else parseStreamID 0 ''6-0'') = Some (StreamID 6 0)"
    by code_simp
  have "(let r = filter (\<lambda>e. StreamID 6 0 \<le> entryKey e \<and> entryKey e \<le> StreamID UINT64_MAX UINT64_MAX)
      (entries example_stream) in (r, Some (length r))) =
    ([\<lparr>entryId = ''7-0'', fieldValues = [(''b'', ''y'')]\<rparr>], Some 1)"
    by code_simp
  then show ?thesis
    using streamRange_exact [OF example_stream_wf a, of "''+''"] by simp
qed

text \<open>
  Under any allocator, a range query of a well-formed stream returns a prefix of the exact
  answer: when a copy fails the code stops early, and never returns a wrong or reordered entry;
  the count it stores is the number of entries it returns.
\<close>

theorem streamRange_prefix:
  assumes "wf_stream s"
    and "(if start = ''-'' then Some (StreamID 0 0) else parseStreamID now start) = Some a"
    and "(if end = ''+'' then Some (StreamID UINT64_MAX UINT64_MAX) else parseStreamID now end) = Some b"
  shows "\<exists>n. streamRange alloc now s start end =
    (let r = take n (filter (\<lambda>e. a \<le> entryKey e \<and> entryKey e \<le> b) (entries s)) in (r, Some (length r)))"
  using assms collectEntries_prefix [of "entries s" alloc now "\<lambda>i. isIdInRange i a b"]
  by (auto simp: streamRange_def wf_stream_def isIdInRange_iff)

theorem streamRange_prefix_witness:
  "\<exists>n. streamRange (\<lambda>k. k \<noteq> 40) 0 example_stream ''-'' ''+'' =
    (let r = take n (filter (\<lambda>e. StreamID 0 0 \<le> entryKey e \<and> entryKey e \<le> StreamID UINT64_MAX UINT64_MAX)
       (entries example_stream)) in (r, Some (length r)))"
  by (rule streamRange_prefix [OF example_stream_wf]) simp_all

text \<open>
  C17. Resuming a read: when a reader has seen the entries \<open>es\<close> of a stream and asks for what
  follows the identifier of the last one, \<^verbatim>\<open>streamRead\<close> returns exactly the entries \<open>new\<close>
  appended since then, in order: none is lost and none is delivered twice.
\<close>

theorem streamRead_resume:
  assumes "wf_stream s" and "entries s = es @ new" and "es \<noteq> []"
  shows "streamRead always now s (entryId (last es)) = (new, Some (length new))"
proof -
  have wf: "wf_entries (es @ new)" using assms(1,2) by (simp add: wf_stream_def)
  have "parseStreamID now (entryId (last es)) = Some (entryKey (last es))"
    using wf assms(3) by (intro wf_entries_parse [of "es @ new"]) auto
  then show ?thesis
    using stream_log.log_resume [OF wf assms(3)]
    by (simp add: streamRead_def assms(2) collectEntries_filter [OF wf] compareStreamIDs_sign)
qed

theorem streamRead_resume_witness:
  "streamRead always 0 example_stream ''5-1'' =
    ([\<lparr>entryId = ''7-0'', fieldValues = [(''b'', ''y'')]\<rparr>], Some 1)"
  using streamRead_resume [OF example_stream_wf,
      of "[\<lparr>entryId = ''5-1'', fieldValues = [(''a'', ''x'')]\<rparr>]"
         "[\<lparr>entryId = ''7-0'', fieldValues = [(''b'', ''y'')]\<rparr>]" 0]
  by (simp add: example_stream_def)

section \<open>Limits of the implementation\<close>

text \<open>
  The 32-byte buffer of \<^verbatim>\<open>generateStreamID\<close> is too small for all pairs of 64-bit
  numbers: on a well-formed stream an append of an identifier of 41 characters succeeds and
  reports, and stores, a truncated identifier that is already the identifier of the last
  entry, so two entries of the stream have the same identifier.
\<close>

theorem generateStreamID_truncation_duplicates:
  "let s = \<lparr>entries = [\<lparr>entryId = ''18446744073709551615-1844674407'', fieldValues = []\<rparr>]\<rparr> in
   wf_stream s \<and>
   streamAdd always 0 False s ''18446744073709551615-18446744073709551614'' [] =
     Ok (\<lparr>entries = entries s @ entries s\<rparr>, True, Some ''18446744073709551615-1844674407'')"
  by code_simp

text \<open>
  The deadline of \<^verbatim>\<open>waitForStreamData\<close> is not normalised: whenever the nanoseconds of
  the time of day plus those of the timeout reach a full second, the wait is refused by
  \<^verbatim>\<open>pthread_cond_timedwait\<close> and the call reports new data at once, although none arrived.
\<close>

theorem waitForStreamData_unnormalised:
  assumes "1000000000 \<le> nsec + (timeoutMs smod 1000) * 1000000"
  shows "waitForStreamData (sec, nsec) timeoutMs WaitTimedOut = (False, True)"
  using assms by (simp add: waitForStreamData_def timedwait_def waitDeadline_def)

theorem waitForStreamData_unnormalised_witness:
  "waitForStreamData (1700000000, 600000000) 500 WaitTimedOut = (False, True)"
  by (rule waitForStreamData_unnormalised) code_simp

text \<open>
  Reading a malformed identifier: when one of the requested streams exists and the
  identifier given for it does not parse, \<^verbatim>\<open>processStreamReads\<close> reads a \<^verbatim>\<open>count\<close> that
  was never written.
\<close>

theorem processStreamReads_malformed_id:
  assumes "parseStreamID now i = None"
  shows "processStreamReads always now [(Some s, k, i)] = Fault UninitRead"
  using assms
  by (simp add: processStreamReads_def readOne_def streamRead_def strdup_ok_def)

theorem processStreamReads_malformed_id_witness:
  "processStreamReads always 0 [(Some example_stream, ''s'', ''7'')] = Fault UninitRead"
  by (rule processStreamReads_malformed_id) code_simp

end
