(* ===== verification/Redis_Store.thy ===== *)
theory Redis_Store
  imports Redis_Stream "HOL-Library.Multiset"
begin

text \<open>
  The key-value store, \<^verbatim>\<open>src/app/redis_store.c\<close> and \<^verbatim>\<open>redis_store.h\<close>: a hash table with
  chaining that doubles when it gets too full, string and stream values, and expiry times.

  The table is a list of chains, each the list of its entries in link order. Keys passed to
  the operations are C strings. The operations hold a read or a write lock for their whole
  body, or none at all; here they are single steps. The clock is a parameter, in milliseconds
  where the code calls \<^verbatim>\<open>getCurrentTimeMs\<close> and in seconds where it calls \<^verbatim>\<open>time\<close>. The
  expiry of an entry that \<^verbatim>\<open>storeStreamAdd\<close> creates is never written; it is the parameter
  \<open>junk\<close>.
\<close>

section \<open>Entries and the table\<close>

datatype ValueType = TYPE_NONE | TYPE_STRING | TYPE_STREAM

text \<open>
  The union of an entry. \<open>StringNull\<close> is a string whose data pointer is NULL: the state in
  which \<^verbatim>\<open>storeSet\<close> leaves an entry when the allocation of the new value fails.
\<close>

datatype StoreValue = StringValue string | StringNull | StreamValue Stream

record StoreEntry =
  skey :: string
  svalue :: StoreValue
  expiry :: int

record RedisStore =
  table :: "StoreEntry list list"
  tableSize :: nat
  used :: nat

definition INITIAL_STORE_SIZE :: nat where
  "INITIAL_STORE_SIZE = 16"

definition valueType :: "StoreEntry \<Rightarrow> ValueType" where
  "valueType e = (case svalue e of StreamValue _ \<Rightarrow> TYPE_STREAM | _ \<Rightarrow> TYPE_STRING)"

text \<open>The characters of a C string are signed.\<close>

definition schar :: "char \<Rightarrow> 64 word" where
  "schar c = of_int (if (of_char c :: int) < 128 then of_char c else of_char c - 256)"

definition hash :: "string \<Rightarrow> 64 word" where
  "hash k = foldl (\<lambda>h c. (push_bit 5 h + h) + schar c) 5381 k"

definition bucket :: "nat \<Rightarrow> string \<Rightarrow> nat" where
  "bucket n k = nat (uint (hash k) mod int n)"

text \<open>
  A new store, and \<^verbatim>\<open>createStore\<close>, which returns it unless an allocation fails (the
  initialisation of the lock is taken to succeed).
\<close>

definition emptyStore :: RedisStore where
  "emptyStore = \<lparr>table = replicate INITIAL_STORE_SIZE [], tableSize = INITIAL_STORE_SIZE, used = 0\<rparr>"

definition createStore :: "allocator \<Rightarrow> RedisStore option" where
  "createStore alloc =
     (if \<not> alloc 80 then None
      else if \<not> alloc (INITIAL_STORE_SIZE * 8) then None
      else Some emptyStore)"

text \<open>The walk along the chain of a key, which every operation begins with.\<close>

definition findEntry :: "RedisStore \<Rightarrow> string \<Rightarrow> StoreEntry option" where
  "findEntry st k = List.find (\<lambda>e. skey e = k) (table st ! bucket (tableSize st) k)"

fun updateChain :: "string \<Rightarrow> (StoreEntry \<Rightarrow> StoreEntry) \<Rightarrow> StoreEntry list \<Rightarrow> StoreEntry list" where
  "updateChain k f [] = []"
| "updateChain k f (e # es) = (if skey e = k then f e # es else e # updateChain k f es)"

definition updateEntry :: "RedisStore \<Rightarrow> string \<Rightarrow> (StoreEntry \<Rightarrow> StoreEntry) \<Rightarrow> RedisStore" where
  "updateEntry st k f =
     (let h = bucket (tableSize st) k
      in st\<lparr>table := (table st)[h := updateChain k f (table st ! h)]\<rparr>)"

text \<open>\<^verbatim>\<open>entry->next = table[h]; table[h] = entry\<close>.\<close>

definition insertFront :: "nat \<Rightarrow> StoreEntry list list \<Rightarrow> StoreEntry \<Rightarrow> StoreEntry list list" where
  "insertFront n tbl e = (let h = bucket n (skey e) in tbl[h := e # tbl ! h])"

definition insertEntry :: "RedisStore \<Rightarrow> StoreEntry \<Rightarrow> RedisStore" where
  "insertEntry st e = st\<lparr>table := insertFront (tableSize st) (table st) e, used := used st + 1\<rparr>"

definition resize :: "RedisStore \<Rightarrow> RedisStore" where
  "resize st =
     (let newSize = tableSize st * 2
      in st\<lparr>table := foldl (insertFront newSize) (replicate newSize []) (concat (table st)),
            tableSize := newSize\<rparr>)"

text \<open>
  The test \<^verbatim>\<open>(float) store->used / store->size > 0.75\<close>. A conversion to \<^verbatim>\<open>float\<close> keeps 24
  significant bits, rounding to the nearest and ties to even; the division is exact because
  the size of the table is a power of two.
\<close>

function float_exp :: "int \<Rightarrow> nat" where
  "float_exp n = (if n < 16777216 then 0 else Suc (float_exp (n div 2)))"
  by pat_completeness auto
termination
  by (relation "measure nat") auto

declare float_exp.simps [simp del]

definition to_float :: "int \<Rightarrow> int" where
  "to_float n =
     (let u = 2 ^ float_exp n; q = n div u; r = n mod u
      in (if u < 2 * r \<or> (u = 2 * r \<and> odd q) then q + 1 else q) * u)"

definition tooFull :: "RedisStore \<Rightarrow> bool" where
  "tooFull st = (3 * to_float (int (tableSize st)) < 4 * to_float (int (used st)))"

section \<open>Operations\<close>

text \<open>The result is the new store and whether the call returns \<^verbatim>\<open>STORE_OK\<close>.\<close>

definition storeSet :: "allocator \<Rightarrow> RedisStore \<Rightarrow> string \<Rightarrow> string \<Rightarrow> RedisStore \<times> bool" where
  "storeSet alloc st0 k v =
     (let st = (if tooFull st0 then resize st0 else st0) in
      case findEntry st k of
        Some e \<Rightarrow>
          if \<not> alloc (length v) then (updateEntry st k (\<lambda>e. e\<lparr>svalue := StringNull\<rparr>), False)
          else (updateEntry st k (\<lambda>e. e\<lparr>svalue := StringValue v\<rparr>), True)
      | None \<Rightarrow>
          if \<not> alloc 48 then (st, False)
          else if \<not> strdup_ok alloc k then (st, False)
          else if \<not> alloc (length v) then (st, False)
          else
            (insertEntry st \<lparr>skey = k, svalue = StringValue v, expiry = 0\<rparr>, True))"

definition storeGet :: "allocator \<Rightarrow> int \<Rightarrow> RedisStore \<Rightarrow> string \<Rightarrow> string option run" where
  "storeGet alloc now_ms st k =
     (case findEntry st k of
        None \<Rightarrow> Ok None
      | Some e \<Rightarrow>
          if expiry e \<noteq> 0 \<and> expiry e \<le> now_ms then Ok None
          else (case svalue e of
              StreamValue _ \<Rightarrow> Ok None
            | StringNull \<Rightarrow> Fault NullDeref
            | StringValue v \<Rightarrow> if \<not> alloc (length v) then Ok None else Ok (Some v)))"

definition getValueType :: "int \<Rightarrow> RedisStore \<Rightarrow> string \<Rightarrow> ValueType" where
  "getValueType now_s st k =
     (case findEntry st k of
        None \<Rightarrow> TYPE_NONE
      | Some e \<Rightarrow> if expiry e \<noteq> 0 \<and> expiry e < now_s then TYPE_NONE else valueType e)"

definition setExpiry :: "RedisStore \<Rightarrow> string \<Rightarrow> int \<Rightarrow> RedisStore \<times> bool" where
  "setExpiry st k t =
     (case findEntry st k of
        Some e \<Rightarrow> (updateEntry st k (\<lambda>e. e\<lparr>expiry := t\<rparr>), True)
      | None \<Rightarrow> (st, False))"

definition expired :: "int \<Rightarrow> StoreEntry \<Rightarrow> bool" where
  "expired now_s e = (expiry e \<noteq> 0 \<and> expiry e < now_s)"

definition clearExpired :: "int \<Rightarrow> RedisStore \<Rightarrow> RedisStore" where
  "clearExpired now_s st =
     st\<lparr>table := map (filter (\<lambda>e. \<not> expired now_s e)) (table st),
        used := used st - length (filter (expired now_s) (concat (table st)))\<rparr>"

text \<open>
  \<^verbatim>\<open>storeStreamAdd\<close> calls \<^verbatim>\<open>streamAdd\<close> on the union of the entry it finds, whatever its
  type is. It does not look at the load of the table.
\<close>

definition ensureStream :: "int \<Rightarrow> RedisStore \<Rightarrow> string \<Rightarrow> RedisStore" where
  "ensureStream junk st k =
     (case findEntry st k of
        Some _ \<Rightarrow> st
      | None \<Rightarrow> insertEntry st \<lparr>skey = k, svalue = StreamValue createStream, expiry = junk\<rparr>)"

definition storeStreamAdd ::
  "allocator \<Rightarrow> 64 word \<Rightarrow> int \<Rightarrow> bool \<Rightarrow> RedisStore \<Rightarrow> string \<Rightarrow> string \<Rightarrow> (string \<times> string) list
     \<Rightarrow> (RedisStore \<times> bool \<times> string option) run" where
  "storeStreamAdd alloc now junk has_new st k i fvs =
     (let st1 = ensureStream junk st k in
      case findEntry st1 k of
        None \<Rightarrow> Fault NullDeref
      | Some e \<Rightarrow>
          (case svalue e of
             StreamValue s \<Rightarrow>
               bind_run (streamAdd alloc now has_new s i fvs) (\<lambda>(s', has_new', r).
                 Ok (updateEntry st1 k (\<lambda>e. e\<lparr>svalue := StreamValue s'\<rparr>), has_new', r))
           | _ \<Rightarrow> Fault TypeConfusion))"

definition storeGetStream :: "RedisStore \<Rightarrow> string \<Rightarrow> Stream option" where
  "storeGetStream st k =
     (case findEntry st k of
        None \<Rightarrow> None
      | Some e \<Rightarrow> (case svalue e of StreamValue s \<Rightarrow> Some s | _ \<Rightarrow> None))"

text \<open>The clock of the expiry times, from the time of day in seconds and nanoseconds.\<close>

definition getCurrentTimeMs :: "int \<times> int \<Rightarrow> int" where
  "getCurrentTimeMs ts = fst ts * 1000 + snd ts div 1000000"

definition storeSize :: "RedisStore \<Rightarrow> nat" where
  "storeSize st = used st"

text \<open>Streams and store read the same milliseconds, and \<^verbatim>\<open>time\<close> the seconds of them.\<close>

lemma clocks_agree:
  assumes "0 \<le> snd ts" and "snd ts < 1000000000"
  shows "streamTimeMs ts = of_int (getCurrentTimeMs ts)" and "getCurrentTimeMs ts div 1000 = fst ts"
proof -
  have d: "snd ts div 1000 div 1000 = snd ts div 1000000" using zdiv_zmult2_eq [of 1000 "snd ts" 1000] by simp
  have "(of_int (snd ts div 1000) :: 64 word) div 1000 = of_int (snd ts div 1000 div 1000)"
    using assms by (simp add: word_div_def uint_word_of_int_eq take_bit_int_eq_self)
  then show "streamTimeMs ts = of_int (getCurrentTimeMs ts)" by (simp add: streamTimeMs_def getCurrentTimeMs_def d)
  show "getCurrentTimeMs ts div 1000 = fst ts" using assms by (simp add: getCurrentTimeMs_def)
qed

section \<open>The invariant of the table\<close>

definition placed :: "nat \<Rightarrow> StoreEntry list list \<Rightarrow> bool" where
  "placed n tbl =
     (length tbl = n \<and> (\<forall>i<n. list_all (\<lambda>e. bucket n (skey e) = i) (tbl ! i)))"

definition wf_store :: "RedisStore \<Rightarrow> bool" where
  "wf_store st =
     (0 < tableSize st \<and> placed (tableSize st) (table st) \<and>
      distinct (map skey (concat (table st))) \<and> used st = length (concat (table st)))"

lemma bucket_less [simp]: "0 < n \<Longrightarrow> bucket n k < n"
  by (simp add: bucket_def nat_less_iff)

lemma placed_mem:
  assumes "placed n tbl" and "0 < n" and "e \<in> set (concat tbl)"
  shows "e \<in> set (tbl ! bucket n (skey e))"
proof -
  from assms(3) obtain c where "c \<in> set tbl" and e: "e \<in> set c" by auto
  then obtain i where "i < length tbl" "c = tbl ! i" by (auto simp: in_set_conv_nth [of c])
  with e assms(1) show ?thesis by (auto simp: placed_def list_all_iff)
qed

lemma nth_concat_mem: "i < length tbl \<Longrightarrow> x \<in> set (tbl ! i) \<Longrightarrow> x \<in> set (concat tbl)"
  by (auto intro: bexI [OF _ nth_mem])

lemma mset_concat_update:
  "i < length xs \<Longrightarrow> mset (concat (xs[i := y])) + mset (xs ! i) = mset (concat xs) + mset y"
proof (induction xs arbitrary: i)
  case (Cons x xs)
  then show ?case by (cases i) (auto simp: ac_simps)
qed simp

lemma findEntry_Some_iff:
  assumes "wf_store st"
  shows "findEntry st k = Some e \<longleftrightarrow> e \<in> set (concat (table st)) \<and> skey e = k"
proof -
  let ?c = "table st ! bucket (tableSize st) k"
  have n: "0 < tableSize st" and p: "placed (tableSize st) (table st)"
    and d: "distinct (map skey (concat (table st)))"
    using assms by (auto simp: wf_store_def)
  have sub: "x \<in> set (concat (table st))" if "x \<in> set ?c" for x
    using that n p by (intro nth_concat_mem) (auto simp: placed_def)
  have uniq: "x = y" if "x \<in> set (concat (table st))" "y \<in> set (concat (table st))" "skey x = skey y" for x y
    using d that by (auto simp: distinct_map dest: inj_onD)
  show ?thesis
  proof
    assume "findEntry st k = Some e"
    then show "e \<in> set (concat (table st)) \<and> skey e = k"
      using sub by (auto simp: findEntry_def find_Some_iff)
  next
    assume e: "e \<in> set (concat (table st)) \<and> skey e = k"
    then have "e \<in> set ?c" using placed_mem [OF p n] by auto
    with e have "List.find (\<lambda>x. skey x = k) ?c \<noteq> None" by (auto simp: find_None_iff)
    then obtain x where x: "List.find (\<lambda>x. skey x = k) ?c = Some x" by auto
    then have "x \<in> set ?c" "skey x = k" by (auto simp: find_Some_iff)
    with uniq sub e have "x = e" by blast
    with x show "findEntry st k = Some e" by (simp add: findEntry_def)
  qed
qed

lemma findEntry_None_iff:
  "wf_store st \<Longrightarrow> findEntry st k = None \<longleftrightarrow> k \<notin> skey ` set (concat (table st))"
proof (cases "findEntry st k")
  case (Some a)
  moreover assume "wf_store st"
  ultimately show ?thesis using findEntry_Some_iff [of st k a] by auto
next
  case None
  moreover assume "wf_store st"
  ultimately show ?thesis using findEntry_Some_iff [of st k] by (auto simp del: set_concat)
qed

lemma option_eqI: "(\<And>x. a = Some x \<longleftrightarrow> b = Some x) \<Longrightarrow> a = b"
  by (cases a; cases b) auto

lemma findEntry_eqI:
  assumes "wf_store st" and "wf_store st'"
    and "set (concat (table st')) = set (concat (table st))"
  shows "findEntry st' k = findEntry st k"
  by (rule option_eqI) (simp only: findEntry_Some_iff [OF assms(1)] findEntry_Some_iff [OF assms(2)] assms(3))

subsection \<open>Inserting and resizing\<close>

lemma placed_insertFront: "placed n tbl \<Longrightarrow> 0 < n \<Longrightarrow> placed n (insertFront n tbl e)"
  by (auto simp: placed_def insertFront_def Let_def nth_list_update)

lemma mset_insertFront:
  "length tbl = n \<Longrightarrow> 0 < n \<Longrightarrow> mset (concat (insertFront n tbl e)) = add_mset e (mset (concat tbl))"
  using mset_concat_update [of "bucket n (skey e)" tbl "e # tbl ! bucket n (skey e)"]
  by (simp add: insertFront_def Let_def)

lemma foldl_insertFront:
  "placed n tbl \<Longrightarrow> 0 < n \<Longrightarrow>
   placed n (foldl (insertFront n) tbl es) \<and>
   mset (concat (foldl (insertFront n) tbl es)) = mset es + mset (concat tbl)"
proof (induction es arbitrary: tbl)
  case (Cons e es)
  have "length tbl = n" using Cons.prems(1) by (simp add: placed_def)
  with Cons.IH [OF placed_insertFront [OF Cons.prems]] Cons.prems show ?case
    by (simp add: mset_insertFront)
qed simp

lemma placed_replicate: "placed n (replicate n [])"
  by (simp add: placed_def)

lemma resize_entries: "wf_store st \<Longrightarrow> mset (concat (table (resize st))) = mset (concat (table st))"
  using foldl_insertFront [OF placed_replicate, of "tableSize st * 2" "concat (table st)"]
  by (auto simp: resize_def wf_store_def Let_def)

lemma resize_wf: "wf_store st \<Longrightarrow> wf_store (resize st)"
proof -
  assume wf: "wf_store st"
  note m = resize_entries [OF wf]
  have "distinct (map skey (concat (table (resize st))))"
    using wf m by (metis mset_eq_imp_distinct_iff mset_map wf_store_def)
  moreover have "used (resize st) = length (concat (table (resize st)))"
    using wf mset_eq_length [OF m] by (simp add: wf_store_def) (simp add: resize_def Let_def)
  ultimately show ?thesis
    using foldl_insertFront [OF placed_replicate, of "tableSize st * 2" "concat (table st)"] wf
    by (auto simp: wf_store_def resize_def Let_def)
qed

lemma findEntry_resize: "wf_store st \<Longrightarrow> findEntry (resize st) k = findEntry st k"
  using findEntry_eqI [OF _ resize_wf mset_eq_setD [OF resize_entries]] by blast

lemma insertEntry_simps [simp]:
  "used (insertEntry st e) = Suc (used st)"
  "tableSize (insertEntry st e) = tableSize st"
  "table (insertEntry st e) = insertFront (tableSize st) (table st) e"
  by (simp_all add: insertEntry_def)

lemma insertEntry_mset:
  "wf_store st \<Longrightarrow> mset (concat (table (insertEntry st e))) = add_mset e (mset (concat (table st)))"
  by (simp add: mset_insertFront placed_def wf_store_def)

lemma insertEntry_set:
  "wf_store st \<Longrightarrow> set (concat (table (insertEntry st e))) = insert e (set (concat (table st)))"
  using arg_cong [OF insertEntry_mset, of st set_mset] by (simp only: set_mset_add_mset_insert set_mset_mset)

lemma insertEntry_length:
  "wf_store st \<Longrightarrow> length (concat (table (insertEntry st e))) = Suc (length (concat (table st)))"
  using arg_cong [OF insertEntry_mset, of st size] by (simp only: size_mset size_add_mset)

lemma insertEntry_distinct:
  assumes "wf_store st" and "skey e \<notin> skey ` set (concat (table st))"
  shows "distinct (map skey (concat (table (insertEntry st e))))"
proof -
  have "mset (map skey (concat (table (insertEntry st e)))) = mset (map skey (e # concat (table st)))"
    by (simp only: mset_map insertEntry_mset [OF assms(1)] mset.simps)
  moreover have "distinct (map skey (e # concat (table st)))"
    using assms by (simp only: wf_store_def list.map distinct.simps set_map) simp
  ultimately show ?thesis using mset_eq_imp_distinct_iff by blast
qed

lemma insertEntry_wf:
  assumes "wf_store st" and "findEntry st (skey e) = None"
  shows "wf_store (insertEntry st e)"
proof -
  have "skey e \<notin> skey ` set (concat (table st))"
    using findEntry_None_iff [OF assms(1)] assms(2) by blast
  moreover have "placed (tableSize st) (insertFront (tableSize st) (table st) e)"
    using assms(1) placed_insertFront by (simp only: wf_store_def)
  moreover have "0 < tableSize st" "used st = length (concat (table st))"
    using assms(1) by (simp_all only: wf_store_def)
  ultimately show ?thesis
    using insertEntry_distinct [OF assms(1), of e] insertEntry_length [OF assms(1), of e]
    by (simp only: wf_store_def insertEntry_simps simp_thms)
qed

lemma findEntry_insertEntry:
  assumes "wf_store st" and "findEntry st (skey e) = None"
  shows "findEntry (insertEntry st e) k = (if k = skey e then Some e else findEntry st k)"
proof (rule option_eqI)
  fix x
  have fresh: "y \<notin> set (concat (table st))" if "skey y = skey e" for y
    using findEntry_None_iff [OF assms(1)] assms(2) that by (metis imageI)
  show "findEntry (insertEntry st e) k = Some x \<longleftrightarrow> (if k = skey e then Some e else findEntry st k) = Some x"
    using fresh [of x]
    by (cases "k = skey e") (auto simp: findEntry_Some_iff [OF insertEntry_wf [OF assms]]
      findEntry_Some_iff [OF assms(1)] insertEntry_set [OF assms(1)] simp del: set_concat insertEntry_simps)
qed

subsection \<open>Updating an entry in place\<close>

lemma updateChain_id: "k \<notin> skey ` set es \<Longrightarrow> updateChain k f es = es"
  by (induction es) auto

lemma updateChain_map:
  "distinct (map skey es) \<Longrightarrow> updateChain k f es = map (\<lambda>e. if skey e = k then f e else e) es"
proof (induction es)
  case (Cons e es)
  then show ?case by (auto simp: image_iff intro!: map_idI [symmetric])
qed simp

lemma map_eq_update:
  assumes "i < length xs" and "\<And>j. j < length xs \<Longrightarrow> j \<noteq> i \<Longrightarrow> g (xs ! j) = xs ! j"
  shows "map g xs = xs[i := g (xs ! i)]"
  using assms by (intro nth_equalityI) (auto simp: nth_list_update)

lemma updateEntry_map:
  assumes "wf_store st"
  shows "updateEntry st k f =
    st\<lparr>table := map (map (\<lambda>e. if skey e = k then f e else e)) (table st)\<rparr>"
proof -
  let ?g = "map (\<lambda>e. if skey e = k then f e else e)"
  let ?h = "bucket (tableSize st) k"
  have n: "0 < tableSize st" and p: "placed (tableSize st) (table st)"
    and d: "distinct (map skey (concat (table st)))"
    using assms by (auto simp: wf_store_def)
  have h: "?h < length (table st)" using n p by (simp add: placed_def)
  then have "distinct (map skey (table st ! ?h))"
    using d by (simp add: map_concat distinct_concat_iff)
  then have "updateChain k f (table st ! ?h) = ?g (table st ! ?h)" by (rule updateChain_map)
  moreover have "?g (table st ! j) = table st ! j" if "j < length (table st)" "j \<noteq> ?h" for j
    using p that by (intro map_idI) (auto simp: placed_def list_all_iff)
  ultimately show ?thesis using map_eq_update [OF h, of ?g] by (simp add: updateEntry_def Let_def)
qed

lemma updateEntry_wf:
  assumes "wf_store st" and "\<And>e. skey (f e) = skey e"
  shows "wf_store (updateEntry st k f)"
proof -
  have g: "skey (if skey e = k then f e else e) = skey e" for e by (simp add: assms(2))
  have "map skey (concat (map (map (\<lambda>e. if skey e = k then f e else e)) (table st))) = map skey (concat (table st))"
    by (simp add: map_concat o_def g)
  then show ?thesis
    using assms(1) by (auto simp: updateEntry_map wf_store_def placed_def list_all_iff assms(2) length_concat o_def)
qed

lemma findEntry_updateEntry:
  assumes "wf_store st" and "\<And>e. skey (f e) = skey e"
  shows "findEntry (updateEntry st k f) k' =
    (if k' = k then map_option f (findEntry st k) else findEntry st k')"
proof -
  have find_map: "List.find (\<lambda>e. skey e = k') (map (\<lambda>e. if skey e = k then f e else e) es) =
    (if k' = k then map_option f (List.find (\<lambda>e. skey e = k) es) else List.find (\<lambda>e. skey e = k') es)" for es
    by (induction es) (auto simp: assms(2))
  have "bucket (tableSize st) k' < length (table st)"
    using assms(1) by (simp add: wf_store_def placed_def)
  then show ?thesis
    by (simp add: updateEntry_map [OF assms(1)] findEntry_def find_map)
qed

lemmas table_facts = resize_wf findEntry_resize insertEntry_wf findEntry_insertEntry
  updateEntry_wf findEntry_updateEntry

section \<open>The table as a keyed collection\<close>

text \<open>
  What the operations of the store rely on: a collection of keyed entries that can be looked
  up, extended by an entry under a new key, adjusted in place and rehashed.
\<close>

locale keyed_table =
  fixes inv :: "'s \<Rightarrow> bool"
    and key :: "'e \<Rightarrow> 'k"
    and lookup :: "'s \<Rightarrow> 'k \<Rightarrow> 'e option"
    and add :: "'s \<Rightarrow> 'e \<Rightarrow> 's"
    and adjust :: "'s \<Rightarrow> 'k \<Rightarrow> ('e \<Rightarrow> 'e) \<Rightarrow> 's"
    and rehash :: "'s \<Rightarrow> 's"
  assumes inv_add: "inv s \<Longrightarrow> lookup s (key e) = None \<Longrightarrow> inv (add s e)"
    and lookup_add: "inv s \<Longrightarrow> lookup s (key e) = None \<Longrightarrow>
      lookup (add s e) k = (if k = key e then Some e else lookup s k)"
    and inv_adjust: "inv s \<Longrightarrow> (\<And>e. key (f e) = key e) \<Longrightarrow> inv (adjust s k f)"
    and lookup_adjust: "inv s \<Longrightarrow> (\<And>e. key (f e) = key e) \<Longrightarrow>
      lookup (adjust s k f) k' = (if k' = k then map_option f (lookup s k) else lookup s k')"
    and inv_rehash: "inv s \<Longrightarrow> inv (rehash s)"
    and lookup_rehash: "inv s \<Longrightarrow> lookup (rehash s) k = lookup s k"
    and lookup_key: "inv s \<Longrightarrow> lookup s k = Some e \<Longrightarrow> key e = k"
begin

definition upsert :: "bool \<Rightarrow> ('e \<Rightarrow> 'e) \<Rightarrow> 'e \<Rightarrow> 's \<Rightarrow> 's" where
  "upsert full f e s0 =
     (let s = (if full then rehash s0 else s0) in
      case lookup s (key e) of None \<Rightarrow> add s e | Some _ \<Rightarrow> adjust s (key e) f)"

lemma inv_upsert: "inv s \<Longrightarrow> (\<And>e. key (f e) = key e) \<Longrightarrow> inv (upsert b f e s)"
  by (auto simp: upsert_def Let_def inv_add inv_adjust inv_rehash lookup_rehash split: option.splits)

lemma lookup_upsert:
  assumes "inv s" and "\<And>e. key (f e) = key e"
  shows "lookup (upsert b f e s) k =
    (if k = key e then Some (case lookup s (key e) of None \<Rightarrow> e | Some d \<Rightarrow> f d) else lookup s k)"
  using assms
  by (auto simp: upsert_def Let_def inv_rehash lookup_rehash lookup_add lookup_adjust split: option.splits)

lemma adjust_other: "inv s \<Longrightarrow> (\<And>e. key (f e) = key e) \<Longrightarrow> k' \<noteq> k \<Longrightarrow>
    lookup (adjust s k f) k' = lookup s k'"
  by (simp add: lookup_adjust)

end

lemma findEntry_skey: "findEntry st k = Some e \<Longrightarrow> skey e = k"
  by (auto simp: findEntry_def find_Some_iff)

interpretation chained: keyed_table wf_store skey findEntry insertEntry updateEntry resize
  by unfold_locales (auto simp: table_facts intro: findEntry_skey)

section \<open>The store as a finite map\<close>

text \<open>The abstract state: for each key its value and its expiry time.\<close>

definition absStore :: "RedisStore \<Rightarrow> string \<Rightarrow> (StoreValue \<times> int) option" where
  "absStore st k = map_option (\<lambda>e. (svalue e, expiry e)) (findEntry st k)"

definition expiryOf :: "(StoreValue \<times> int) option \<Rightarrow> int" where
  "expiryOf v = (case v of None \<Rightarrow> 0 | Some (_, t) \<Rightarrow> t)"

lemma absStore_updateEntry:
  "wf_store st \<Longrightarrow> (\<And>e. skey (f e) = skey e) \<Longrightarrow> findEntry st k = Some e \<Longrightarrow>
   absStore (updateEntry st k f) = (absStore st)(k \<mapsto> (svalue (f e), expiry (f e)))"
  by (auto simp: absStore_def findEntry_updateEntry)

lemma absStore_insertEntry:
  "wf_store st \<Longrightarrow> findEntry st (skey e) = None \<Longrightarrow>
   absStore (insertEntry st e) = (absStore st)(skey e \<mapsto> (svalue e, expiry e))"
  by (auto simp: absStore_def findEntry_insertEntry)

lemma absStore_resize: "wf_store st \<Longrightarrow> absStore (resize st) = absStore st"
  by (auto simp: absStore_def findEntry_resize)

lemma emptyStore_wf: "wf_store emptyStore"
  by (simp add: emptyStore_def wf_store_def INITIAL_STORE_SIZE_def placed_replicate)

lemma findEntry_emptyStore: "findEntry emptyStore k = None"
  by (simp add: findEntry_def emptyStore_def INITIAL_STORE_SIZE_def)

lemma storeSet_upsert:
  "alloc (length v) \<Longrightarrow> alloc 48 \<Longrightarrow> strdup_ok alloc k \<Longrightarrow>
   storeSet alloc st k v =
     (chained.upsert (tooFull st) (\<lambda>e. e\<lparr>svalue := StringValue v\<rparr>)
        \<lparr>skey = k, svalue = StringValue v, expiry = 0\<rparr> st, True)"
  by (auto simp: storeSet_def chained.upsert_def Let_def split: option.splits)

lemma storeSet_keeps_wf: "wf_store st \<Longrightarrow> wf_store (fst (storeSet alloc st k v))"
  by (auto simp: storeSet_def Let_def table_facts split: option.splits)

lemma setExpiry_keeps_wf: "wf_store st \<Longrightarrow> wf_store (fst (setExpiry st k t))"
  by (auto simp: setExpiry_def table_facts split: option.splits)

subsection \<open>Removing expired entries\<close>

lemma concat_clearExpired:
  "concat (table (clearExpired t st)) = filter (\<lambda>e. \<not> expired t e) (concat (table st))"
  by (simp add: clearExpired_def filter_concat)

lemma clearExpired_keeps_wf: "wf_store st \<Longrightarrow> wf_store (clearExpired t st)"
proof -
  assume wf: "wf_store st"
  have "used (clearExpired t st) = length (concat (table (clearExpired t st)))"
    using wf sum_length_filter_compl [of "expired t" "concat (table st)"]
    by (simp only: concat_clearExpired wf_store_def) (simp add: clearExpired_def)
  moreover have "distinct (map skey (concat (table (clearExpired t st))))"
    using wf by (simp only: concat_clearExpired wf_store_def distinct_map_filter)
  ultimately show ?thesis
    using wf by (auto simp: wf_store_def placed_def list_all_iff clearExpired_def)
qed

lemma findEntry_clearExpired:
  assumes "wf_store st"
  shows "findEntry (clearExpired t st) k =
    (case findEntry st k of None \<Rightarrow> None | Some e \<Rightarrow> if expired t e then None else Some e)"
proof (rule option_eqI)
  fix x
  show "findEntry (clearExpired t st) k = Some x \<longleftrightarrow>
    (case findEntry st k of None \<Rightarrow> None | Some e \<Rightarrow> if expired t e then None else Some e) = Some x"
    unfolding findEntry_Some_iff [OF clearExpired_keeps_wf [OF assms]] concat_clearExpired
    using findEntry_Some_iff [OF assms, of k x]
    by (auto simp del: set_concat split: option.splits if_splits)
qed

subsection \<open>Streams in the store\<close>

text \<open>The stream that \<^verbatim>\<open>storeStreamAdd\<close> appends to, and the store it appends in.\<close>

definition streamTarget :: "RedisStore \<Rightarrow> string \<Rightarrow> Stream" where
  "streamTarget st k = (case storeGetStream st k of None \<Rightarrow> createStream | Some s \<Rightarrow> s)"

definition wf_values :: "RedisStore \<Rightarrow> bool" where
  "wf_values st =
     list_all (\<lambda>e. case svalue e of StreamValue s \<Rightarrow> wf_stream s | _ \<Rightarrow> True) (concat (table st))"

lemma wf_values_iff:
  assumes "wf_store st"
  shows "wf_values st \<longleftrightarrow> (\<forall>k s. storeGetStream st k = Some s \<longrightarrow> wf_stream s)"
proof
  assume "wf_values st"
  then show "\<forall>k s. storeGetStream st k = Some s \<longrightarrow> wf_stream s"
    using findEntry_Some_iff [OF assms]
    by (fastforce simp: wf_values_def list_all_iff storeGetStream_def simp del: set_concat
        split: option.splits StoreValue.splits)
next
  assume s: "\<forall>k s. storeGetStream st k = Some s \<longrightarrow> wf_stream s"
  have "wf_stream s" if "e \<in> set (concat (table st))" "svalue e = StreamValue s" for e s
    using s [rule_format, of "skey e" s] findEntry_Some_iff [OF assms, of "skey e" e] that
    by (auto simp: storeGetStream_def)
  then show "wf_values st"
    by (auto simp: wf_values_def list_all_iff split: StoreValue.splits simp del: set_concat)
qed

lemma wf_createStream: "wf_stream createStream"
  by (simp add: createStream_def wf_stream_def wf_entries_def)

lemma storeGetStream_findEntry: "storeGetStream st k = Some s \<Longrightarrow> \<exists>e. findEntry st k = Some e \<and> svalue e = StreamValue s"
  by (auto simp: storeGetStream_def split: option.splits StoreValue.splits)

lemma ensureStream_wf: "wf_store st \<Longrightarrow> wf_store (ensureStream junk st k)"
  by (auto simp: ensureStream_def insertEntry_wf split: option.splits)

lemma absStore_ensureStream:
  "wf_store st \<Longrightarrow> absStore (ensureStream junk st k) =
    (absStore st)(k := case absStore st k of None \<Rightarrow> Some (StreamValue createStream, junk) | Some v \<Rightarrow> Some v)"
  by (auto simp: ensureStream_def absStore_insertEntry fun_eq_iff split: option.splits)
    (auto simp: absStore_def)

lemma findEntry_ensureStream:
  "wf_store st \<Longrightarrow> findEntry (ensureStream junk st k) k = Some
     (case findEntry st k of
        None \<Rightarrow> \<lparr>skey = k, svalue = StreamValue createStream, expiry = junk\<rparr>
      | Some e \<Rightarrow> e)"
  by (auto simp: ensureStream_def findEntry_insertEntry split: option.splits)

lemma storeStreamAdd_eq:
  assumes "wf_store st" and "findEntry st k = None \<or> storeGetStream st k \<noteq> None"
  shows "storeStreamAdd alloc now junk has_new st k i fvs =
      bind_run (streamAdd alloc now has_new (streamTarget st k) i fvs) (\<lambda>(s', has_new', r).
        Ok (updateEntry (ensureStream junk st k) k (\<lambda>e. e\<lparr>svalue := StreamValue s'\<rparr>), has_new', r))"
  using assms
  by (auto simp: storeStreamAdd_def findEntry_ensureStream streamTarget_def storeGetStream_def Let_def
      split: option.splits StoreValue.splits)

lemma storeStreamAdd_not_stream:
  "wf_store st \<Longrightarrow> findEntry st k = Some e \<Longrightarrow> storeGetStream st k = None \<Longrightarrow>
   storeStreamAdd alloc now junk has_new st k i fvs = Fault TypeConfusion"
  by (auto simp: storeStreamAdd_def findEntry_ensureStream storeGetStream_def Let_def split: StoreValue.splits)

lemma storeStreamAdd_OkE:
  assumes "wf_store st" and "storeStreamAdd alloc now junk has_new st k i fvs = Ok (st', has_new', r)"
  obtains s' where "streamAdd alloc now has_new (streamTarget st k) i fvs = Ok (s', has_new', r)"
    and "st' = updateEntry (ensureStream junk st k) k (\<lambda>e. e\<lparr>svalue := StreamValue s'\<rparr>)"
proof -
  have "findEntry st k = None \<or> storeGetStream st k \<noteq> None"
    using assms storeStreamAdd_not_stream by (cases "findEntry st k") fastforce+
  from assms(2) [unfolded storeStreamAdd_eq [OF assms(1) this]] that show ?thesis
    by (auto simp: bind_run_Ok_iff)
qed

lemma storeStreamAdd_keeps_wf:
  assumes "wf_store st" and "storeStreamAdd alloc now junk has_new st k i fvs = Ok (st', has_new', r)"
  shows "wf_store st'"
proof -
  from assms obtain s' where "st' = updateEntry (ensureStream junk st k) k (\<lambda>e. e\<lparr>svalue := StreamValue s'\<rparr>)"
    by (rule storeStreamAdd_OkE)
  with assms(1) show ?thesis by (simp add: updateEntry_wf ensureStream_wf)
qed

lemma absStore_storeStreamAdd:
  assumes "wf_store st" and "storeStreamAdd alloc now junk has_new st k i fvs = Ok (st', has_new', r)"
  obtains s' where "streamAdd alloc now has_new (streamTarget st k) i fvs = Ok (s', has_new', r)"
    and "absStore st' = (absStore st)(k \<mapsto> (StreamValue s',
      case absStore st k of None \<Rightarrow> junk | Some v \<Rightarrow> snd v))"
proof -
  from assms obtain s' where s': "streamAdd alloc now has_new (streamTarget st k) i fvs = Ok (s', has_new', r)"
    and st': "st' = updateEntry (ensureStream junk st k) k (\<lambda>e. e\<lparr>svalue := StreamValue s'\<rparr>)"
    by (rule storeStreamAdd_OkE)
  have "absStore st' = (absStore st)(k \<mapsto> (StreamValue s', case absStore st k of None \<Rightarrow> junk | Some v \<Rightarrow> snd v))"
    unfolding st' using absStore_updateEntry [OF ensureStream_wf [OF assms(1)] _ findEntry_ensureStream [OF assms(1)]]
    by (auto simp: absStore_ensureStream [OF assms(1)] fun_eq_iff absStore_def split: option.splits)
  with s' that show ?thesis by blast
qed

section \<open>Reading what was written\<close>

text \<open>
  The contract between the writers and the readers of strings: a key keeps its liveness when
  it is written, and a read returns the last value written under a live key.
\<close>

locale read_write =
  fixes inv :: "'s \<Rightarrow> bool"
    and live :: "'s \<Rightarrow> 'k \<Rightarrow> bool"
    and get :: "'s \<Rightarrow> 'k \<Rightarrow> 'v option run"
    and put :: "'s \<Rightarrow> 'k \<Rightarrow> 'v \<Rightarrow> 's"
  assumes inv_put: "inv s \<Longrightarrow> inv (put s k v)"
    and live_put: "inv s \<Longrightarrow> live (put s k v) k' = live s k'"
    and get_put: "inv s \<Longrightarrow> get (put s k v) k' =
      (if k' = k then Ok (if live s k then Some v else None) else get s k')"
begin

definition puts :: "'s \<Rightarrow> ('k \<times> 'v) list \<Rightarrow> 's" where
  "puts = foldl (\<lambda>s (k, v). put s k v)"

lemma puts_Nil [simp]: "puts s [] = s"
  by (simp add: puts_def)

lemma puts_snoc [simp]: "puts s (kvs @ [(k, v)]) = put (puts s kvs) k v"
  by (simp add: puts_def)

lemma puts_keeps: "inv s \<Longrightarrow> inv (puts s kvs) \<and> live (puts s kvs) k = live s k"
  by (induction kvs rule: rev_induct) (auto simp: inv_put live_put)

lemma get_puts:
  "inv s \<Longrightarrow> get (puts s kvs) k =
    (case map_of (rev kvs) k of
       None \<Rightarrow> get s k
     | Some v \<Rightarrow> Ok (if live s k then Some v else None))"
proof (induction kvs rule: rev_induct)
  case (snoc kv kvs)
  then show ?case by (cases kv) (auto simp: get_put puts_keeps)
qed simp

end

definition liveKey :: "int \<Rightarrow> RedisStore \<Rightarrow> string \<Rightarrow> bool" where
  "liveKey now st k =
     (case findEntry st k of None \<Rightarrow> True | Some e \<Rightarrow> \<not> (expiry e \<noteq> 0 \<and> expiry e \<le> now))"

definition setAlways :: "RedisStore \<Rightarrow> string \<Rightarrow> string \<Rightarrow> RedisStore" where
  "setAlways st k v = fst (storeSet always st k v)"

lemma strdup_always [simp]: "strdup_ok always k"
  by (simp add: strdup_ok_def)

lemma findEntry_storeSet:
  "wf_store st \<Longrightarrow> findEntry (setAlways st k v) k' =
     (if k' = k then Some (case findEntry st k of
        None \<Rightarrow> \<lparr>skey = k, svalue = StringValue v, expiry = 0\<rparr>
      | Some e \<Rightarrow> e\<lparr>svalue := StringValue v\<rparr>)
      else findEntry st k')"
  using chained.lookup_upsert [of st "\<lambda>e. e\<lparr>svalue := StringValue v\<rparr>" "tooFull st"
      "\<lparr>skey = k, svalue = StringValue v, expiry = 0\<rparr>" k']
  by (simp add: setAlways_def storeSet_upsert)

interpretation strings: read_write wf_store "liveKey now" "storeGet always now" setAlways for now
proof
  fix st k k' v
  assume wf: "wf_store st"
  show "wf_store (setAlways st k v)"
    unfolding setAlways_def by (rule storeSet_keeps_wf [OF wf])
  show "liveKey now (setAlways st k v) k' = liveKey now st k'"
    by (auto simp: liveKey_def findEntry_storeSet [OF wf] split: option.splits)
  show "storeGet always now (setAlways st k v) k' =
      (if k' = k then Ok (if liveKey now st k then Some v else None) else storeGet always now st k')"
    by (auto simp: storeGet_def liveKey_def findEntry_storeSet [OF wf] split: option.splits)
qed

text \<open>
  C4. The store as a string map: after any sequence of \<^verbatim>\<open>storeSet\<close> calls that get their
  memory, whatever the collisions and resizes on the way, \<^verbatim>\<open>storeGet\<close> returns the last value
  set under the key, and what it returned before for every key that was not set. The exception
  is a key that was expired when it was set: \<^verbatim>\<open>storeSet\<close> leaves its expiry time, and the
  value written stays invisible.
\<close>

theorem storeGet_last_write:
  assumes "wf_store st"
  shows "storeGet always now (foldl (\<lambda>s (k, v). fst (storeSet always s k v)) st kvs) k =
    (case map_of (rev kvs) k of
       None \<Rightarrow> storeGet always now st k
     | Some v \<Rightarrow> Ok (if liveKey now st k then Some v else None))"
  using strings.get_puts [OF assms, of now kvs k] by (simp add: strings.puts_def setAlways_def)

definition example_store :: RedisStore where
  "example_store = foldl (\<lambda>s k. fst (storeSet always s k k)) emptyStore
     [''a'', ''b'', ''c'', ''d'', ''e'', ''f'', ''g'', ''h'', ''i'', ''j'', ''k'', ''l'', ''m'']"

lemma example_store_wf: "wf_store example_store"
  by code_simp

theorem storeGet_last_write_witness:
  "storeGet always 7 (foldl (\<lambda>s (k, v). fst (storeSet always s k v)) example_store
      [(''a'', ''1''), (''z'', ''2''), (''a'', ''3'')]) ''a'' = Ok (Some ''3'') \<and>
   tableSize example_store = 16 \<and>
   tableSize (fst (storeSet always example_store ''z'' ''2'')) = 32"
proof -
  have "storeGet always 7 (foldl (\<lambda>s (k, v). fst (storeSet always s k v)) example_store
      [(''a'', ''1''), (''z'', ''2''), (''a'', ''3'')]) ''a'' =
    Ok (if liveKey 7 example_store ''a'' then Some ''3'' else None)"
    using storeGet_last_write [OF example_store_wf, of 7 "[(''a'', ''1''), (''z'', ''2''), (''a'', ''3'')]" "''a''"]
    by simp
  moreover have "liveKey 7 example_store ''a''" "tableSize example_store = 16"
    "tableSize (fst (storeSet always example_store ''z'' ''2'')) = 32" by code_simp+
  ultimately show ?thesis by simp
qed

section \<open>Each operation against the finite map\<close>

lemma storeSet_map:
  assumes "wf_store st" and "storeSet alloc st k v = (st', ok)"
  shows "wf_store st' \<and>
    absStore st' =
      (if ok then (absStore st)(k \<mapsto> (StringValue v, expiryOf (absStore st k)))
       else if absStore st k = None then absStore st
       else (absStore st)(k \<mapsto> (StringNull, expiryOf (absStore st k))))"
proof -
  let ?st = "if tooFull st then resize st else st"
  have wf: "wf_store ?st" and same: "findEntry ?st = findEntry st" "absStore ?st = absStore st"
    using assms(1) by (auto simp: resize_wf findEntry_resize absStore_resize)
  have "wf_store st'" using storeSet_keeps_wf [OF assms(1), of alloc k v] assms(2) by simp
  moreover have "absStore st k = map_option (\<lambda>e. (svalue e, expiry e)) (findEntry st k)"
    by (simp add: absStore_def)
  ultimately show ?thesis
    using assms(2) absStore_updateEntry [OF wf] absStore_insertEntry [OF wf]
    by (auto simp: storeSet_def Let_def same expiryOf_def absStore_resize [OF assms(1)]
      split: option.splits if_splits)
qed

text \<open>
  C20. \<^verbatim>\<open>storeSet\<close> under any allocator refines a map update. When it reports success, the
  key maps to the new string with the expiry time it had (none for a new key) and no other key
  changes. When it reports failure, the map is unchanged, except that a key which was present
  is left with a NULL value. The table stays well-formed in every case.
\<close>

theorem storeSet_refines:
  assumes "wf_store st" and "storeSet alloc st k v = (st', ok)"
  shows "wf_store st' \<and>
    absStore st' =
      (if ok then (absStore st)(k \<mapsto> (StringValue v, expiryOf (absStore st k)))
       else if absStore st k = None then absStore st
       else (absStore st)(k \<mapsto> (StringNull, expiryOf (absStore st k))))"
  by (rule storeSet_map [OF assms])

theorem storeSet_refines_witness:
  "let (st', ok) = storeSet (\<lambda>n. n \<noteq> 5) example_store ''a'' ''hello'' in
     \<not> ok \<and> absStore st' ''a'' = Some (StringNull, 0) \<and> absStore st' ''b'' = Some (StringValue ''b'', 0)"
proof -
  let ?r = "storeSet (\<lambda>n. n \<noteq> 5) example_store ''a'' ''hello''"
  have ok: "\<not> snd ?r" and a: "absStore example_store ''a'' = Some (StringValue ''a'', 0)"
    and b: "absStore example_store ''b'' = Some (StringValue ''b'', 0)" by code_simp+
  show ?thesis
    using storeSet_refines [OF example_store_wf prod.collapse [symmetric],
        of "\<lambda>n. n \<noteq> 5" "''a''" "''hello''"] ok a b
    by (simp add: expiryOf_def split_beta)
qed

text \<open>
  \<^verbatim>\<open>clearExpired\<close> removes exactly the entries whose expiry time is set and lies before
  the clock it reads, keeps every other entry, and leaves the counter \<^verbatim>\<open>used\<close> equal to the
  number of entries that remain.
\<close>

theorem clearExpired_exact:
  assumes "wf_store st"
  shows "wf_store (clearExpired now_s st) \<and>
    absStore (clearExpired now_s st) k =
      (case absStore st k of
         None \<Rightarrow> None
       | Some (v, t) \<Rightarrow> if t \<noteq> 0 \<and> t < now_s then None else Some (v, t)) \<and>
    storeSize (clearExpired now_s st) =
      length (filter (\<lambda>e. expiry e = 0 \<or> now_s \<le> expiry e) (concat (table st)))"
proof -
  have "used (clearExpired now_s st) = length (concat (table (clearExpired now_s st)))"
    using clearExpired_keeps_wf [OF assms] by (simp only: wf_store_def)
  also have "\<dots> = length (filter (\<lambda>e. expiry e = 0 \<or> now_s \<le> expiry e) (concat (table st)))"
    unfolding concat_clearExpired by (simp add: expired_def not_less)
  finally show ?thesis
    using clearExpired_keeps_wf [OF assms, of now_s]
    by (auto simp: absStore_def findEntry_clearExpired [OF assms] storeSize_def expired_def split: option.splits)
qed

theorem clearExpired_exact_witness:
  "storeSize (clearExpired 100 (fst (setExpiry example_store ''c'' 99))) = 12"
proof -
  let ?st = "fst (setExpiry example_store ''c'' 99)"
  have wf: "wf_store ?st" by (rule setExpiry_keeps_wf [OF example_store_wf])
  have "length (filter (\<lambda>e. expiry e = 0 \<or> 100 \<le> expiry e) (concat (table ?st))) = 12" by code_simp
  with clearExpired_exact [OF wf, of 100] show ?thesis by simp
qed

text \<open>
  Expiry: a string set to expire at a non-zero time \<open>t\<close> is returned by \<^verbatim>\<open>storeGet\<close> at
  every millisecond before \<open>t\<close> and by none from \<open>t\<close> on, and no other key is affected; setting
  the expiry of an absent key changes nothing and reports an error.
\<close>

theorem setExpiry_window:
  assumes "wf_store st" and "t \<noteq> 0" and "absStore st k = Some (StringValue v, t0)"
  shows "snd (setExpiry st k t) \<and>
    storeGet always now (fst (setExpiry st k t)) k = Ok (if now < t then Some v else None) \<and>
    (k' \<noteq> k \<longrightarrow> storeGet always now (fst (setExpiry st k t)) k' = storeGet always now st k') \<and>
    (absStore st k' = None \<longrightarrow> setExpiry st k' t = (st, False))"
  using assms
  by (auto simp: setExpiry_def storeGet_def absStore_def findEntry_updateEntry split: option.splits)

theorem setExpiry_window_witness:
  "storeGet always 1499 (fst (setExpiry example_store ''c'' 1500)) ''c'' = Ok (Some ''c'') \<and>
   storeGet always 1500 (fst (setExpiry example_store ''c'' 1500)) ''c'' = Ok None"
proof -
  have c: "absStore example_store ''c'' = Some (StringValue ''c'', 0)" by code_simp
  show ?thesis
    using setExpiry_window [OF example_store_wf _ c, of 1500 1499 "''d''"]
      setExpiry_window [OF example_store_wf _ c, of 1500 1500 "''d''"] by simp
qed

lemma wf_streamTarget: "wf_store st \<Longrightarrow> wf_values st \<Longrightarrow> wf_stream (streamTarget st k)"
  by (auto simp: streamTarget_def wf_values_iff wf_createStream split: option.splits)

lemma storeStreamAdd_returns:
  assumes "wf_store st" and "wf_values st" and "findEntry st k = None \<or> storeGetStream st k \<noteq> None"
  shows "\<exists>st' has_new' r. storeStreamAdd alloc now junk has_new st k i fvs = Ok (st', has_new', r)"
proof -
  obtain q where "resolveID now (streamTarget st k) i = Ok q"
    using resolveID_wf [OF wf_streamTarget [OF assms(1,2)]] by blast
  then show ?thesis
    by (auto simp: storeStreamAdd_eq [OF assms(1,3)] streamAdd_def Let_def split: option.splits)
qed

lemma storeStreamAdd_keeps_values:
  assumes "wf_store st" and "wf_values st"
    and "storeStreamAdd alloc now junk has_new st k i fvs = Ok (st', has_new', r)"
    and fits: "\<And>p. resolveID now (streamTarget st k) i = Ok (Some p) \<Longrightarrow> length (formatID p) \<le> 31"
  shows "wf_values st'"
proof -
  obtain s' where s': "streamAdd alloc now has_new (streamTarget st k) i fvs = Ok (s', has_new', r)"
    and a: "absStore st' = (absStore st)(k \<mapsto> (StreamValue s',
      case absStore st k of None \<Rightarrow> junk | Some v \<Rightarrow> snd v))"
    using assms(1,3) by (rule absStore_storeStreamAdd)
  have "wf_stream s'" by (rule streamAdd_keeps_wf [OF wf_streamTarget [OF assms(1,2)] s' fits])
  moreover have str: "storeGetStream t k' = Some s \<longleftrightarrow> (\<exists>x. absStore t k' = Some (StreamValue s, x))" for t k' s
    by (auto simp: storeGetStream_def absStore_def split: option.splits StoreValue.splits)
  ultimately show ?thesis
    using assms(2) unfolding wf_values_iff [OF assms(1)] wf_values_iff [OF storeStreamAdd_keeps_wf [OF assms(1,3)]] str a
    by (auto split: if_splits)
qed

text \<open>
  C21. \<^verbatim>\<open>storeStreamAdd\<close> refines the append of the stream component: on an absent key it
  starts from an empty stream, on a stream from the stream itself; it always returns; the key
  then maps to the result of \<^verbatim>\<open>streamAdd\<close>, with the expiry it had, and no other key changes.
  The expiry of a new entry is the content of fresh memory (\<open>junk\<close>).
\<close>

theorem storeStreamAdd_refines:
  assumes "wf_store st" and "wf_values st" and "findEntry st k = None \<or> storeGetStream st k \<noteq> None"
  shows "\<exists>st' s' has_new' r.
    storeStreamAdd alloc now junk has_new st k i fvs = Ok (st', has_new', r) \<and>
    streamAdd alloc now has_new (streamTarget st k) i fvs = Ok (s', has_new', r) \<and>
    wf_store st' \<and>
    absStore st' = (absStore st)(k \<mapsto> (StreamValue s',
      case absStore st k of None \<Rightarrow> junk | Some v \<Rightarrow> snd v))"
proof -
  obtain st' has_new' r where ok: "storeStreamAdd alloc now junk has_new st k i fvs = Ok (st', has_new', r)"
    using storeStreamAdd_returns [OF assms] by blast
  show ?thesis
    using absStore_storeStreamAdd [OF assms(1) ok] storeStreamAdd_keeps_wf [OF assms(1) ok] ok by metis
qed

theorem storeStreamAdd_refines_witness:
  "\<exists>st' has_new' r. storeStreamAdd always 5 0 False example_store ''s'' ''*'' [(''f'', ''v'')] = Ok (st', has_new', r)
     \<and> absStore st' ''s'' = Some (StreamValue \<lparr>entries = [\<lparr>entryId = ''5-0'', fieldValues = [(''f'', ''v'')]\<rparr>]\<rparr>, 0)"
proof -
  have v: "wf_values example_store" and f: "findEntry example_store ''s'' = None"
    and t: "streamAdd always 5 False (streamTarget example_store ''s'') ''*'' [(''f'', ''v'')] =
      Ok (\<lparr>entries = [\<lparr>entryId = ''5-0'', fieldValues = [(''f'', ''v'')]\<rparr>]\<rparr>, True, Some ''5-0'')"
    by code_simp+
  from f have "absStore example_store ''s'' = None" by (simp add: absStore_def)
  with storeStreamAdd_refines [OF example_store_wf v disjI1 [OF f], of always 5 0 False "''*''" "[(''f'', ''v'')]"] t
  show ?thesis by auto
qed

text \<open>
  \<^verbatim>\<open>storeStreamAdd\<close> on a key that holds a string reads the string member of the union as
  a stream pointer: the entry's type is not checked.
\<close>

theorem storeStreamAdd_type_confusion:
  assumes "wf_store st" and "absStore st k = Some (StringValue v, t)"
  shows "storeStreamAdd alloc now junk has_new st k i fvs = Fault TypeConfusion"
proof -
  from assms(2) obtain e where "findEntry st k = Some e" "storeGetStream st k = None"
    by (auto simp: absStore_def storeGetStream_def)
  then show ?thesis by (rule storeStreamAdd_not_stream [OF assms(1)])
qed

theorem storeStreamAdd_type_confusion_witness:
  "storeStreamAdd always 5 0 False example_store ''a'' ''*'' [] = Fault TypeConfusion"
proof (rule storeStreamAdd_type_confusion [OF example_store_wf])
  show "absStore example_store ''a'' = Some (StringValue ''a'', 0)" by code_simp
qed

text \<open>
  \<^verbatim>\<open>getValueType\<close> compares the expiry time, which is in milliseconds, with a clock in
  seconds: for a string whose expiry time is a real one (not before \<open>now\<close> in seconds) it answers
  \<^verbatim>\<open>string\<close> however long ago the key expired, when \<^verbatim>\<open>storeGet\<close> already answers nothing.
\<close>

theorem getValueType_ignores_expiry:
  assumes "absStore st k = Some (StringValue v, t)" and "t \<noteq> 0" and "t \<le> now" and "now div 1000 \<le> t"
  shows "storeGet alloc now st k = Ok None \<and> getValueType (now div 1000) st k = TYPE_STRING"
  using assms by (auto simp: absStore_def storeGet_def getValueType_def valueType_def split: option.splits)

theorem getValueType_ignores_expiry_witness:
  "storeGet always 1700000000000 (fst (setExpiry example_store ''a'' 1690000000000)) ''a'' = Ok None \<and>
   getValueType (1700000000000 div 1000) (fst (setExpiry example_store ''a'' 1690000000000)) ''a'' = TYPE_STRING"
proof (rule getValueType_ignores_expiry)
  show "absStore (fst (setExpiry example_store ''a'' 1690000000000)) ''a'' = Some (StringValue ''a'', 1690000000000)"
    by code_simp
qed simp_all

section \<open>Every reachable store is well-formed\<close>

text \<open>
  A step of the store is any call of one of its writers, with any arguments, any clock, any
  behaviour of the allocator and any content of fresh memory. An append to a stream is a step
  when it returns and the identifier it chooses can be printed in 31 characters.
\<close>

inductive store_step :: "RedisStore \<Rightarrow> RedisStore \<Rightarrow> bool" where
  set_step: "store_step st (fst (storeSet alloc st k v))"
| expiry_step: "store_step st (fst (setExpiry st k t))"
| clear_step: "store_step st (clearExpired now st)"
| add_step: "storeStreamAdd alloc now junk has_new st k i fvs = Ok (st', has_new', r) \<Longrightarrow>
    (\<And>p. resolveID now (streamTarget st k) i = Ok (Some p) \<Longrightarrow> length (formatID p) \<le> 31) \<Longrightarrow>
    store_step st st'"

lemma absStore_values:
  "wf_store st \<Longrightarrow> wf_values st \<longleftrightarrow> (\<forall>k s t. absStore st k = Some (StreamValue s, t) \<longrightarrow> wf_stream s)"
  unfolding wf_values_iff by (fastforce simp: storeGetStream_def absStore_def split: option.splits StoreValue.splits)

lemma set_keeps_values: "wf_store st \<Longrightarrow> wf_values st \<Longrightarrow> wf_values (fst (storeSet alloc st k v))"
  using storeSet_map [OF _ prod.collapse [symmetric], of st alloc k v]
  by (auto simp: absStore_values split: if_splits)

lemma expiry_keeps_values:
  assumes "wf_store st" and "wf_values st"
  shows "wf_values (fst (setExpiry st k t))"
proof (cases "findEntry st k")
  case (Some e)
  then have "absStore (fst (setExpiry st k t)) = (absStore st)(k \<mapsto> (svalue e, t))"
    using absStore_updateEntry [OF assms(1), of "\<lambda>e. e\<lparr>expiry := t\<rparr>" k e] by (simp add: setExpiry_def)
  moreover have "absStore st k = Some (svalue e, expiry e)" using Some by (simp add: absStore_def)
  ultimately show ?thesis
    using assms(2) setExpiry_keeps_wf [OF assms(1), of k t] unfolding absStore_values [OF assms(1)]
    by (auto simp: absStore_values) metis
qed (use assms in \<open>simp add: setExpiry_def\<close>)

lemma clear_keeps_values: "wf_values st \<Longrightarrow> wf_values (clearExpired now st)"
  unfolding wf_values_def concat_clearExpired by (auto simp: list_all_iff simp del: set_concat)

lemma store_step_wf:
  "store_step st st' \<Longrightarrow> wf_store st \<Longrightarrow> wf_values st \<Longrightarrow> wf_store st' \<and> wf_values st'"
proof (induction rule: store_step.induct)
  case (add_step alloc now junk has_new st k i fvs st' has_new' r)
  show ?case
    using storeStreamAdd_keeps_wf [OF add_step(3,1)] storeStreamAdd_keeps_values [OF add_step(3,4,1,2)] ..
qed (simp_all add: storeSet_keeps_wf set_keeps_values setExpiry_keeps_wf expiry_keeps_values
      clearExpired_keeps_wf clear_keeps_values)

lemma store_steps_wf: "store_step\<^sup>*\<^sup>* emptyStore st \<Longrightarrow> wf_store st \<and> wf_values st"
proof (induction rule: rtranclp_induct)
  case base
  show ?case
    using emptyStore_wf by (simp add: wf_values_def emptyStore_def INITIAL_STORE_SIZE_def)
next
  case (step st st')
  then show ?case using store_step_wf by blast
qed

lemma dom_absStore: "wf_store st \<Longrightarrow> dom (absStore st) = skey ` set (concat (table st))"
  using findEntry_None_iff [of st] by (auto simp: absStore_def dom_def simp del: set_concat)

lemma storeSize_card: "wf_store st \<Longrightarrow> storeSize st = card (dom (absStore st))"
proof -
  assume wf: "wf_store st"
  then have "card (set (map skey (concat (table st)))) = length (map skey (concat (table st)))"
    unfolding wf_store_def by (intro distinct_card) blast
  with wf show ?thesis
    unfolding dom_absStore [OF wf] by (simp only: set_map length_map storeSize_def wf_store_def)
qed



section \<open>Load of the table\<close>

lemma to_float_exact: "n < 16777216 \<Longrightarrow> to_float n = n"
  by (simp add: to_float_def float_exp.simps)

lemma storeSet_load:
  assumes "4 * used st \<le> 6 * tableSize st" and "tableSize st \<le> 2 ^ 22"
  shows "4 * used (fst (storeSet alloc st k v)) \<le> 3 * tableSize (fst (storeSet alloc st k v)) + 4"
proof -
  have f: "to_float (int (tableSize st)) = int (tableSize st)" "to_float (int (used st)) = int (used st)"
    using assms by (auto intro!: to_float_exact)
  then have t: "tooFull st \<longleftrightarrow> 3 * tableSize st < 4 * used st" by (simp add: tooFull_def) presburger
  have [simp]: "used (resize st) = used st" "tableSize (resize st) = 2 * tableSize st"
    by (simp_all add: resize_def Let_def)
  have [simp]: "used (updateEntry s k f) = used s" "tableSize (updateEntry s k f) = tableSize s" for s f
    by (simp_all add: updateEntry_def Let_def)
  show ?thesis
    using assms(1) t by (auto simp: storeSet_def Let_def split: option.splits)
qed

text \<open>
  The load of the table: in a table of at most \<open>2^22\<close> chains that is at most one and a
  half times full, a \<^verbatim>\<open>storeSet\<close>, which doubles the table before it inserts, leaves at most
  three entries for four chains, plus the one it inserted; so the mean chain stays short.
\<close>

theorem storeSet_load_factor:
  assumes "4 * used st \<le> 6 * tableSize st" and "tableSize st \<le> 2 ^ 22"
  shows "4 * used (fst (storeSet alloc st k v)) \<le> 3 * tableSize (fst (storeSet alloc st k v)) + 4"
  by (rule storeSet_load [OF assms])

theorem storeSet_load_factor_witness:
  "4 * used (fst (storeSet always example_store ''z'' ''2'')) \<le> 3 * tableSize (fst (storeSet always example_store ''z'' ''2'')) + 4"
proof (rule storeSet_load_factor)
  show "4 * used example_store \<le> 6 * tableSize example_store" by code_simp
  have "tableSize example_store = 16" by code_simp
  then show "tableSize example_store \<le> 2 ^ 22" by simp
qed

end
