(* ===== verification/Config.thy ===== *)
theory Config
  imports CPrelude
begin

text \<open>
  The command line, \<^verbatim>\<open>src/app/config.c\<close>. The arguments are the list of the C strings of
  \<^verbatim>\<open>argv\<close>, the program name first. The pointer \<^verbatim>\<open>master_host\<close> may be NULL (\<open>None\<close>). The
  allocations, which the code does not test, are taken to succeed.
\<close>

record ServerConfig =
  cfgDir :: string
  dbfilename :: string
  cfgPort :: int
  cfgBindaddr :: string
  master_host :: "string option"
  master_port :: int
  is_replica :: bool

definition defaultConfig :: ServerConfig where
  "defaultConfig =
     \<lparr>cfgDir = ''/tmp'', dbfilename = ''dump.rdb'', cfgPort = 6379, cfgBindaddr = ''127.0.0.1'',
      master_host = None, master_port = 0, is_replica = False\<rparr>"

text \<open>The argument of \<^verbatim>\<open>--replicaof\<close> is split at its first blank.\<close>

definition parseReplicaof :: "string \<Rightarrow> ServerConfig \<Rightarrow> ServerConfig" where
  "parseReplicaof arg c =
     (case find_char (CHR '' '') arg of
        None \<Rightarrow> c\<lparr>is_replica := True\<rparr>
      | Some n \<Rightarrow>
          c\<lparr>is_replica := True, master_host := Some (take n arg),
            master_port := atoi (drop (n + 1) arg)\<rparr>)"

text \<open>An option in the last position, without an argument, is ignored like an unknown one.\<close>

fun parseArgs :: "ServerConfig \<Rightarrow> string list \<Rightarrow> ServerConfig" where
  "parseArgs c [] = c"
| "parseArgs c [a] = c"
| "parseArgs c (a # v # rest) =
     (if a = ''--dir'' then parseArgs (c\<lparr>cfgDir := v\<rparr>) rest
      else if a = ''--dbfilename'' then parseArgs (c\<lparr>dbfilename := v\<rparr>) rest
      else if a = ''--port'' then parseArgs (c\<lparr>cfgPort := atoi v\<rparr>) rest
      else if a = ''--bind'' then parseArgs (c\<lparr>cfgBindaddr := v\<rparr>) rest
      else if a = ''--replicaof'' then parseArgs (parseReplicaof v c) rest
      else parseArgs c (v # rest))"

definition parseConfig :: "string list \<Rightarrow> ServerConfig" where
  "parseConfig argv = parseArgs defaultConfig (tl argv)"

section \<open>Options and the command line that spells them\<close>

text \<open>The options, each with the change it makes and the arguments that spell it.\<close>

datatype cli_option =
    Dir string
  | Dbfilename string
  | Port nat
  | Bind string
  | ReplicaOf string nat

fun spell :: "cli_option \<Rightarrow> string list" where
  "spell (Dir d) = [''--dir'', d]"
| "spell (Dbfilename f) = [''--dbfilename'', f]"
| "spell (Port p) = [''--port'', show_nat p]"
| "spell (Bind a) = [''--bind'', a]"
| "spell (ReplicaOf h p) = [''--replicaof'', h @ '' '' @ show_nat p]"

fun applyOption :: "ServerConfig \<Rightarrow> cli_option \<Rightarrow> ServerConfig" where
  "applyOption c (Dir d) = c\<lparr>cfgDir := d\<rparr>"
| "applyOption c (Dbfilename f) = c\<lparr>dbfilename := f\<rparr>"
| "applyOption c (Port p) = c\<lparr>cfgPort := int p\<rparr>"
| "applyOption c (Bind a) = c\<lparr>cfgBindaddr := a\<rparr>"
| "applyOption c (ReplicaOf h p) = c\<lparr>is_replica := True, master_host := Some h, master_port := int p\<rparr>"

fun option_ok :: "cli_option \<Rightarrow> bool" where
  "option_ok (Port p) = (p < 65536)"
| "option_ok (ReplicaOf h p) = (p < 65536 \<and> CHR '' '' \<notin> set h)"
| "option_ok _ = True"

lemma parseReplicaof_spelled:
  "CHR '' '' \<notin> set h \<Longrightarrow> p < 65536 \<Longrightarrow>
   parseReplicaof (h @ '' '' @ show_nat p) c =
     c\<lparr>is_replica := True, master_host := Some h, master_port := int p\<rparr>"
  by (simp add: parseReplicaof_def find_char_append atoi_show_nat)

lemma parseArgs_spell: "option_ok opt \<Longrightarrow> parseArgs c (spell opt @ rest) = parseArgs (applyOption c opt) rest"
proof (cases opt)
  case (ReplicaOf h p)
  assume "option_ok opt"
  with ReplicaOf parseReplicaof_spelled [of h p c] show ?thesis by simp
qed (simp_all add: atoi_show_nat)

lemma parseArgs_options:
  "list_all option_ok opts \<Longrightarrow>
   parseArgs c (concat (map spell opts) @ rest) = parseArgs (foldl applyOption c opts) rest"
  by (induction opts arbitrary: c) (simp_all add: parseArgs_spell)

text \<open>
  C35. Round trip of the command line: the arguments that spell any sequence of options, with
  ports below 65536 and a master given as one argument \<^verbatim>\<open>"host port"\<close>, are parsed to the
  defaults changed by those options, a later option overriding an earlier one.
\<close>

theorem parseConfig_roundtrip:
  assumes "list_all option_ok opts"
  shows "parseConfig (prog # concat (map spell opts)) = foldl applyOption defaultConfig opts"
  using parseArgs_options [OF assms, of defaultConfig "[]"] by (simp add: parseConfig_def)

theorem parseConfig_roundtrip_witness:
  "parseConfig [''fastkey'', ''--port'', ''6380'', ''--replicaof'', ''localhost 6379''] =
     defaultConfig\<lparr>cfgPort := 6380, is_replica := True, master_host := Some ''localhost'', master_port := 6379\<rparr>"
proof -
  have s: "concat (map spell [Port 6380, ReplicaOf ''localhost'' 6379]) =
    [''--port'', ''6380'', ''--replicaof'', ''localhost 6379'']" by code_simp
  show ?thesis
    using parseConfig_roundtrip [of "[Port 6380, ReplicaOf ''localhost'' 6379]" "''fastkey''", unfolded s] by simp
qed

end
