(* ===== verification/Server_State.thy ===== *)
theory Server_State
  imports Redis_Store Config
begin

text \<open>
  The state of the server, \<^verbatim>\<open>src/app/server.h\<close> and \<^verbatim>\<open>handshake.h\<close>, and its construction by
  \<^verbatim>\<open>createServer\<close>. Pointers that may be NULL are options. The replication offset is a
  \<^verbatim>\<open>long long\<close> that counts bytes sent or received; it is an unbounded integer here, since
  its overflow would take \<open>2^63\<close> bytes of traffic.
\<close>

record MasterInfo =
  mhost :: string
  mport :: int
  mfd :: "int option"  \<comment> \<open>\<open>None\<close> until \<^verbatim>\<open>startReplication\<close> stores the descriptor\<close>

record Replica =
  rfd :: int
  ack_offset :: int

text \<open>The used slots of the replica array (so \<^verbatim>\<open>replica_count\<close> is their number) and its room.\<close>

record Replicas =
  replicaList :: "Replica list"
  replica_capacity :: nat

record ReplicationInfo =
  master_info :: "MasterInfo option"
  replication_id :: string
  repl_offset :: int
  replicas :: "Replicas option"

record RedisServer =
  bindaddr :: string
  port :: int
  tcp_backlog :: int
  clients_count :: int
  db :: RedisStore
  dir :: string
  filename :: string
  repl_info :: ReplicationInfo
  total_commands_processed :: int
  keyspace_hits :: int
  keyspace_misses :: int

definition REPLICATION_ID :: string where
  "REPLICATION_ID = ''8371b4fb1155b71f4a04d3e1bc3e18c4a990aeeb''"

definition INITIAL_REPLICA_CAPACITY :: nat where
  "INITIAL_REPLICA_CAPACITY = 16"

definition initReplicaList :: "ReplicationInfo \<Rightarrow> ReplicationInfo" where
  "initReplicaList ri =
     ri\<lparr>replicas := Some \<lparr>replicaList = [], replica_capacity = INITIAL_REPLICA_CAPACITY\<rparr>\<rparr>"

text \<open>
  When an allocation fails, \<^verbatim>\<open>createServer\<close> calls \<^verbatim>\<open>freeServer\<close> on what it has built so
  far, which takes a server without \<^verbatim>\<open>master_info\<close> for a master and releases its replica
  list through a pointer that is still NULL.
\<close>

definition freePartialServer :: "ReplicationInfo option \<Rightarrow> RedisServer option run" where
  "freePartialServer ri =
     (case ri of
        None \<Rightarrow> Ok None
      | Some r \<Rightarrow>
          if master_info r = None \<and> replicas r = None then Fault NullDeref else Ok None)"

definition masterSetup :: "allocator \<Rightarrow> ServerConfig \<Rightarrow> ReplicationInfo \<Rightarrow> ReplicationInfo option run" where
  "masterSetup alloc config ri =
     (if is_replica config then
        if \<not> alloc 16 then bind_run (freePartialServer (Some ri)) (\<lambda>_. Ok None)
        else
          (case master_host config of
             None \<Rightarrow> Fault NullDeref
           | Some h \<Rightarrow>
               if \<not> strdup_ok alloc h then Ok None
               else Ok (Some (ri\<lparr>master_info := Some \<lparr>mhost = h, mport = master_port config, mfd = None\<rparr>\<rparr>)))
      else Ok (Some (initReplicaList ri)))"

definition createServer :: "allocator \<Rightarrow> ServerConfig \<Rightarrow> RedisServer option run" where
  "createServer alloc config =
     (if \<not> alloc 88 then Ok None
      else if \<not> alloc 32 then freePartialServer None
      else
        let ri = \<lparr>master_info = None, replication_id = REPLICATION_ID, repl_offset = 0, replicas = None\<rparr> in
        if \<not> strdup_ok alloc REPLICATION_ID then freePartialServer (Some ri)
        else
          bind_run (masterSetup alloc config ri) (\<lambda>r.
            case r of
              None \<Rightarrow> Ok None
            | Some ri \<Rightarrow>
                (case createStore alloc of
                   None \<Rightarrow> freePartialServer (Some ri)
                 | Some st \<Rightarrow>
                     Ok (Some
                       \<lparr>bindaddr = cfgBindaddr config, port = cfgPort config, tcp_backlog = 511,
                        clients_count = 0, db = st, dir = cfgDir config,
                        filename = dbfilename config, repl_info = ri,
                        total_commands_processed = 0, keyspace_hits = 0, keyspace_misses = 0\<rparr>))))"

text \<open>\<^verbatim>\<open>serverCron\<close>, with the clock of \<^verbatim>\<open>time\<close>.\<close>

definition serverCron :: "int \<Rightarrow> RedisServer \<Rightarrow> RedisServer" where
  "serverCron now_s server = server\<lparr>db := clearExpired now_s (db server)\<rparr>"

section \<open>The invariant of the server\<close>

text \<open>
  Exactly one of the two roles: a master has a replica list inside its allocation and no
  \<^verbatim>\<open>master_info\<close>; a replica has no list.
\<close>

definition is_master :: "RedisServer \<Rightarrow> bool" where
  "is_master server = (master_info (repl_info server) = None)"

definition wf_repl :: "ReplicationInfo \<Rightarrow> bool" where
  "wf_repl ri =
     (case replicas ri of
        None \<Rightarrow> master_info ri \<noteq> None
      | Some rs \<Rightarrow>
          master_info ri = None \<and> length (replicaList rs) \<le> replica_capacity rs \<and>
          INITIAL_REPLICA_CAPACITY \<le> replica_capacity rs)"

definition wf_server :: "RedisServer \<Rightarrow> bool" where
  "wf_server server =
     (wf_store (db server) \<and> wf_values (db server) \<and> wf_repl (repl_info server))"

lemma emptyStore_values: "wf_values emptyStore"
  by (simp add: wf_values_def emptyStore_def INITIAL_STORE_SIZE_def)

lemma createServer_fields:
  assumes "createServer alloc config = Ok (Some server)"
  shows "db server = emptyStore" and "is_master server = (\<not> is_replica config)"
    and "wf_repl (repl_info server)" and "port server = cfgPort config" and "dir server = cfgDir config"
    and "filename server = dbfilename config" and "repl_offset (repl_info server) = 0"
  using assms
  by (auto simp: createServer_def masterSetup_def createStore_def initReplicaList_def freePartialServer_def
      wf_repl_def is_master_def Let_def bind_run_Ok_iff split: if_splits option.splits)

text \<open>
  \<^verbatim>\<open>createServer\<close>: whenever it returns a server, that server satisfies the invariant,
  has an empty store and offset 0, and has the role, port, directory and file name of the
  configuration; and with enough memory, and a master host when the server is a replica, it
  does return one.
\<close>

theorem createServer_wf:
  assumes "is_replica config \<longrightarrow> master_host config \<noteq> None"
  shows "(\<exists>server. createServer always config = Ok (Some server)) \<and>
    (\<forall>alloc server. createServer alloc config = Ok (Some server) \<longrightarrow>
      wf_server server \<and> db server = emptyStore \<and> is_master server = (\<not> is_replica config) \<and>
      port server = cfgPort config \<and> dir server = cfgDir config \<and>
      filename server = dbfilename config \<and> repl_offset (repl_info server) = 0)"
proof
  show "\<exists>server. createServer always config = Ok (Some server)"
    using assms by (auto simp: createServer_def masterSetup_def createStore_def Let_def split: option.splits)
qed (simp add: createServer_fields wf_server_def emptyStore_wf emptyStore_values)

theorem createServer_wf_witness:
  "\<exists>server. createServer always (parseConfig [''fastkey'', ''--replicaof'', ''localhost 6379'']) = Ok (Some server) \<and>
     wf_server server \<and> \<not> is_master server"
proof -
  let ?c = "parseConfig [''fastkey'', ''--replicaof'', ''localhost 6379'']"
  have c: "is_replica ?c" "is_replica ?c \<longrightarrow> master_host ?c \<noteq> None" by code_simp+
  from createServer_wf [OF c(2)] c(1) show ?thesis by blast
qed

text \<open>
  The command line of the documentation, \<^verbatim>\<open>--replicaof <host> <port>\<close> as two arguments,
  makes the server start by duplicating a NULL host: for every host name without a blank the
  configuration says that the server is a replica but has no master, and \<^verbatim>\<open>createServer\<close>
  passes NULL to \<^verbatim>\<open>strdup\<close>.
\<close>

theorem replicaof_two_arguments_fault:
  assumes "CHR '' '' \<notin> set h"
  shows "createServer always (parseConfig [prog, ''--replicaof'', h, p]) = Fault NullDeref"
proof -
  have "find_char (CHR '' '') h = None"
    using assms by (induction h) auto
  then show ?thesis
    by (simp add: createServer_def masterSetup_def parseConfig_def parseReplicaof_def defaultConfig_def Let_def)
qed

theorem replicaof_two_arguments_fault_witness:
  "createServer always (parseConfig [''fastkey'', ''--replicaof'', ''localhost'', ''6379'']) = Fault NullDeref"
  by (rule replicaof_two_arguments_fault) code_simp

end
