(* ===== verification/Resp.thy ===== *)
theory Resp
  imports Redis_Stream
begin

text \<open>
  The RESP protocol, \<^verbatim>\<open>src/app/resp.c\<close> and \<^verbatim>\<open>resp.h\<close>: the growing byte buffer, the
  serialiser of replies and commands, the parser of commands, and the parser of replies that
  \<^verbatim>\<open>EXEC\<close> uses.

  A string with its length is the list of its bytes. A reply is a C string, so whoever reads
  it sees its bytes up to the first NUL only (\<open>cstr\<close>), as the code does with \<^verbatim>\<open>strlen\<close> and
  \<^verbatim>\<open>strndup\<close>. The allocations of this component that the code does not test are taken to
  succeed; \<^verbatim>\<open>appendRespBuffer\<close>, which tests its \<^verbatim>\<open>realloc\<close>, has the allocator as a
  parameter. The slots of an array that \<^verbatim>\<open>malloc\<close> returns are unspecified in C; the
  parameter \<open>zeroed\<close> of the parser says whether they happen to hold NULL.
\<close>

section \<open>Values, results and the buffer\<close>

datatype RespValue =
    RespString string
  | RespError string
  | RespInteger int
  | RespBulk string
  | RespArray "RespValue list"

text \<open>The status codes \<^verbatim>\<open>RESP_OK\<close>, \<^verbatim>\<open>RESP_ERR\<close> and \<^verbatim>\<open>RESP_INCOMPLETE\<close>.\<close>

datatype 'a resp_result = RespOk 'a | RespErr | RespIncomplete

text \<open>\<open>buffer\<close> is the used part of the allocation, \<open>bufSize\<close> its whole size.\<close>

record RespBuffer =
  buffer :: string
  bufSize :: nat

definition RESP_BUFFER_SIZE :: nat where
  "RESP_BUFFER_SIZE = 4096"

definition createRespBuffer :: RespBuffer where
  "createRespBuffer = \<lparr>buffer = [], bufSize = RESP_BUFFER_SIZE\<rparr>"

text \<open>
  The loop that doubles \<^verbatim>\<open>newSize\<close>, on natural numbers and, in \<open>growSize64\<close>, on the
  64-bit \<^verbatim>\<open>size_t\<close> of the code, where doubling wraps around and the loop need not end.
\<close>

function growSize :: "nat \<Rightarrow> nat \<Rightarrow> nat" where
  "growSize newSize need =
     (if 0 < newSize \<and> newSize < need then growSize (newSize * 2) need else newSize)"
  by pat_completeness auto
termination
  by (relation "measure (\<lambda>(n, need). need - n)") auto

declare growSize.simps [simp del]

partial_function (option) growSize64 :: "64 word \<Rightarrow> 64 word \<Rightarrow> 64 word option" where
  "growSize64 newSize need =
     (if newSize < need then growSize64 (newSize * 2) need else Some newSize)"

definition appendRespBuffer ::
  "allocator \<Rightarrow> RespBuffer \<Rightarrow> string \<Rightarrow> RespBuffer \<times> unit resp_result" where
  "appendRespBuffer alloc b data =
     (if bufSize b < length (buffer b) + length data then
        let newSize = growSize (bufSize b * 2) (length (buffer b) + length data) in
        if \<not> alloc newSize then (b, RespErr)
        else (b\<lparr>buffer := buffer b @ data, bufSize := newSize\<rparr>, RespOk ())
      else (b\<lparr>buffer := buffer b @ data\<rparr>, RespOk ()))"

text \<open>The serialiser ignores the status of its appends.\<close>

definition put :: "RespBuffer \<Rightarrow> string \<Rightarrow> RespBuffer" where
  "put b data = fst (appendRespBuffer always b data)"

text \<open>\<^verbatim>\<open>strndup (buffer->buffer, buffer->used)\<close>.\<close>

definition bufferString :: "RespBuffer \<Rightarrow> string" where
  "bufferString b = cstr (buffer b)"

section \<open>The serialiser\<close>

definition createSimpleString :: "string \<Rightarrow> string" where
  "createSimpleString str = ''+'' @ cstr str @ crlf"

definition createError :: "string \<Rightarrow> string" where
  "createError message = ''-'' @ cstr message @ crlf"

definition createInteger :: "int \<Rightarrow> string" where
  "createInteger num = '':'' @ show_int num @ crlf"

definition bulkHeader :: "nat \<Rightarrow> string" where
  "bulkHeader len = ''$'' @ show_nat len @ crlf"

definition encodeBulkString :: "string \<Rightarrow> string \<times> nat" where
  "encodeBulkString str =
     (let header = bulkHeader (length str)
      in (header @ str @ crlf, length header + length str + 2))"

definition createBulkString :: "string \<Rightarrow> string" where
  "createBulkString str = fst (encodeBulkString str)"

definition createNullBulkString :: string where
  "createNullBulkString = ''$-1'' @ crlf"

definition arrayHeader :: "nat \<Rightarrow> string" where
  "arrayHeader count = ''*'' @ show_nat count @ crlf"

text \<open>Elements are C strings; every bulk string is appended up to its first NUL.\<close>

definition createRespArray :: "string list \<Rightarrow> string" where
  "createRespArray elements =
     bufferString
       (foldl (\<lambda>b e. put b (cstr (createBulkString (cstr e))))
          (put createRespBuffer (arrayHeader (length elements))) elements)"

fun elementStr :: "RespValue \<Rightarrow> string"
  and appendElements :: "RespBuffer \<Rightarrow> RespValue list \<Rightarrow> RespBuffer" where
  "elementStr (RespString s) = createSimpleString s"
| "elementStr (RespInteger i) = createInteger i"
| "elementStr (RespArray es) =
     bufferString (appendElements (put createRespBuffer (arrayHeader (length es))) es)"
| "elementStr (RespBulk s) = createBulkString s"
| "elementStr (RespError s) = createError s"
| "appendElements b [] = b"
| "appendElements b (e # es) = appendElements (put b (cstr (elementStr e))) es"

definition createRespArrayFromElements :: "RespValue list \<Rightarrow> string" where
  "createRespArrayFromElements elements =
     bufferString (appendElements (put createRespBuffer (arrayHeader (length elements))) elements)"

text \<open>The fields of an entry, as a flat sequence of bulk strings.\<close>

definition appendFields :: "RespBuffer \<Rightarrow> (string \<times> string) list \<Rightarrow> RespBuffer" where
  "appendFields b fvs =
     foldl (\<lambda>b (f, v). put (put b (cstr (createBulkString f))) (cstr (createBulkString v))) b fvs"

definition appendEntry :: "RespBuffer \<Rightarrow> StreamEntry \<Rightarrow> RespBuffer" where
  "appendEntry b e =
     appendFields
       (put (put (put b (''*2'' @ crlf)) (cstr (createBulkString (entryId e))))
          (arrayHeader (length (fieldValues e) * 2)))
       (fieldValues e)"

text \<open>The loop over the entries follows the links, the header prints the given count.\<close>

definition createXrangeResponse :: "StreamEntry list \<Rightarrow> nat \<Rightarrow> string" where
  "createXrangeResponse es count =
     (if es = [] \<or> count = 0 then createRespArray []
      else bufferString (foldl appendEntry (put createRespBuffer (arrayHeader count)) es))"

text \<open>For every stream only the first of its entries is written, under a header of one.\<close>

definition appendStreamInfo :: "RespBuffer \<Rightarrow> StreamInfo \<Rightarrow> RespBuffer" where
  "appendStreamInfo b info =
     (let b1 = put (put b (''*2'' @ crlf)) (cstr (createBulkString (infoKey info))) in
      case infoEntries info of
        [] \<Rightarrow> put b1 (''*0'' @ crlf)
      | e # _ \<Rightarrow>
          if infoCount info = Some 0 then put b1 (''*0'' @ crlf)
          else appendEntry (put b1 (''*1'' @ crlf)) e)"

definition createXreadResponse :: "StreamInfo list \<Rightarrow> string" where
  "createXreadResponse streams =
     bufferString
       (foldl appendStreamInfo (put createRespBuffer (arrayHeader (length streams))) streams)"

text \<open>
  The formatted replies print into 4096 bytes. \<^verbatim>\<open>createFormattedBulkString\<close> then reads as
  many bytes as the whole text has, which is past the array when the text was truncated.
\<close>

definition createFormattedBulkString :: "string \<Rightarrow> string run" where
  "createFormattedBulkString text =
     (if length text < 4096 then Ok (createBulkString text) else Fault OutOfBounds)"

definition createFormattedSimpleString :: "string \<Rightarrow> string" where
  "createFormattedSimpleString text = createSimpleString (take 4095 text)"

section \<open>The parser\<close>

definition parseLine :: "string \<Rightarrow> (nat \<times> string) resp_result" where
  "parseLine data =
     (case find_crlf data of
        None \<Rightarrow> RespIncomplete
      | Some lineLen \<Rightarrow> RespOk (lineLen, take lineLen data))"

definition createRespString :: "string \<Rightarrow> RespValue" where
  "createRespString str = RespBulk str"

text \<open>
  The number after the first character of a line. The line is a copy of \<^verbatim>\<open>lineLen + 1\<close>
  bytes, so \<^verbatim>\<open>line + 1\<close> is past its end when the line is empty.
\<close>

definition lineNumber :: "string \<Rightarrow> int run" where
  "lineNumber line = (if line = [] then Fault OutOfBounds else Ok (atoi (cstr (tl line))))"

definition parseBulkString :: "string \<Rightarrow> (RespValue \<times> nat) resp_result run" where
  "parseBulkString data =
     (case parseLine data of
        RespOk (lineLen, line) \<Rightarrow>
          bind_run (lineNumber line) (\<lambda>strLen.
            let consumed = lineLen + 2 in
            if strLen < 0 then Ok RespErr
            else if length data < consumed + nat strLen + 2 then Ok RespIncomplete
            else Ok (RespOk (createRespString (take (nat strLen) (drop consumed data)),
                             consumed + nat strLen + 2)))
      | _ \<Rightarrow> Ok RespIncomplete)"

text \<open>Going on with a parsed value; every other status is returned as it is.\<close>

fun bind_resp ::
  "'a resp_result run \<Rightarrow> ('a \<Rightarrow> 'b resp_result run) \<Rightarrow> 'b resp_result run" where
  "bind_resp (Ok (RespOk x)) f = f x"
| "bind_resp (Ok RespErr) f = Ok RespErr"
| "bind_resp (Ok RespIncomplete) f = Ok RespIncomplete"
| "bind_resp (Fault e) f = Fault e"

text \<open>
  When an element fails, \<^verbatim>\<open>parseArray\<close> releases the array with \<^verbatim>\<open>freeRespValue\<close>, which
  follows every slot of it, also the slots that were not written yet.
\<close>

fun releaseOnFailure :: "bool \<Rightarrow> 'a resp_result run \<Rightarrow> 'a resp_result run" where
  "releaseOnFailure zeroed (Ok (RespOk x)) = Ok (RespOk x)"
| "releaseOnFailure zeroed (Ok r) = (if zeroed then Ok r else Fault UninitRead)"
| "releaseOnFailure zeroed (Fault e) = Fault e"

text \<open>The loop of \<^verbatim>\<open>parseArray\<close> over the elements that remain.\<close>

fun parseElements ::
  "bool \<Rightarrow> nat \<Rightarrow> string \<Rightarrow> (RespValue list \<times> nat) resp_result run" where
  "parseElements zeroed 0 data = Ok (RespOk ([], 0))"
| "parseElements zeroed (Suc n) data =
     bind_resp (releaseOnFailure zeroed (parseBulkString data)) (\<lambda>(v, c).
       bind_resp (parseElements zeroed n (drop c data)) (\<lambda>(vs, cs).
         Ok (RespOk (v # vs, c + cs))))"

definition parseArray :: "bool \<Rightarrow> string \<Rightarrow> (RespValue \<times> nat) resp_result run" where
  "parseArray zeroed data =
     (case parseLine data of
        RespOk (lineLen, line) \<Rightarrow>
          bind_run (lineNumber line) (\<lambda>arrayLen.
            let consumed = lineLen + 2 in
            if arrayLen < 0 then Ok RespErr
            else
              bind_resp (parseElements zeroed (nat arrayLen) (drop consumed data)) (\<lambda>(vs, cs).
                Ok (RespOk (RespArray vs, consumed + cs))))
      | _ \<Rightarrow> Ok RespIncomplete)"

text \<open>The first command of a sequence of bytes, and the bytes that follow it.\<close>

definition parseCommand :: "bool \<Rightarrow> string \<Rightarrow> (RespValue \<times> nat) resp_result run" where
  "parseCommand zeroed data =
     (if length data < 3 then Ok RespIncomplete
      else if hd data = CHR ''*'' then parseArray zeroed data
      else if hd data = CHR ''$'' then parseBulkString data
      else Ok RespErr)"

definition parseBytes :: "bool \<Rightarrow> string \<Rightarrow> (RespValue \<times> string) resp_result run" where
  "parseBytes zeroed data =
     bind_resp (parseCommand zeroed data) (\<lambda>(v, consumed). Ok (RespOk (v, drop consumed data)))"

definition parseResp :: "bool \<Rightarrow> RespBuffer \<Rightarrow> (RespBuffer \<times> RespValue resp_result) run" where
  "parseResp zeroed b =
     bind_run (parseBytes zeroed (buffer b)) (\<lambda>r.
       case r of
         RespOk (v, rest) \<Rightarrow> Ok (b\<lparr>buffer := rest\<rparr>, RespOk v)
       | RespErr \<Rightarrow> Ok (b, RespErr)
       | RespIncomplete \<Rightarrow> Ok (b, RespIncomplete))"

text \<open>
  \<^verbatim>\<open>parseResponseToRespValue\<close> reads back a reply. \<open>Ok None\<close> is a pointer to a
  \<^verbatim>\<open>RespValue\<close> that was allocated and never written.
\<close>

definition parseResponseToRespValue :: "bool \<Rightarrow> string \<Rightarrow> RespValue option run" where
  "parseResponseToRespValue zeroed response =
     (let r = cstr response in
      case r of
        [] \<Rightarrow> Ok None
      | c # _ \<Rightarrow>
          if c = CHR ''+'' \<or> c = CHR ''-'' then
            (case parseLine r of
               RespOk (lineLen, line) \<Rightarrow>
                 Ok (Some (if c = CHR ''+'' then RespString (tl line) else RespError (tl line)))
             | _ \<Rightarrow> Fault UninitRead)
          else if c = CHR '':'' then
            (case parseLine r of
               RespOk (lineLen, line) \<Rightarrow> Ok (Some (RespInteger (atoll (tl line))))
             | _ \<Rightarrow> Fault UninitRead)
          else if c = CHR ''$'' then
            bind_run (parseBulkString r) (\<lambda>p.
              Ok (case p of RespOk (v, _) \<Rightarrow> Some v | _ \<Rightarrow> None))
          else if c = CHR ''*'' then
            bind_run (parseArray zeroed r) (\<lambda>p.
              Ok (case p of RespOk (v, _) \<Rightarrow> Some v | _ \<Rightarrow> None))
          else Ok None)"

section \<open>Values\<close>

fun cloneRespValue :: "RespValue \<Rightarrow> RespValue" where
  "cloneRespValue (RespString s) = RespString (take (length s) s)"
| "cloneRespValue (RespBulk s) = RespBulk (take (length s) s)"
| "cloneRespValue (RespError s) = RespError (take (length s) s)"
| "cloneRespValue (RespArray es) = RespArray (map cloneRespValue es)"
| "cloneRespValue (RespInteger i) = RespInteger i"

text \<open>The bytes of a value through the union member \<^verbatim>\<open>data.string\<close>.\<close>

fun stringData :: "RespValue \<Rightarrow> string run" where
  "stringData (RespString s) = Ok s"
| "stringData (RespError s) = Ok s"
| "stringData (RespBulk s) = Ok s"
| "stringData (RespInteger i) = Fault TypeConfusion"
| "stringData (RespArray es) = Fault TypeConfusion"

fun commandElements :: "RespValue \<Rightarrow> RespValue list run" where
  "commandElements (RespArray es) = Ok es"
| "commandElements _ = Fault TypeConfusion"

definition calculateCommandSize :: "RespValue \<Rightarrow> nat run" where
  "calculateCommandSize command =
     bind_run (commandElements command) (\<lambda>es.
       bind_run (map_run_list stringData es) (\<lambda>strs.
         Ok (length (arrayHeader (length es)) +
             sum_list (map (\<lambda>s. length (bulkHeader (length s)) + length s + 2) strs))))"

section \<open>The buffer as a sink of bytes\<close>

text \<open>
  What the serialiser relies on: the bytes written are the bytes read back, in the order of
  the writes. Every response is then a plain concatenation.
\<close>

locale byte_sink =
  fixes sink_empty :: 'b
    and sink_put :: "'b \<Rightarrow> string \<Rightarrow> 'b"
    and sink_bytes :: "'b \<Rightarrow> string"
  assumes bytes_empty: "sink_bytes sink_empty = []"
    and bytes_put: "sink_bytes (sink_put b d) = sink_bytes b @ d"
begin

lemma bytes_foldl:
  assumes "\<And>b x. sink_bytes (f b x) = sink_bytes b @ g x"
  shows "sink_bytes (foldl f b xs) = sink_bytes b @ concat (map g xs)"
  by (induction xs arbitrary: b) (simp_all add: assms)

lemma bytes_first: "sink_bytes (sink_put sink_empty d) = d"
  by (simp add: bytes_empty bytes_put)

end

lemma buffer_put: "buffer (put b d) = buffer b @ d"
  by (simp add: put_def appendRespBuffer_def Let_def)

interpretation resp_sink: byte_sink createRespBuffer put buffer
  by unfold_locales (simp_all add: buffer_put createRespBuffer_def)

lemma growSize_ge: "0 < n \<Longrightarrow> need \<le> growSize n need \<and> n \<le> growSize n need"
proof (induction n need rule: growSize.induct)
  case (1 n need)
  then show ?case
    by (cases "n < need") (auto simp: growSize.simps [of n need])
qed

definition wf_buffer :: "RespBuffer \<Rightarrow> bool" where
  "wf_buffer b = (0 < bufSize b \<and> length (buffer b) \<le> bufSize b)"

lemma wf_createRespBuffer: "wf_buffer createRespBuffer"
  by (simp add: wf_buffer_def createRespBuffer_def RESP_BUFFER_SIZE_def)

text \<open>
  C26. Memory safety of the buffer under any allocator: an append either fails and leaves the
  buffer as it was, which happens only when the allocation fails, or it extends the contents by
  exactly the new bytes; in both cases the contents lie within the allocation afterwards, so
  the copy never writes past its end.
\<close>

theorem appendRespBuffer_safe:
  assumes "wf_buffer b" and "appendRespBuffer alloc b data = (b', r)"
  shows "wf_buffer b' \<and>
    ((r = RespErr \<and> b' = b \<and> (\<exists>n. \<not> alloc n)) \<or>
     (r = RespOk () \<and> buffer b' = buffer b @ data \<and> bufSize b \<le> bufSize b'))"
  using assms growSize_ge [of "bufSize b * 2" "length (buffer b) + length data"]
  by (auto simp: appendRespBuffer_def wf_buffer_def Let_def split: if_splits)

theorem appendRespBuffer_safe_witness:
  "wf_buffer \<lparr>buffer = ''abcdef'', bufSize = 8\<rparr> \<and>
   appendRespBuffer always \<lparr>buffer = ''abcd'', bufSize = 4\<rparr> ''ef'' =
     (\<lparr>buffer = ''abcdef'', bufSize = 8\<rparr>, RespOk ())"
proof -
  have run: "appendRespBuffer always \<lparr>buffer = ''abcd'', bufSize = 4\<rparr> ''ef'' =
    (\<lparr>buffer = ''abcdef'', bufSize = 8\<rparr>, RespOk ())" by code_simp
  have "wf_buffer \<lparr>buffer = ''abcd'', bufSize = 4\<rparr>" by code_simp
  from appendRespBuffer_safe [OF this run] run show ?thesis by simp
qed

text \<open>
  The doubling loop on the machine's 64-bit sizes: for a positive start and a need of at
  most \<open>2 ^ 63\<close> bytes it ends, never wraps around, and computes the same size as the loop on
  natural numbers.
\<close>

theorem growSize64_exact:
  assumes "0 < n" and "n < 2 ^ 64" and "need \<le> 2 ^ 63"
  shows "growSize64 (of_nat n) (of_nat need) = Some (of_nat (growSize n need))"
  using assms
proof (induction n need rule: growSize.induct)
  case (1 n need)
  have u: "unat (of_nat n :: 64 word) = n" "unat (of_nat need :: 64 word) = need"
    using "1.prems" by (simp_all add: unat_of_nat)
  have less: "(of_nat n :: 64 word) < of_nat need \<longleftrightarrow> n < need"
    by (simp add: word_less_nat_alt u)
  show ?case
  proof (cases "n < need")
    case True
    have eq: "(of_nat n :: 64 word) * 2 = of_nat (n * 2)" by simp
    have "growSize64 (of_nat (n * 2)) (of_nat need) = Some (of_nat (growSize (n * 2) need))"
      using True "1.prems" by (intro "1.IH") auto
    then show ?thesis
      using True "1.prems"(1)
      by (subst growSize64.simps, subst growSize.simps) (simp only: less eq if_True simp_thms)
  next
    case False
    then show ?thesis
      using "1.prems"(1) by (subst growSize64.simps, subst growSize.simps) (simp add: less)
  qed
qed

theorem growSize64_exact_witness:
  "growSize64 (of_nat 8192) (of_nat 10000) = Some (of_nat (growSize 8192 10000))"
  by (rule growSize64_exact) simp_all

section \<open>The serialiser as concatenation\<close>

lemma arrayHeader_nul_free [simp]: "nul_free (arrayHeader n)"
  by (simp add: arrayHeader_def)

lemma createBulkString_eq: "createBulkString s = bulkHeader (length s) @ s @ crlf"
  by (simp add: createBulkString_def encodeBulkString_def Let_def)

lemma bulkHeader_nul_free [simp]: "nul_free (bulkHeader n)"
  by (simp add: bulkHeader_def)

lemma createBulkString_nul_free [simp]: "nul_free (createBulkString s) \<longleftrightarrow> nul_free s"
  by (simp add: createBulkString_eq)

lemma cstr_createBulkString:
  "cstr (createBulkString s) = bulkHeader (length s) @ (if nul_free s then s @ crlf else cstr s)"
proof -
  have "cstr (s @ crlf) = (if nul_free s then s @ crlf else cstr s)"
    by (induction s) (auto simp: cstr_def crlf_def)
  then show ?thesis by (simp add: createBulkString_eq cstr_append_nul_free)
qed

text \<open>The reference encoding of a command: a header and one bulk string per argument.\<close>

definition encodeCommand :: "string list \<Rightarrow> string" where
  "encodeCommand args = arrayHeader (length args) @ concat (map createBulkString args)"

lemma encodeCommand_nul_free: "list_all nul_free args \<Longrightarrow> nul_free (encodeCommand args)"
  by (auto simp: encodeCommand_def nul_free_concat list_all_iff)

lemma buffer_createRespArray:
  "buffer (foldl (\<lambda>b e. put b (createBulkString (cstr e))) b es) =
     buffer b @ concat (map (\<lambda>e. createBulkString (cstr e)) es)"
  by (rule resp_sink.bytes_foldl) (simp add: buffer_put)

lemma createRespArray_eq: "createRespArray es = encodeCommand (map cstr es)"
proof -
  have "nul_free (encodeCommand (map cstr es))"
    by (rule encodeCommand_nul_free) (simp add: list_all_iff)
  then show ?thesis
    by (simp add: createRespArray_def bufferString_def buffer_createRespArray
        resp_sink.bytes_first encodeCommand_def o_def)
qed

text \<open>The reference encoding of any value.\<close>

fun encodeValue :: "RespValue \<Rightarrow> string" where
  "encodeValue (RespString s) = createSimpleString s"
| "encodeValue (RespError s) = createError s"
| "encodeValue (RespInteger i) = createInteger i"
| "encodeValue (RespBulk s) = cstr (createBulkString s)"
| "encodeValue (RespArray es) = arrayHeader (length es) @ concat (map encodeValue es)"

lemma encodeValue_nul_free [simp]: "nul_free (encodeValue v)"
  by (induction v) (auto simp: createSimpleString_def createError_def createInteger_def
      nul_free_concat list_all_iff)

lemma elementStr_encodeValue:
  "cstr (elementStr v) = encodeValue v"
  "buffer (appendElements b es) = buffer b @ concat (map encodeValue es)"
proof (induction v and b es rule: elementStr_appendElements.induct)
  case (3 es)
  have "nul_free (concat (map encodeValue es))"
    by (simp add: nul_free_concat list_all_iff)
  with 3 show ?case
    by (simp add: bufferString_def resp_sink.bytes_first)
qed (simp_all add: createSimpleString_def createError_def createInteger_def buffer_put)

lemma createRespArrayFromElements_eq:
  "createRespArrayFromElements es = encodeValue (RespArray es)"
proof -
  have "nul_free (concat (map encodeValue es))"
    by (simp add: nul_free_concat list_all_iff)
  then show ?thesis
    by (simp add: createRespArrayFromElements_def bufferString_def elementStr_encodeValue
        resp_sink.bytes_first)
qed

text \<open>
  The buffered serialisers equal the reference encodings: whatever the sizes of the buffer
  along the way, \<^verbatim>\<open>createRespArrayFromElements\<close> returns the header followed by the
  encodings of its elements, to any nesting depth, and \<^verbatim>\<open>createRespArray\<close> the encoding of
  its C strings as a command.
\<close>

theorem serialisers_encode:
  "createRespArrayFromElements es = encodeValue (RespArray es) \<and>
   createRespArray args = encodeCommand (map cstr args)"
  by (simp add: createRespArrayFromElements_eq createRespArray_eq)

lemma createRespArrayFromElements_bulk:
  assumes "list_all nul_free args"
  shows "createRespArrayFromElements (map RespBulk args) = encodeCommand args"
proof -
  have "map encodeValue (map RespBulk args) = map createBulkString args"
    using assms by (auto simp: list_all_iff)
  then show ?thesis
    by (simp only: createRespArrayFromElements_eq encodeValue.simps length_map encodeCommand_def)
qed

lemma map_run_list_stringData: "map_run_list stringData (map RespBulk args) = Ok args"
  by (induction args) auto

text \<open>
  The replication offset accounts for the right number of bytes: for a command of bulk
  strings without NUL bytes, \<^verbatim>\<open>calculateCommandSize\<close> is the length of the encoding that
  \<^verbatim>\<open>propagateCommand\<close> sends.
\<close>

theorem calculateCommandSize_length:
  assumes "list_all nul_free args"
  shows "calculateCommandSize (RespArray (map RespBulk args)) =
    Ok (length (createRespArrayFromElements (map RespBulk args)))"
proof -
  have "length (concat (map createBulkString args)) =
      sum_list (map (\<lambda>s. length (bulkHeader (length s)) + length s + 2) args)"
    by (induction args) (simp_all add: createBulkString_eq)
  then show ?thesis
    by (simp add: calculateCommandSize_def map_run_list_stringData
        createRespArrayFromElements_bulk [OF assms] encodeCommand_def)
qed

theorem calculateCommandSize_length_witness:
  "calculateCommandSize (RespArray (map RespBulk [''SET'', ''foo'', ''123''])) =
    Ok (length (createRespArrayFromElements (map RespBulk [''SET'', ''foo'', ''123''])))"
  by (rule calculateCommandSize_length) simp

text \<open>
  The 32-byte headers of the protocol never overflow: the header of a bulk string and of an
  array take at most 23 characters for every 64-bit length, and an integer reply of any 64-bit
  value at most 23, so \<^verbatim>\<open>snprintf\<close> truncates none of them.
\<close>

theorem headers_fit:
  assumes "n < 2 ^ 64" and "- (2 ^ 63) \<le> i" and "i < 2 ^ 63"
  shows "length (bulkHeader n) \<le> 23 \<and> length (arrayHeader n) \<le> 23 \<and> length (createInteger i) \<le> 23"
proof -
  have "int n < 10 ^ 20" using assms(1) by simp
  then have "length (show_nat n) \<le> 20"
    unfolding show_nat_def by (intro length_show_digits) auto
  moreover have "length (show_digits (- i)) \<le> 19" if "i < 0"
    using that assms(2) by (intro length_show_digits) auto
  moreover have "length (show_digits i) \<le> 19" if "\<not> i < 0"
    using that assms(3) by (intro length_show_digits) auto
  ultimately show ?thesis
    by (auto simp: bulkHeader_def arrayHeader_def createInteger_def show_int_def)
qed

theorem headers_fit_witness:
  "length (bulkHeader 4096) \<le> 23 \<and> length (arrayHeader 4096) \<le> 23 \<and>
   length (createInteger (- 9223372036854775808)) \<le> 23"
  by (rule headers_fit) simp_all

text \<open>C0. \<^verbatim>\<open>cloneRespValue\<close> copies a value exactly, to any nesting depth.\<close>

theorem cloneRespValue_copy: "cloneRespValue v = v"
  by (induction v) (simp_all add: map_idI)

section \<open>Parsing\<close>

lemma tl_nul_free: "nul_free s \<Longrightarrow> nul_free (tl s)"
  by (cases s) auto

lemma parseLine_append: "parseLine d = RespOk r \<Longrightarrow> parseLine (d @ e) = RespOk r"
  using find_crlf_append [of d] find_crlf_bound [of d]
  by (fastforce simp: parseLine_def split: option.splits)

lemma parseLine_line:
  "CR \<notin> set l \<Longrightarrow> parseLine (l @ crlf @ d) = RespOk (length l, l)"
  by (simp add: parseLine_def find_crlf_line)

text \<open>
  Results other than \<^verbatim>\<open>RESP_INCOMPLETE\<close> do not depend on what arrives later: neither a
  parsed value, nor an error, nor a fault.
\<close>

definition decided :: "'a resp_result run \<Rightarrow> bool" where
  "decided r = (r \<noteq> Ok RespIncomplete)"

lemma decided_simps [simp]:
  "decided (Fault e)" "decided (Ok (RespOk x))" "decided (Ok RespErr)"
  "\<not> decided (Ok RespIncomplete)"
  by (simp_all add: decided_def)

lemma resp_run_cases:
  obtains (ok) x where "m = Ok (RespOk x)" | (err) "m = Ok RespErr"
    | (incomplete) "m = Ok RespIncomplete" | (fault) e where "m = Fault e"
  by (metis resp_result.exhaust run.exhaust)

lemma bind_resp_OkOk:
  "bind_resp m f = Ok (RespOk y) \<longleftrightarrow> (\<exists>x. m = Ok (RespOk x) \<and> f x = Ok (RespOk y))"
  by (cases m rule: resp_run_cases) auto

lemma decided_bind_resp: "decided (bind_resp m f) \<Longrightarrow> decided m"
  by (cases m rule: resp_run_cases) auto

lemma bind_resp_cong:
  "m = n \<Longrightarrow> (\<And>x. n = Ok (RespOk x) \<Longrightarrow> f x = g x) \<Longrightarrow> bind_resp m f = bind_resp n g"
  by (cases n rule: resp_run_cases) auto

lemma releaseOnFailure_True [simp]: "releaseOnFailure True r = r"
  by (cases r rule: resp_run_cases) auto

lemma releaseOnFailure_OkOk: "releaseOnFailure z r = Ok (RespOk x) \<longleftrightarrow> r = Ok (RespOk x)"
  by (cases r rule: resp_run_cases) auto

lemma parseLine_bound: "parseLine d = RespOk (n, l) \<Longrightarrow> n + 2 \<le> length d \<and> length l = n"
  using find_crlf_bound [of d] by (auto simp: parseLine_def split: option.splits)

lemma parseBulkString_append:
  assumes "decided (parseBulkString d)"
  shows "parseBulkString (d @ e) = parseBulkString d"
proof (cases "parseLine d")
  case (RespOk p)
  obtain lineLen line where p: "p = (lineLen, line)" by (cases p) auto
  note line = parseLine_append [OF RespOk, of e]
  show ?thesis
  proof (cases "lineNumber line")
    case (Ok k)
    with assms have "k < 0 \<or> lineLen + 2 + nat k + 2 \<le> length d"
      by (auto simp: parseBulkString_def RespOk p Let_def not_less split: if_splits)
    then show ?thesis by (auto simp: parseBulkString_def RespOk line p Ok Let_def)
  qed (simp add: parseBulkString_def RespOk line p)
qed (use assms in \<open>auto simp: parseBulkString_def\<close>)

lemma parseBulkString_bound:
  "parseBulkString d = Ok (RespOk (v, c)) \<Longrightarrow> 3 \<le> c \<and> c \<le> length d"
  by (auto simp: parseBulkString_def lineNumber_def parseLine_def Let_def
      split: option.splits resp_result.splits if_splits)

lemma parseElements_append:
  "decided (parseElements True n d) \<Longrightarrow> parseElements True n (d @ e) = parseElements True n d"
proof (induction n arbitrary: d)
  case (Suc n)
  have dec: "decided (parseBulkString d)"
    using Suc.prems decided_bind_resp by fastforce
  show ?case
    unfolding parseElements.simps releaseOnFailure_True
  proof (rule bind_resp_cong [OF parseBulkString_append [OF dec]])
    fix p assume ok: "parseBulkString d = Ok (RespOk p)"
    obtain v c where p: "p = (v, c)" by (cases p) auto
    have c: "c \<le> length d" using parseBulkString_bound ok p by blast
    have "decided (parseElements True n (drop c d))"
      using Suc.prems decided_bind_resp by (fastforce simp: ok p)
    with c show "(case p of (v, c) \<Rightarrow> bind_resp (parseElements True n (drop c (d @ e)))
          (\<lambda>(vs, cs). Ok (RespOk (v # vs, c + cs)))) =
        (case p of (v, c) \<Rightarrow> bind_resp (parseElements True n (drop c d))
          (\<lambda>(vs, cs). Ok (RespOk (v # vs, c + cs))))"
      by (simp add: p Suc.IH)
  qed
qed simp

lemma parseElements_bound:
  "parseElements z n d = Ok (RespOk (vs, c)) \<Longrightarrow> c \<le> length d \<and> length vs = n"
proof (induction n arbitrary: d vs c)
  case (Suc n)
  from Suc.prems obtain v c1 vs' c2 where
    1: "parseBulkString d = Ok (RespOk (v, c1))" and
    2: "parseElements z n (drop c1 d) = Ok (RespOk (vs', c2))" and "c = c1 + c2" "vs = v # vs'"
    by (auto simp: bind_resp_OkOk releaseOnFailure_OkOk)
  with parseBulkString_bound [OF 1] Suc.IH [OF 2] show ?case by auto
qed auto

lemma parseArray_append:
  assumes "decided (parseArray True d)"
  shows "parseArray True (d @ e) = parseArray True d"
proof (cases "parseLine d")
  case (RespOk p)
  obtain lineLen line where p: "p = (lineLen, line)" by (cases p) auto
  note line = parseLine_append [OF RespOk, of e]
  have len: "lineLen + 2 \<le> length d" using RespOk parseLine_bound p by blast
  show ?thesis
  proof (cases "lineNumber line")
    case (Ok k)
    have "k < 0 \<or> decided (parseElements True (nat k) (drop (lineLen + 2) d))"
      using assms decided_bind_resp
      by (fastforce simp: parseArray_def RespOk p Ok Let_def split: if_splits)
    with len show ?thesis
      by (auto simp: parseArray_def RespOk line p Ok Let_def parseElements_append)
  qed (simp add: parseArray_def RespOk line p)
qed (use assms in \<open>auto simp: parseArray_def\<close>)

lemma parseArray_Ok:
  assumes "parseArray z d = Ok (RespOk (v, c))"
  obtains lineLen line k vs cs where "parseLine d = RespOk (lineLen, line)"
    and "lineNumber line = Ok k" and "0 \<le> k"
    and "parseElements z (nat k) (drop (lineLen + 2) d) = Ok (RespOk (vs, cs))"
    and "v = RespArray vs" and "c = lineLen + 2 + cs"
  using assms
  by (auto simp: parseArray_def Let_def bind_run_Ok_iff bind_resp_OkOk not_less
      split: resp_result.splits if_splits)

lemma parseArray_bound:
  "parseArray z d = Ok (RespOk (v, c)) \<Longrightarrow> 3 \<le> c \<and> c \<le> length d"
proof (elim parseArray_Ok)
  fix lineLen line k vs cs
  assume l: "parseLine d = RespOk (lineLen, line)" and k: "lineNumber line = Ok k"
    and e: "parseElements z (nat k) (drop (lineLen + 2) d) = Ok (RespOk (vs, cs))"
    and c: "c = lineLen + 2 + cs"
  have "0 < lineLen"
    using parseLine_bound [OF l] k by (auto simp: lineNumber_def split: if_splits)
  then show ?thesis using parseElements_bound [OF e] parseLine_bound [OF l] c by auto
qed

lemma parseCommand_append:
  assumes "decided (parseCommand True d)"
  shows "parseCommand True (d @ e) = parseCommand True d"
proof -
  have len: "\<not> length d < 3" using assms by (auto simp: parseCommand_def)
  then have "hd (d @ e) = hd d" by (cases d) auto
  with assms len show ?thesis
    using parseArray_append [of d e] parseBulkString_append [of d e]
    by (auto simp: parseCommand_def)
qed

lemma parseCommand_bound:
  "parseCommand z d = Ok (RespOk (v, c)) \<Longrightarrow> 3 \<le> c \<and> c \<le> length d"
  using parseArray_bound [of z d v c] parseBulkString_bound [of d v c]
  by (auto simp: parseCommand_def split: if_splits)

section \<open>Round trips of commands\<close>

lemma parseBulkString_encode:
  assumes "length s < 2 ^ 31"
  shows "parseBulkString (createBulkString s @ d) = Ok (RespOk (RespBulk s, length (createBulkString s)))"
proof -
  have hdr: "CR \<notin> set (''$'' @ show_nat (length s))" by simp
  have eq: "createBulkString s @ d = (''$'' @ show_nat (length s)) @ crlf @ s @ crlf @ d"
    by (simp add: createBulkString_eq bulkHeader_def)
  have num: "lineNumber (''$'' @ show_nat (length s)) = Ok (int (length s))"
    using assms by (simp add: lineNumber_def atoi_show_nat)
  show ?thesis
    unfolding parseBulkString_def eq parseLine_line [OF hdr] resp_result.case prod.case num bind_run.simps
    by (simp add: createBulkString_eq bulkHeader_def createRespString_def Let_def)
qed

lemma parseElements_encode:
  "\<forall>a\<in>set args. length a < 2 ^ 31 \<Longrightarrow>
   parseElements z (length args) (concat (map createBulkString args) @ d) =
     Ok (RespOk (map RespBulk args, length (concat (map createBulkString args))))"
  by (induction args) (simp_all add: parseBulkString_encode)

lemma parseCommand_encode:
  assumes "length args < 2 ^ 31" and "\<forall>a\<in>set args. length a < 2 ^ 31"
  shows "parseCommand z (encodeCommand args @ d) =
    Ok (RespOk (RespArray (map RespBulk args), length (encodeCommand args)))"
proof -
  have hdr: "CR \<notin> set (''*'' @ show_nat (length args))" by simp
  have eq: "encodeCommand args @ d =
      (''*'' @ show_nat (length args)) @ crlf @ concat (map createBulkString args) @ d"
    by (simp add: encodeCommand_def arrayHeader_def)
  have num: "lineNumber (''*'' @ show_nat (length args)) = Ok (int (length args))"
    using assms(1) by (simp add: lineNumber_def atoi_show_nat)
  have "parseArray z (encodeCommand args @ d) =
      Ok (RespOk (RespArray (map RespBulk args), length (encodeCommand args)))"
    unfolding parseArray_def eq parseLine_line [OF hdr] resp_result.case prod.case num bind_run.simps
    using parseElements_encode [OF assms(2), of z d]
    by (simp add: encodeCommand_def arrayHeader_def Let_def)
  then show ?thesis
    by (simp add: parseCommand_def encodeCommand_def arrayHeader_def)
qed

lemma parseBytes_encode:
  assumes "length args < 2 ^ 31" and "\<forall>a\<in>set args. length a < 2 ^ 31"
  shows "parseBytes z (encodeCommand args @ d) = Ok (RespOk (RespArray (map RespBulk args), d))"
  by (simp add: parseBytes_def parseCommand_encode [OF assms])

text \<open>
  C3. Round trip of commands: the parser reads the encoding of a command back to exactly its
  arguments, whatever bytes they hold (also NUL, CR and LF), and leaves exactly the bytes that
  follow it in the buffer. Arguments and their number are below \<open>2 ^ 31\<close>, the range of the
  \<^verbatim>\<open>int\<close> lengths of the parser.
\<close>

theorem parseResp_encodeCommand:
  assumes "length args < 2 ^ 31" and "\<forall>a\<in>set args. length a < 2 ^ 31"
    and "buffer b = encodeCommand args @ rest"
  shows "parseResp zeroed b = Ok (b\<lparr>buffer := rest\<rparr>, RespOk (RespArray (map RespBulk args)))"
  by (simp add: parseResp_def assms(3) parseBytes_encode [OF assms(1,2)])

theorem parseResp_encodeCommand_witness:
  "parseResp False \<lparr>buffer = encodeCommand [''SET'', [NUL, CR, LF], []] @ ''*1'', bufSize = 4096\<rparr> =
    Ok (\<lparr>buffer = ''*1'', bufSize = 4096\<rparr>,
        RespOk (RespArray [RespBulk ''SET'', RespBulk [NUL, CR, LF], RespBulk []]))"
  using parseResp_encodeCommand [of "[''SET'', [NUL, CR, LF], []]"
      "\<lparr>buffer = encodeCommand [''SET'', [NUL, CR, LF], []] @ ''*1'', bufSize = 4096\<rparr>" "''*1''" False]
  by simp

text \<open>
  No command is lost or misread when it arrives in pieces: on every proper prefix of the
  encoding of a command the parser asks for more data and keeps the buffer, provided that the
  slots of a fresh array hold NULL.
\<close>

theorem parseResp_prefix_incomplete:
  assumes "length args < 2 ^ 31" and "\<forall>a\<in>set args. length a < 2 ^ 31"
    and "encodeCommand args = buffer b @ suf" and "suf \<noteq> []"
  shows "parseResp True b = Ok (b, RespIncomplete)"
proof -
  have whole: "parseCommand True (buffer b @ suf) =
      Ok (RespOk (RespArray (map RespBulk args), length (buffer b @ suf)))"
    using parseCommand_encode [OF assms(1,2), of True "[]"] by (simp add: assms(3))
  have "\<not> decided (parseCommand True (buffer b))"
  proof
    assume "decided (parseCommand True (buffer b))"
    from parseCommand_append [OF this, of suf] whole
    have "parseCommand True (buffer b) =
        Ok (RespOk (RespArray (map RespBulk args), length (buffer b @ suf)))" by simp
    from parseCommand_bound [OF this] assms(4) show False by simp
  qed
  then show ?thesis by (simp add: decided_def parseResp_def parseBytes_def)
qed

theorem parseResp_prefix_incomplete_witness:
  "parseResp True \<lparr>buffer = take 9 (encodeCommand [''GET'', ''k'']), bufSize = 4096\<rparr> =
    Ok (\<lparr>buffer = take 9 (encodeCommand [''GET'', ''k'']), bufSize = 4096\<rparr>, RespIncomplete)"
  by (rule parseResp_prefix_incomplete [of "[''GET'', ''k'']" _ "drop 9 (encodeCommand [''GET'', ''k''])"])
    (simp, simp, simp, code_simp)

lemma parseBulkString_prefix:
  assumes "length s < 2 ^ 31" and "createBulkString s = p @ suf" and "suf \<noteq> []"
  shows "parseBulkString p = Ok RespIncomplete"
proof (rule ccontr)
  assume "parseBulkString p \<noteq> Ok RespIncomplete"
  then have "parseBulkString (p @ suf) = parseBulkString p"
    by (intro parseBulkString_append) (simp add: decided_def)
  then have "parseBulkString p = Ok (RespOk (RespBulk s, length (p @ suf)))"
    using parseBulkString_encode [OF assms(1), of "[]"] assms(2) by simp
  from parseBulkString_bound [OF this] assms(3) show False by simp
qed

lemma parseElements_prefix_fault:
  "\<forall>a\<in>set args. length a < 2 ^ 31 \<Longrightarrow> concat (map createBulkString args) = p @ suf \<Longrightarrow>
   suf \<noteq> [] \<Longrightarrow> parseElements False (length args) p = Fault UninitRead"
proof (induction args arbitrary: p)
  case (Cons a args)
  show ?case
  proof (cases "length p < length (createBulkString a)")
    case True
    then obtain q where q: "createBulkString a = p @ q" "q \<noteq> []"
      using Cons.prems(2) by (auto simp: append_eq_append_conv2)
    from parseBulkString_prefix [OF _ q] Cons.prems(1) show ?thesis by simp
  next
    case False
    then obtain q where q: "p = createBulkString a @ q"
      using Cons.prems(2) by (auto simp: append_eq_append_conv2)
    with Cons show ?thesis by (simp add: parseBulkString_encode)
  qed
qed simp

text \<open>
  A command split inside its arguments is undefined behaviour: when the bytes received so
  far hold the whole header of a command but not all of its arguments, the parser releases
  the array it has begun, and with it pointers it never wrote (\<^verbatim>\<open>zeroed\<close> is false).
\<close>

theorem parseResp_split_command_faults:
  assumes "length args < 2 ^ 31" and "\<forall>a\<in>set args. length a < 2 ^ 31"
    and "buffer b = arrayHeader (length args) @ p"
    and "concat (map createBulkString args) = p @ suf" and "suf \<noteq> []"
  shows "parseResp False b = Fault UninitRead"
proof -
  have hdr: "CR \<notin> set (''*'' @ show_nat (length args))" by simp
  have eq: "buffer b = (''*'' @ show_nat (length args)) @ crlf @ p"
    by (simp add: assms(3) arrayHeader_def)
  have num: "lineNumber (''*'' @ show_nat (length args)) = Ok (int (length args))"
    using assms(1) by (simp add: lineNumber_def atoi_show_nat)
  have "parseArray False (buffer b) = Fault UninitRead"
    unfolding parseArray_def eq parseLine_line [OF hdr] resp_result.case prod.case num bind_run.simps
    using parseElements_prefix_fault [OF assms(2,4,5)] by (simp add: Let_def)
  then show ?thesis
    by (simp add: parseResp_def parseBytes_def parseCommand_def eq)
qed

theorem parseResp_split_command_faults_witness:
  "parseResp False \<lparr>buffer = arrayHeader 2 @ createBulkString ''GET'', bufSize = 4096\<rparr> = Fault UninitRead"
  by (rule parseResp_split_command_faults
      [of "[''GET'', ''k'']" _ "createBulkString ''GET''" "createBulkString ''k''"])
    (simp, simp, simp add: numeral_2_eq_2, simp, simp add: createBulkString_eq)

section \<open>The interface of an incremental parser\<close>

text \<open>
  The loop \<^verbatim>\<open>while (parseResp (buffer, &command) == RESP_OK)\<close> over the bytes of a buffer:
  the values it delivers and the bytes it leaves. A fault of the parser has no result.
\<close>

inductive drains ::
  "(string \<Rightarrow> ('v \<times> string) resp_result run) \<Rightarrow> string \<Rightarrow> 'v list \<Rightarrow> string \<Rightarrow> bool"
  for parse where
  drains_stop: "parse d \<in> {Ok RespIncomplete, Ok RespErr} \<Longrightarrow> drains parse d [] d"
| drains_next: "parse d = Ok (RespOk (v, r)) \<Longrightarrow> drains parse r vs r' \<Longrightarrow> drains parse d (v # vs) r'"

inductive_simps drains_Nil: "drains parse d [] r"

text \<open>The same loop run after every chunk that arrives: \<open>r\<close> is what the buffer holds.\<close>

inductive feeds ::
  "(string \<Rightarrow> ('v \<times> string) resp_result run) \<Rightarrow> string \<Rightarrow> string list \<Rightarrow> 'v list \<Rightarrow> string \<Rightarrow> bool"
  for parse where
  feeds_done: "feeds parse r [] [] r"
| feeds_chunk: "drains parse (r @ c) vs r' \<Longrightarrow> feeds parse r' cs ws r'' \<Longrightarrow>
     feeds parse r (c # cs) (vs @ ws) r''"

text \<open>
  What the receivers of bytes rely on: a decided result does not change when more bytes
  follow, and every parsed value consumes some bytes.
\<close>

locale incremental_parser =
  fixes parse :: "string \<Rightarrow> ('v \<times> string) resp_result run"
  assumes parse_extend:
      "decided (parse d) \<Longrightarrow> parse (d @ e) = bind_resp (parse d) (\<lambda>(v, r). Ok (RespOk (v, r @ e)))"
    and parse_progress: "parse d = Ok (RespOk (v, r)) \<Longrightarrow> length r < length d"
begin

lemma drains_det: "drains parse d vs r \<Longrightarrow> drains parse d ws r' \<Longrightarrow> vs = ws \<and> r = r'"
proof (induction arbitrary: ws r' rule: drains.induct)
  case (drains_stop d)
  from drains_stop.prems drains_stop.hyps show ?case by cases auto
next
  case (drains_next d v r vs r1)
  from drains_next.prems show ?case
    using drains_next.hyps(1) drains_next.IH by cases auto
qed

lemma drains_chunk: "drains parse d vs r \<Longrightarrow> drains parse (r @ e) ws r' \<Longrightarrow> drains parse (d @ e) (vs @ ws) r'"
proof (induction rule: drains.induct)
  case (drains_next d v r vs r1)
  have "parse (d @ e) = Ok (RespOk (v, r @ e))"
    using parse_extend [of d e] drains_next.hyps(1) by simp
  with drains_next show ?case by (auto intro: drains.drains_next)
qed simp

lemma feeds_concat: "feeds parse r cs ws r' \<Longrightarrow> drains parse d vs r \<Longrightarrow> drains parse (d @ concat cs) (vs @ ws) r'"
proof (induction arbitrary: d vs rule: feeds.induct)
  case (feeds_chunk r c vs1 r1 cs ws r2)
  from drains_chunk [OF feeds_chunk.prems feeds_chunk.hyps(1)]
  have "drains parse (d @ c) (vs @ vs1) r1" .
  from feeds_chunk.IH [OF this] show ?case by simp
qed simp

lemma error_is_final: "parse d = Ok RespErr \<Longrightarrow> parse (d @ e) = Ok RespErr"
  using parse_extend [of d e] by simp

lemma feeds_after_error: "feeds parse d cs vs r \<Longrightarrow> parse d = Ok RespErr \<Longrightarrow> vs = [] \<and> r = d @ concat cs"
proof (induction rule: feeds.induct)
  case (feeds_chunk d c vs d' cs ws r)
  have err: "parse (d @ c) = Ok RespErr" using feeds_chunk.prems by (rule error_is_final)
  then have "drains parse (d @ c) [] (d @ c)" by (auto intro: drains.drains_stop)
  with feeds_chunk.hyps(1) have "vs = [] \<and> d' = d @ c" using drains_det by blast
  with err feeds_chunk.IH show ?case by simp
qed simp

end

lemma parseBytes_extend:
  assumes "decided (parseBytes True d)"
  shows "parseBytes True (d @ e) = bind_resp (parseBytes True d) (\<lambda>(v, r). Ok (RespOk (v, r @ e)))"
proof -
  have dec: "decided (parseCommand True d)"
    using assms decided_bind_resp unfolding parseBytes_def by blast
  show ?thesis
    unfolding parseBytes_def parseCommand_append [OF dec]
    using parseCommand_bound [of True d]
    by (cases "parseCommand True d" rule: resp_run_cases) auto
qed

lemma parseBytes_progress: "parseBytes z d = Ok (RespOk (v, r)) \<Longrightarrow> length r < length d"
  using parseCommand_bound [of z d] by (fastforce simp: parseBytes_def bind_resp_OkOk)

interpretation resp_parser: incremental_parser "parseBytes True"
  by unfold_locales (auto simp: parseBytes_extend parseBytes_progress)


text \<open>
  A protocol error is final: once the parser reports \<^verbatim>\<open>RESP_ERR\<close> for the bytes of a
  buffer, no bytes that arrive later make it deliver a command; the connection is stuck.
\<close>

theorem protocol_error_is_final:
  assumes "parseBytes True d = Ok RespErr" and "feeds (parseBytes True) d cs vs r"
  shows "vs = [] \<and> r = d @ concat cs"
  using resp_parser.feeds_after_error [OF assms(2,1)] .

theorem protocol_error_is_final_witness:
  "parseBytes True ''PING'' = Ok RespErr \<and>
   feeds (parseBytes True) ''PING'' [crlf] [] (''PING'' @ crlf) \<and> ''PING'' @ crlf = ''PING'' @ concat [crlf]"
proof -
  let ?p = "parseBytes True"
  have e: "?p ''PING'' = Ok RespErr" and e2: "?p (''PING'' @ crlf) = Ok RespErr" by code_simp+
  have "drains ?p (''PING'' @ crlf) [] (''PING'' @ crlf)" by (rule drains.drains_stop) (simp only: e2 insert_iff simp_thms)
  from feeds.feeds_chunk [OF this feeds.feeds_done] have f: "feeds ?p ''PING'' [crlf] [] (''PING'' @ crlf)" by simp
  from protocol_error_is_final [OF e f] have "''PING'' @ crlf = ''PING'' @ concat [crlf]" by (rule conjunct2)
  with e f show ?thesis by blast
qed


section \<open>Replies\<close>

lemma parseBulkString_shape: "parseBulkString d = Ok (RespOk (v, c)) \<Longrightarrow> \<exists>s. v = RespBulk s"
  by (auto simp: parseBulkString_def createRespString_def Let_def bind_run_Ok_iff split: resp_result.splits if_splits)

lemma parseElements_shape: "parseElements z n d = Ok (RespOk (vs, c)) \<Longrightarrow> \<exists>ss. vs = map RespBulk ss"
proof (induction n arbitrary: d vs c)
  case (Suc n)
  then obtain v c1 vs' c2 where 1: "parseBulkString d = Ok (RespOk (v, c1))"
    and 2: "parseElements z n (drop c1 d) = Ok (RespOk (vs', c2))" and vs: "vs = v # vs'"
    by (auto simp: bind_resp_OkOk releaseOnFailure_OkOk)
  from parseBulkString_shape [OF 1] Suc.IH [OF 2] obtain s ss where "v = RespBulk s" "vs' = map RespBulk ss"
    by blast
  then show ?case by (auto simp: vs intro: exI [of _ "s # ss"])
qed simp

lemma parseArray_shape: "parseArray z d = Ok (RespOk (v, c)) \<Longrightarrow> \<exists>ss. v = RespArray (map RespBulk ss)"
  by (elim parseArray_Ok) (use parseElements_shape in blast)

lemma parsed_shape:
  assumes "parseBytes z d = Ok (RespOk (v, r))"
  shows "(\<exists>s. v = RespBulk s) \<or> (\<exists>ss. v = RespArray (map RespBulk ss))"
proof -
  from assms obtain c where "parseCommand z d = Ok (RespOk (v, c))"
    by (auto simp: parseBytes_def bind_resp_OkOk)
  then have "parseArray z d = Ok (RespOk (v, c)) \<or> parseBulkString d = Ok (RespOk (v, c))"
    by (auto simp: parseCommand_def split: if_splits)
  then show ?thesis using parseArray_shape parseBulkString_shape by blast
qed

text \<open>The replies that the reply parser can represent: no nesting, no NUL, no CR in a line.\<close>

fun plain_reply :: "RespValue \<Rightarrow> bool" where
  "plain_reply (RespString s) = (nul_free s \<and> CR \<notin> set s)"
| "plain_reply (RespError s) = (nul_free s \<and> CR \<notin> set s)"
| "plain_reply (RespInteger i) = (- (2 ^ 63) \<le> i \<and> i < 2 ^ 63)"
| "plain_reply (RespBulk s) = (nul_free s \<and> length s < 2 ^ 31)"
| "plain_reply (RespArray es) =
     (length es < 2 ^ 31 \<and>
      list_all (\<lambda>e. case e of RespBulk s \<Rightarrow> nul_free s \<and> length s < 2 ^ 31 | _ \<Rightarrow> False) es)"

lemma bulk_list:
  "list_all (\<lambda>e. case e of RespBulk s \<Rightarrow> P s | _ \<Rightarrow> False) es \<longleftrightarrow>
   (\<exists>ss. es = map RespBulk ss \<and> list_all P ss)"
proof (induction es)
  case (Cons e es)
  then show ?case
    by (cases e) (auto simp: Cons_eq_map_conv)
qed simp

lemma parseLine_reply:
  "CR \<notin> set s \<Longrightarrow> c \<noteq> CR \<Longrightarrow> parseLine (c # s @ crlf) = RespOk (length s + 1, c # s)"
  using parseLine_line [of "c # s" "[]"] by simp

lemma parseArray_encode:
  assumes "length args < 2 ^ 31" and "\<forall>a\<in>set args. length a < 2 ^ 31"
  shows "parseArray z (encodeCommand args) =
    Ok (RespOk (RespArray (map RespBulk args), length (encodeCommand args)))"
  using parseCommand_encode [OF assms, of z "[]"]
  by (auto simp: parseCommand_def encodeCommand_def arrayHeader_def split: if_splits)

text \<open>
  C36. Round trip of replies: the reply parser that \<^verbatim>\<open>EXEC\<close> uses reads the encoding of a
  simple string, an error, a 64-bit integer, a bulk string or a flat array of bulk strings back
  to the value it encodes.
\<close>

theorem reply_roundtrip:
  assumes "plain_reply v"
  shows "parseResponseToRespValue zeroed (encodeValue v) = Ok (Some v)"
proof (cases v)
  case (RespString s)
  with assms show ?thesis
    by (simp add: parseResponseToRespValue_def createSimpleString_def parseLine_reply)
next
  case (RespError s)
  with assms show ?thesis
    by (simp add: parseResponseToRespValue_def createError_def parseLine_reply)
next
  case (RespInteger i)
  with assms strtoll_show_int [of i] show ?thesis
    by (simp add: parseResponseToRespValue_def createInteger_def parseLine_reply atoll_def)
next
  case (RespBulk s)
  with assms show ?thesis
    using parseBulkString_encode [of s "[]"]
    by (simp add: parseResponseToRespValue_def createBulkString_eq bulkHeader_def Let_def)
next
  case (RespArray es)
  with assms obtain ss where es: "es = map RespBulk ss"
    and ok: "list_all (\<lambda>s. nul_free s \<and> length s < 2 ^ 31) ss"
    using bulk_list [of "\<lambda>s. nul_free s \<and> length s < 2 ^ 31" es] by auto
  have nf: "list_all nul_free ss" using ok by (auto simp: list_all_iff)
  have enc: "encodeValue v = encodeCommand ss"
    using createRespArrayFromElements_bulk [OF nf]
    by (simp add: RespArray es createRespArrayFromElements_eq)
  have pa: "parseArray zeroed (encodeCommand ss) =
      Ok (RespOk (RespArray (map RespBulk ss), length (encodeCommand ss)))"
    using assms ok by (intro parseArray_encode) (auto simp: RespArray es list_all_iff)
  obtain t where t: "encodeCommand ss = CHR ''*'' # t"
    by (simp add: encodeCommand_def arrayHeader_def)
  have "v = RespArray (map RespBulk ss)" by (simp add: RespArray es)
  then show ?thesis
    unfolding enc using pa encodeCommand_nul_free [OF nf]
    by (simp add: parseResponseToRespValue_def t)
qed

theorem reply_roundtrip_witness:
  "parseResponseToRespValue False (encodeValue (RespArray [RespBulk ''a'', RespBulk ''bc''])) =
    Ok (Some (RespArray [RespBulk ''a'', RespBulk ''bc'']))"
  by (rule reply_roundtrip) simp

text \<open>
  Two replies that \<^verbatim>\<open>EXEC\<close> cannot read back: the null bulk string, for which the reply
  parser hands out a value it never wrote, and a nested array as \<^verbatim>\<open>XRANGE\<close> returns it, whose
  inner headers and lengths it takes for bulk strings.
\<close>

theorem reply_parser_limits:
  "parseResponseToRespValue zeroed createNullBulkString = Ok None \<and>
   parseResponseToRespValue True
     (createXrangeResponse [\<lparr>entryId = ''1-1'', fieldValues = [(''f'', ''v'')]\<rparr>] 1) =
     Ok (Some (RespArray [RespBulk ''$3'']))"
proof
  show "parseResponseToRespValue zeroed createNullBulkString = Ok None"
    by (cases zeroed) code_simp+
  show "parseResponseToRespValue True
     (createXrangeResponse [\<lparr>entryId = ''1-1'', fieldValues = [(''f'', ''v'')]\<rparr>] 1) =
     Ok (Some (RespArray [RespBulk ''$3'']))"
    by code_simp
qed

section \<open>Replies of the stream commands\<close>

text \<open>The value an entry stands for in a reply.\<close>

definition entryValue :: "StreamEntry \<Rightarrow> RespValue" where
  "entryValue e =
     RespArray [RespBulk (entryId e),
       RespArray (concat (map (\<lambda>(f, v). [RespBulk f, RespBulk v]) (fieldValues e)))]"

definition infoValue :: "StreamInfo \<Rightarrow> RespValue" where
  "infoValue i =
     RespArray [RespBulk (infoKey i),
       RespArray (if infoCount i = Some 0 then [] else map entryValue (take 1 (infoEntries i)))]"

lemma buffer_appendFields:
  "buffer (appendFields b fvs) =
     buffer b @ concat (map encodeValue (concat (map (\<lambda>(f, v). [RespBulk f, RespBulk v]) fvs)))"
  by (induction fvs arbitrary: b) (auto simp: appendFields_def buffer_put)

lemma length_pairs: "length (concat (map (\<lambda>(f, v). [g f, g v]) fvs)) = 2 * length fvs"
  by (induction fvs) auto

lemma buffer_appendEntry: "buffer (appendEntry b e) = buffer b @ encodeValue (entryValue e)"
proof -
  have "''*2'' @ crlf = arrayHeader 2" by code_simp
  then show ?thesis
    by (simp add: appendEntry_def buffer_appendFields buffer_put entryValue_def length_pairs
        mult.commute numeral_2_eq_2)
qed

lemma buffer_appendStreamInfo:
  "buffer (appendStreamInfo b i) = buffer b @ encodeValue (infoValue i)"
proof -
  have "''*2'' @ crlf = arrayHeader 2" "''*1'' @ crlf = arrayHeader 1" "''*0'' @ crlf = arrayHeader 0"
    by code_simp+
  then show ?thesis
    by (cases "infoEntries i")
      (simp_all add: appendStreamInfo_def infoValue_def buffer_put buffer_appendEntry Let_def
        numeral_2_eq_2)
qed

text \<open>
  The reply of \<^verbatim>\<open>XRANGE\<close> is the encoding of the entries it is given: an array with, for
  each entry, its identifier and the flat array of its fields and values, to the byte.
\<close>

theorem createXrangeResponse_encode:
  "createXrangeResponse es (length es) = encodeValue (RespArray (map entryValue es))"
proof (cases "es = []")
  case True
  then show ?thesis by (simp add: createXrangeResponse_def createRespArray_eq encodeCommand_def)
next
  case False
  have "nul_free (concat (map (\<lambda>e. encodeValue (entryValue e)) es))"
    by (simp add: nul_free_concat list_all_iff)
  moreover have "buffer (foldl appendEntry b es) = buffer b @ concat (map (\<lambda>e. encodeValue (entryValue e)) es)" for b
    by (rule resp_sink.bytes_foldl) (rule buffer_appendEntry)
  ultimately show ?thesis
    using False by (simp add: createXrangeResponse_def bufferString_def buffer_put createRespBuffer_def o_def)
qed

text \<open>
  The reply of \<^verbatim>\<open>XREAD\<close> is the encoding of the streams it is given, but it holds only
  the first of the entries that were read from each stream, under a header of one: the other
  entries never reach the client.
\<close>

theorem createXreadResponse_first_entry:
  "createXreadResponse infos = encodeValue (RespArray (map infoValue infos)) \<and>
   createXreadResponse infos =
     createXreadResponse (map (\<lambda>i. i\<lparr>infoEntries := take 1 (infoEntries i)\<rparr>) infos)"
proof -
  have enc: "createXreadResponse is = encodeValue (RespArray (map infoValue is))" for "is"
  proof -
    have "nul_free (concat (map (\<lambda>i. encodeValue (infoValue i)) is))"
      by (simp add: nul_free_concat list_all_iff)
    moreover have "buffer (foldl appendStreamInfo b is) =
        buffer b @ concat (map (\<lambda>i. encodeValue (infoValue i)) is)" for b
      by (rule resp_sink.bytes_foldl) (rule buffer_appendStreamInfo)
    ultimately show ?thesis
      by (simp add: createXreadResponse_def bufferString_def buffer_put createRespBuffer_def o_def)
  qed
  have "infoValue (i\<lparr>infoEntries := take 1 (infoEntries i)\<rparr>) = infoValue i" for i
    by (simp add: infoValue_def)
  then show ?thesis by (simp add: enc o_def)
qed

end
