(* ===== verification/Growable.thy ===== *)
theory Growable
  imports CPrelude
begin

text \<open>
  The contract of an array that grows when it is full. The command queue of a client and the
  replica list of a master are two such arrays: each keeps a count of used slots and a
  capacity, enlarges the allocation before it writes past it, and then writes the next slot.
  \<open>slots\<close> are the used slots, \<open>room\<close> is the number of allocated ones, and \<open>stored\<close> is what
  is written for the argument of \<open>push\<close>; \<open>sized\<close> says which capacities occur.
\<close>

locale growable =
  fixes slots :: "'s \<Rightarrow> 'a list"
    and room :: "'s \<Rightarrow> nat"
    and push :: "'s \<Rightarrow> 'b \<Rightarrow> 's"
    and stored :: "'b \<Rightarrow> 'a"
    and initial :: nat
    and sized :: "nat \<Rightarrow> bool"
  assumes push_slots: "slots (push s x) = slots s @ [stored x]"
    and push_fits: "length (slots s) \<le> room s \<Longrightarrow> sized (room s) \<Longrightarrow>
      length (slots s) < room (push s x)"
    and push_room: "sized (room s) \<Longrightarrow> room (push s x) = room s \<or>
      room s \<le> length (slots s) \<and> room (push s x) = max initial (2 * room s)"
    and push_sized: "sized (room s) \<Longrightarrow> sized (room (push s x))"
begin

definition fits :: "'s \<Rightarrow> bool" where
  "fits s = (length (slots s) \<le> room s \<and> sized (room s))"

definition pushes :: "'s \<Rightarrow> 'b list \<Rightarrow> 's" where
  "pushes = foldl push"

lemma pushes_snoc [simp]: "pushes s (xs @ [x]) = push (pushes s xs) x"
  by (simp add: pushes_def)

lemma pushes_Nil [simp]: "pushes s [] = s"
  by (simp add: pushes_def)

lemma push_fits_again: "fits s \<Longrightarrow> fits (push s x)"
  using push_fits [of s x] push_sized [of s x] by (auto simp: fits_def push_slots)

lemma slots_pushes: "slots (pushes s xs) = slots s @ map stored xs"
  by (induction xs rule: rev_induct) (simp_all add: push_slots)

lemma pushes_fit: "fits s \<Longrightarrow> fits (pushes s xs)"
  by (induction xs rule: rev_induct) (simp_all add: push_fits_again)

lemma pushes_room:
  "room s \<le> max initial (2 * length (slots s)) \<Longrightarrow> fits s \<Longrightarrow>
   room (pushes s xs) \<le> max initial (2 * length (slots (pushes s xs)))"
proof (induction xs rule: rev_induct)
  case (snoc x xs)
  have "fits (pushes s xs)" by (rule pushes_fit [OF snoc.prems(2)])
  with snoc push_room [of "pushes s xs" x] show ?case
    by (auto simp: push_slots fits_def)
qed simp

end

end
