(* ===== verification/Command_Queue.thy ===== *)
theory Command_Queue
  imports Resp Growable
begin

text \<open>
  The queue of a transaction, \<^verbatim>\<open>src/app/command_queue.c\<close>. \<open>commands\<close> are the used slots (so
  the field \<^verbatim>\<open>size\<close> of the code is their number) and \<open>capacity\<close> is the number of slots of
  the allocation. A command is copied into the queue, because the caller frees it.
\<close>

record CommandQueue =
  commands :: "RespValue list"
  capacity :: nat

definition createCommandQueue :: CommandQueue where
  "createCommandQueue = \<lparr>commands = [], capacity = 0\<rparr>"

definition queueCommand :: "CommandQueue \<Rightarrow> RespValue \<Rightarrow> CommandQueue" where
  "queueCommand q command =
     (let q' = (if capacity q \<le> length (commands q)
                then q\<lparr>capacity := if capacity q = 0 then 4 else capacity q * 2\<rparr> else q)
      in q'\<lparr>commands := commands q' @ [cloneRespValue command]\<rparr>)"

definition clearCommandQueue :: "CommandQueue \<Rightarrow> CommandQueue" where
  "clearCommandQueue q = \<lparr>commands = [], capacity = 0\<rparr>"

interpretation queue: growable commands capacity queueCommand cloneRespValue 4 "\<lambda>n. n = 0 \<or> 4 \<le> n"
  by unfold_locales (auto simp: queueCommand_def Let_def)

lemma cloneRespValue_id [simp]: "cloneRespValue v = v"
  by (induction v rule: cloneRespValue.induct) (auto simp: map_idI)

text \<open>
  The queue of a transaction: after any number of \<^verbatim>\<open>queueCommand\<close> calls on a new queue it
  holds exactly the commands queued, in order; every slot was inside its allocation when it was
  written, and the allocation has at most twice the slots in use (four at least).
\<close>

theorem queue_in_order:
  "let q = foldl queueCommand createCommandQueue cmds in
   commands q = cmds \<and> length (commands q) \<le> capacity q \<and> capacity q \<le> max 4 (2 * length cmds)"
proof -
  have "queue.fits createCommandQueue"
    by (simp add: queue.fits_def createCommandQueue_def)
  then show ?thesis
    using queue.slots_pushes [of createCommandQueue cmds] queue.pushes_fit [of createCommandQueue cmds]
      queue.pushes_room [of createCommandQueue cmds]
    by (simp add: queue.pushes_def Let_def queue.fits_def createCommandQueue_def map_idI)
qed

end
