(* ===== verification/Replicas.thy ===== *)
theory Replicas
  imports Server_State Command_Queue
begin

text \<open>
  The replicas of a master, \<^verbatim>\<open>src/app/replicas.c\<close>. What \<^verbatim>\<open>write\<close> returns is a parameter:
  \<open>outcome n\<close> is the result of the \<open>n\<close>-th write of the call, a negative number for a failure,
  otherwise the number of bytes taken. The effects on descriptors are a list of events.
\<close>

datatype io_event =
    Wrote int string  \<comment> \<open>the bytes that reached a descriptor\<close>
  | Closed int        \<comment> \<open>a descriptor was closed\<close>

section \<open>The list of replicas\<close>

definition addReplicaSlot :: "Replicas \<Rightarrow> int \<Rightarrow> Replicas" where
  "addReplicaSlot rs fd =
     (let rs' = (if replica_capacity rs \<le> length (replicaList rs)
                 then rs\<lparr>replica_capacity := replica_capacity rs * 2\<rparr> else rs)
      in rs'\<lparr>replicaList := replicaList rs' @ [\<lparr>rfd = fd, ack_offset = 0\<rparr>]\<rparr>)"

definition withReplicas :: "RedisServer \<Rightarrow> (Replicas \<Rightarrow> 'a run) \<Rightarrow> 'a run" where
  "withReplicas server f =
     (case replicas (repl_info server) of None \<Rightarrow> Fault NullDeref | Some rs \<Rightarrow> f rs)"

definition setReplicas :: "RedisServer \<Rightarrow> Replicas option \<Rightarrow> RedisServer" where
  "setReplicas server rs = server\<lparr>repl_info := (repl_info server)\<lparr>replicas := rs\<rparr>\<rparr>"

definition addReplica :: "RedisServer \<Rightarrow> int \<Rightarrow> RedisServer run" where
  "addReplica server fd =
     withReplicas server (\<lambda>rs. Ok (setReplicas server (Some (addReplicaSlot rs fd))))"

text \<open>The first replica with the descriptor is removed, the later ones move down.\<close>

fun removeFd :: "int \<Rightarrow> Replica list \<Rightarrow> Replica list" where
  "removeFd fd [] = []"
| "removeFd fd (r # rs) = (if rfd r = fd then rs else r # removeFd fd rs)"

definition removeReplica :: "RedisServer \<Rightarrow> int \<Rightarrow> RedisServer run" where
  "removeReplica server fd =
     withReplicas server (\<lambda>rs.
       Ok (setReplicas server (Some (rs\<lparr>replicaList := removeFd fd (replicaList rs)\<rparr>))))"

lemma length_removeFd: "r \<in> set rs \<Longrightarrow> Suc (length (removeFd (rfd r) rs)) = length rs"
  by (induction rs) auto

section \<open>Propagation of a command\<close>

text \<open>
  The loop of \<^verbatim>\<open>propagateCommand\<close>: the index \<open>i\<close> stays where it is after a removal (\<^verbatim>\<open>i--\<close>,
  then \<^verbatim>\<open>i++\<close>), and the result of the write, also a negative one, is added to the offset.
\<close>

function propagateLoop ::
  "(nat \<Rightarrow> int) \<Rightarrow> string \<Rightarrow> nat \<Rightarrow> nat \<Rightarrow> Replica list \<Rightarrow> int \<Rightarrow> io_event list
     \<Rightarrow> Replica list \<times> int \<times> io_event list" where
  "propagateLoop outcome cmd n i rs off out =
     (if i < length rs then
        let fd = rfd (rs ! i); written = outcome n in
        if written < 0 then
          propagateLoop outcome cmd (Suc n) i (removeFd fd rs) (off + written) (out @ [Closed fd])
        else
          propagateLoop outcome cmd (Suc n) (Suc i) rs (off + written)
            (out @ [Wrote fd (take (nat written) cmd)])
      else (rs, off, out))"
  by pat_completeness auto
termination
proof (relation "measure (\<lambda>(outcome, cmd, n, i, rs, off, out). length rs - i)", goal_cases)
  case (2 outcome cmd n i rs off out fd written)
  then show ?case using length_removeFd [of "rs ! i" rs] by auto
qed auto

declare propagateLoop.simps [simp del]

definition propagateCommand ::
  "(nat \<Rightarrow> int) \<Rightarrow> RedisServer \<Rightarrow> RespValue \<Rightarrow> (RedisServer \<times> io_event list) run" where
  "propagateCommand outcome server command =
     bind_run (commandElements command) (\<lambda>es.
       withReplicas server (\<lambda>rs.
         let (l, off, out) = propagateLoop outcome (createRespArrayFromElements es) 0 0
                               (replicaList rs) (repl_offset (repl_info server)) [] in
         Ok (server\<lparr>repl_info := (repl_info server)
               \<lparr>replicas := Some (rs\<lparr>replicaList := l\<rparr>), repl_offset := off\<rparr>\<rparr>, out)))"

definition freeReplicas :: "RedisServer \<Rightarrow> (RedisServer \<times> io_event list) run" where
  "freeReplicas server =
     withReplicas server (\<lambda>rs.
       Ok (setReplicas server None, map (\<lambda>r. Closed (rfd r)) (replicaList rs)))"

section \<open>The list\<close>


interpretation replica_list:
  growable replicaList replica_capacity addReplicaSlot "\<lambda>fd. \<lparr>rfd = fd, ack_offset = 0\<rparr>"
    INITIAL_REPLICA_CAPACITY "\<lambda>n. INITIAL_REPLICA_CAPACITY \<le> n"
  by unfold_locales (auto simp: addReplicaSlot_def Let_def INITIAL_REPLICA_CAPACITY_def)

lemma addReplica_Ok:
  assumes "wf_server server" and "is_master server"
  obtains rs where "replicas (repl_info server) = Some rs"
    and "addReplica server fd = Ok (setReplicas server (Some (addReplicaSlot rs fd)))"
    and "wf_server (setReplicas server (Some (addReplicaSlot rs fd)))"
proof -
  from assms obtain rs where rs: "replicas (repl_info server) = Some rs"
    and f: "replica_list.fits rs"
    by (auto simp: wf_server_def wf_repl_def is_master_def replica_list.fits_def split: option.splits)
  have "replica_list.fits (addReplicaSlot rs fd)" by (rule replica_list.push_fits_again [OF f])
  with that [of rs] rs assms show ?thesis
    by (auto simp: addReplica_def withReplicas_def setReplicas_def wf_server_def wf_repl_def is_master_def
        replica_list.fits_def)
qed

text \<open>
  Registering replicas: on a well-formed master any number of \<^verbatim>\<open>addReplica\<close> calls
  succeeds, the new descriptors are appended in order with acknowledged offset 0, nothing else
  of the server changes, and the list stays inside its allocation.
\<close>

theorem addReplica_sequence:
  assumes "wf_server server" and "replicas (repl_info server) = Some rs"
  shows "\<exists>rs'. foldl (\<lambda>s fd. bind_run s (\<lambda>s. addReplica s fd)) (Ok server) fds = Ok (setReplicas server (Some rs')) \<and>
    replicaList rs' = replicaList rs @ map (\<lambda>fd. \<lparr>rfd = fd, ack_offset = 0\<rparr>) fds \<and>
    length (replicaList rs') \<le> replica_capacity rs'"
proof -
  have "foldl (\<lambda>s fd. bind_run s (\<lambda>s. addReplica s fd)) (Ok server) fds =
      Ok (setReplicas server (Some (replica_list.pushes rs fds)))"
    using assms(2)
    by (induction fds rule: rev_induct) (simp_all add: setReplicas_def addReplica_def withReplicas_def)
  moreover have "replica_list.fits rs"
    using assms by (auto simp: wf_server_def wf_repl_def replica_list.fits_def)
  ultimately show ?thesis
    using replica_list.slots_pushes replica_list.pushes_fit by (auto simp: replica_list.fits_def)
qed

section \<open>What a propagation does\<close>

lemma removeFd_middle: "rfd r \<notin> rfd ` set as \<Longrightarrow> removeFd (rfd r) (as @ r # bs) = as @ bs"
  by (induction as) auto

lemma propagateLoop_step:
  "propagateLoop outcome cmd n (length as) (as @ r # bs) off out =
     (if outcome n < 0 then
        propagateLoop outcome cmd (Suc n) (length as) (removeFd (rfd r) (as @ r # bs)) (off + outcome n)
          (out @ [Closed (rfd r)])
      else
        propagateLoop outcome cmd (Suc n) (length (as @ [r])) ((as @ [r]) @ bs) (off + outcome n)
          (out @ [Wrote (rfd r) (take (nat (outcome n)) cmd)]))"
  by (subst propagateLoop.simps) (simp add: Let_def)

lemma propagateLoop_end: "propagateLoop outcome cmd n (length as) as off out = (as, off, out)"
  by (subst propagateLoop.simps) simp

text \<open>The replicas that survive, and the events of the writes, replica by replica.\<close>

fun survivors :: "(nat \<Rightarrow> int) \<Rightarrow> nat \<Rightarrow> Replica list \<Rightarrow> Replica list" where
  "survivors outcome n [] = []"
| "survivors outcome n (r # rs) =
     (if outcome n < 0 then survivors outcome (Suc n) rs else r # survivors outcome (Suc n) rs)"

fun deliveries :: "(nat \<Rightarrow> int) \<Rightarrow> string \<Rightarrow> nat \<Rightarrow> Replica list \<Rightarrow> io_event list" where
  "deliveries outcome cmd n [] = []"
| "deliveries outcome cmd n (r # rs) =
     (if outcome n < 0 then Closed (rfd r) else Wrote (rfd r) (take (nat (outcome n)) cmd)) #
       deliveries outcome cmd (Suc n) rs"

lemma upt_cons: "[n..<n + length (r # rs)] = n # [Suc n..<Suc n + length rs]"
  by (subst upt_rec) simp

lemma propagateLoop_eq:
  "distinct (map rfd (as @ rs)) \<Longrightarrow>
   propagateLoop outcome cmd n (length as) (as @ rs) off out =
     (as @ survivors outcome n rs, off + sum_list (map outcome [n..<n + length rs]),
      out @ deliveries outcome cmd n rs)"
proof (induction rs arbitrary: n as off out)
  case (Cons r rs)
  have d: "distinct (map rfd (as @ rs))" "distinct (map rfd ((as @ [r]) @ rs))"
    and m: "removeFd (rfd r) (as @ r # rs) = as @ rs"
    using Cons.prems by (auto intro: removeFd_middle)
  have u: "[n..<n + length (r # rs)] = n # [Suc n..<Suc n + length rs]"
    by (rule upt_cons)
  show ?case
    unfolding propagateLoop_step m u
    using Cons.IH [OF d(1), of "Suc n"] Cons.IH [OF d(2), of "Suc n"]
    by (simp add: algebra_simps)
qed (simp add: propagateLoop_end)

lemma sum_outcomes: "(\<And>k. outcome k = c) \<Longrightarrow> sum_list (map outcome [0..<m]) = int m * c"
  by (induction m) (simp_all add: distrib_right)


definition example_master :: RedisServer where
  "example_master =
     \<lparr>bindaddr = ''127.0.0.1'', port = 6379, tcp_backlog = 511, clients_count = 0, db = example_store,
      dir = ''/tmp'', filename = ''dump.rdb'',
      repl_info = \<lparr>master_info = None, replication_id = REPLICATION_ID, repl_offset = 100,
        replicas = Some \<lparr>replicaList = [\<lparr>rfd = 7, ack_offset = 0\<rparr>, \<lparr>rfd = 8, ack_offset = 0\<rparr>, \<lparr>rfd = 9, ack_offset = 0\<rparr>],
                         replica_capacity = 16\<rparr>\<rparr>,
      total_commands_processed = 0, keyspace_hits = 0, keyspace_misses = 0\<rparr>"

lemma example_master_wf: "wf_server example_master"
  by code_simp

theorem addReplica_sequence_witness:
  "\<exists>rs'. foldl (\<lambda>s fd. bind_run s (\<lambda>s. addReplica s fd)) (Ok example_master) [3, 4] =
      Ok (setReplicas example_master (Some rs')) \<and> map rfd (replicaList rs') = [7, 8, 9, 3, 4]"
  using addReplica_sequence [OF example_master_wf, of _ "[3, 4]"]
  by (force simp: example_master_def)


text \<open>
  When every write takes the whole command, each replica receives exactly the serialised
  command, the list of replicas is unchanged, and the replication offset of the master grows
  by the length of the command times the number of replicas (a replica counts it once).
\<close>

theorem propagateCommand_offset:
  assumes "replicas (repl_info server) = Some rs" and "distinct (map rfd (replicaList rs))"
    and "\<And>n. outcome n = int (length (createRespArrayFromElements es))"
  shows "\<exists>server'. propagateCommand outcome server (RespArray es) =
      Ok (server', map (\<lambda>r. Wrote (rfd r) (createRespArrayFromElements es)) (replicaList rs)) \<and>
    replicas (repl_info server') = Some rs \<and>
    repl_offset (repl_info server') = repl_offset (repl_info server) +
      int (length (replicaList rs)) * int (length (createRespArrayFromElements es))"
proof -
  have "survivors outcome n l = l" "deliveries outcome (createRespArrayFromElements es) n l =
      map (\<lambda>r. Wrote (rfd r) (createRespArrayFromElements es)) l" for n l
    by (induction l arbitrary: n) (simp_all add: assms(3))
  moreover have "sum_list (map outcome [0..<length (replicaList rs)]) =
      int (length (replicaList rs)) * int (length (createRespArrayFromElements es))"
    using assms(3) by (rule sum_outcomes)
  ultimately show ?thesis
    using assms(1) propagateLoop_eq [of "[]" "replicaList rs" outcome _ 0] assms(2)
    by (simp add: propagateCommand_def withReplicas_def Let_def)
qed

theorem propagateCommand_offset_witness:
  "\<exists>server'. propagateCommand (\<lambda>n. 14) example_master (RespArray [RespBulk ''PING'']) =
      Ok (server', map (\<lambda>fd. Wrote fd (''*1'' @ crlf @ ''$4'' @ crlf @ ''PING'' @ crlf)) [7, 8, 9]) \<and>
      repl_offset (repl_info server') = 142"
proof -
  have c: "createRespArrayFromElements [RespBulk ''PING''] = ''*1'' @ crlf @ ''$4'' @ crlf @ ''PING'' @ crlf"
    by code_simp
  show ?thesis
    using propagateCommand_offset [of example_master _ "\<lambda>n. 14" "[RespBulk ''PING'']"]
    by (force simp: example_master_def c crlf_def)
qed

end
