(* ===== verification/Networking.thy ===== *)
theory Networking
  imports Replicas
begin

text \<open>
  The socket helpers, \<^verbatim>\<open>src/app/networking.c\<close>. The operating system is a parameter. What
  arrives on a connection is a list of chunks: a read returns at most one of them, cut to the
  size asked for; after the last one the peer has closed the connection. What \<^verbatim>\<open>write\<close> and
  \<^verbatim>\<open>send\<close> return is given call by call. Descriptors are integers, and a negative one is
  the failure of the call that should have returned it.
\<close>

section \<open>Reading\<close>

datatype chunk = Bytes string | ReadFail

text \<open>\<^verbatim>\<open>read (fd, buffer, n)\<close>: what remains, and the bytes (none at the end), or an error.\<close>

fun sysread :: "nat \<Rightarrow> chunk list \<Rightarrow> chunk list \<times> string option" where
  "sysread n [] = ([], Some [])"
| "sysread n (ReadFail # cs) = (cs, None)"
| "sysread n (Bytes s # cs) =
     (if length s \<le> n then (cs, Some s) else (Bytes (drop n s) # cs, Some (take n s)))"

text \<open>The number of bytes and chunks still to come, which every read but an empty one lowers.\<close>

fun pending :: "chunk list \<Rightarrow> nat" where
  "pending [] = 0"
| "pending (ReadFail # cs) = Suc (pending cs)"
| "pending (Bytes s # cs) = Suc (length s) + pending cs"

lemma sysread_pending:
  "sysread n cs = (cs', Some s) \<Longrightarrow> s \<noteq> [] \<Longrightarrow> 0 < n \<Longrightarrow> pending cs' < pending cs"
  by (induction n cs rule: sysread.induct) (auto split: if_splits)

lemma sysread_length: "sysread n cs = (cs', Some s) \<Longrightarrow> length s \<le> n"
  by (induction n cs rule: sysread.induct) (auto split: if_splits)

text \<open>
  The loop of \<^verbatim>\<open>readExactly\<close>, from \<open>tot\<close> bytes on; the buffer is what was stored so far.
\<close>

function readLoop :: "nat \<Rightarrow> string \<Rightarrow> chunk list \<Rightarrow> chunk list \<times> string option" where
  "readLoop n buf cs =
     (if length buf < n then
        (case sysread (n - length buf) cs of
           (cs', Some s) \<Rightarrow> if s = [] then (cs', None) else readLoop n (buf @ s) cs'
         | (cs', None) \<Rightarrow> (cs', None))
      else (cs, Some buf))"
  by pat_completeness auto
termination
  by (relation "measure (\<lambda>(n, buf, cs). pending cs)") (auto dest: sysread_pending [OF sym])

declare readLoop.simps [simp del]

text \<open>\<open>None\<close> is the result -1; \<open>Some\<close> holds the bytes stored in the buffer.\<close>

definition readExactly :: "int \<Rightarrow> nat \<Rightarrow> chunk list \<Rightarrow> chunk list \<times> string option" where
  "readExactly fd n cs = (if fd < 0 \<or> n = 0 then (cs, None) else readLoop n [] cs)"

text \<open>The loop of \<^verbatim>\<open>readLine\<close>, byte by byte, up to a CR LF or \<^verbatim>\<open>max_len - 1\<close> bytes.\<close>

function lineLoop :: "nat \<Rightarrow> string \<Rightarrow> chunk list \<Rightarrow> chunk list \<times> string option" where
  "lineLoop m buf cs =
     (if length buf < m then
        (case sysread 1 cs of
           (cs', Some s) \<Rightarrow>
             if s = [] then (cs', None)
             else
               let buf' = buf @ s in
               if hd s = LF \<and> 2 \<le> length buf' \<and> buf' ! (length buf' - 2) = CR then (cs', Some buf')
               else lineLoop m buf' cs'
         | (cs', None) \<Rightarrow> (cs', None))
      else (cs, Some buf))"
  by pat_completeness auto
termination
  by (relation "measure (\<lambda>(m, buf, cs). pending cs)") (auto dest: sysread_pending [OF sym])

declare lineLoop.simps [simp del]

definition readLine :: "int \<Rightarrow> nat \<Rightarrow> chunk list \<Rightarrow> chunk list \<times> string option" where
  "readLine fd max_len cs = (if fd < 0 \<or> max_len \<le> 1 then (cs, None) else lineLoop (max_len - 1) [] cs)"

section \<open>Writing\<close>

text \<open>
  \<open>outcome k\<close> is what the \<open>k\<close>-th call of \<^verbatim>\<open>write\<close> would take when there is room for
  everything; the call takes no more than it is given. The result is the bytes that were sent
  and whether the call returns 0.
\<close>

function writeLoop :: "(nat \<Rightarrow> int) \<Rightarrow> nat \<Rightarrow> string \<Rightarrow> nat \<Rightarrow> string \<times> bool" where
  "writeLoop outcome k data tot =
     (if tot < length data then
        let taken = min (outcome k) (int (length data - tot)) in
        if taken \<le> 0 then (take tot data, False)
        else writeLoop outcome (Suc k) data (tot + nat taken)
      else (take tot data, True))"
  by pat_completeness auto
termination
  by (relation "measure (\<lambda>(oc, k, data, tot). length data - tot)") auto

declare writeLoop.simps [simp del]

definition writeExactly :: "(nat \<Rightarrow> int) \<Rightarrow> int \<Rightarrow> string \<Rightarrow> string \<times> bool" where
  "writeExactly outcome fd data = (if fd < 0 \<or> data = [] then ([], False) else writeLoop outcome 0 data 0)"

text \<open>
  \<^verbatim>\<open>sendReply\<close> makes one call of \<^verbatim>\<open>send\<close>, which fails or takes at most \<open>room\<close> bytes, and
  does not retry a partial one. The reply is a C string.
\<close>

definition sendReply :: "int \<Rightarrow> int \<Rightarrow> string \<Rightarrow> io_event list \<times> bool" where
  "sendReply room fd reply =
     (if fd < 0 then ([], False)
      else
        let len = length (cstr reply); sent = min room (int len) in
        if sent < 0 then ([], False)
        else if sent < int len then ([Wrote fd (take (nat sent) (cstr reply))], False)
        else ([Wrote fd (cstr reply)], True))"

definition closeClientConnection :: "RedisServer \<Rightarrow> int \<Rightarrow> RedisServer \<times> io_event list" where
  "closeClientConnection s fd =
     (if fd < 0 then (s, [])
      else (if 0 < clients_count s then s\<lparr>clients_count := clients_count s - 1\<rparr> else s, [Closed fd]))"

section \<open>Sockets\<close>

text \<open>
  The results of the system calls: a descriptor for \<^verbatim>\<open>socket\<close> and \<^verbatim>\<open>accept\<close>, the status
  of the others, and whether \<^verbatim>\<open>inet_pton\<close> accepts an address.
\<close>

record SocketCalls =
  socketR :: int
  setsockoptR :: int
  inet_ptonR :: "string \<Rightarrow> int"
  bindR :: int
  listenR :: int
  connectR :: int
  acceptR :: int
  getflR :: int
  setflR :: int

text \<open>\<open>None\<close> for -1; otherwise the descriptor stored in \<^verbatim>\<open>server->fd\<close>.\<close>

definition initServerSocket :: "SocketCalls \<Rightarrow> RedisServer \<Rightarrow> io_event list \<times> int option" where
  "initServerSocket sys s =
     (let fd = socketR sys in
      if fd = - 1 then ([], None)
      else if setsockoptR sys < 0 then ([Closed fd], None)
      else if inet_ptonR sys (bindaddr s) \<le> 0 then ([Closed fd], None)
      else if bindR sys < 0 then ([Closed fd], None)
      else if listenR sys < 0 then ([Closed fd], None)
      else ([], Some fd))"

definition acceptClient :: "SocketCalls \<Rightarrow> io_event list \<times> int option" where
  "acceptClient sys =
     (let fd = acceptR sys in
      if fd < 0 then ([], None)
      else if getflR sys = - 1 then ([Closed fd], None)
      else if setflR sys = - 1 then ([Closed fd], None)
      else ([], Some fd))"

definition connectToHost :: "SocketCalls \<Rightarrow> string \<Rightarrow> int \<Rightarrow> io_event list \<times> int option" where
  "connectToHost sys host p =
     (if p \<le> 0 then ([], None)
      else
        let ip = (if host = ''localhost'' then ''127.0.0.1'' else host); fd = socketR sys in
        if fd < 0 then ([], None)
        else if inet_ptonR sys ip \<le> 0 then ([Closed fd], None)
        else if connectR sys < 0 then ([Closed fd], None)
        else ([], Some fd))"

section \<open>Reads and the bytes of the connection\<close>

text \<open>The bytes that arrive before an error, whatever the chunks are; no chunk is empty.\<close>

fun flat :: "chunk list \<Rightarrow> string" where
  "flat [] = []"
| "flat (Bytes s # cs) = s @ flat cs"
| "flat (ReadFail # cs) = []"

definition chunks_ok :: "chunk list \<Rightarrow> bool" where
  "chunks_ok cs = list_all (\<lambda>c. c \<noteq> Bytes []) cs"

lemma sysread_flat:
  assumes "chunks_ok cs" and "flat cs \<noteq> []" and "0 < n"
  obtains s cs' where "sysread n cs = (cs', Some s)" and "s \<noteq> []" and "length s \<le> n"
    and "flat cs = s @ flat cs'" and "chunks_ok cs'"
proof (cases cs)
  case (Cons c cs2)
  with assms(2) obtain s where c: "c = Bytes s" by (cases c) auto
  show ?thesis
  proof (cases "length s \<le> n")
    case True
    with that [of cs2 s] Cons c assms show ?thesis by (auto simp: chunks_ok_def)
  next
    case False
    with that [of "Bytes (drop n s) # cs2" "take n s"] Cons c assms show ?thesis
      by (auto simp: chunks_ok_def simp flip: append_assoc)
  qed
qed (use assms in simp)

lemma readLoop_flat:
  assumes "chunks_ok cs" and "length buf \<le> n" and "n \<le> length buf + length (flat cs)"
  shows "\<exists>cs'. readLoop n buf cs = (cs', Some (buf @ take (n - length buf) (flat cs))) \<and>
    flat cs' = drop (n - length buf) (flat cs) \<and> chunks_ok cs'"
  using assms
proof (induction n buf cs rule: readLoop.induct)
  case (1 n buf cs)
  show ?case
  proof (cases "length buf < n")
    case True
    then obtain s cs' where s: "sysread (n - length buf) cs = (cs', Some s)" "s \<noteq> []" "length s \<le> n - length buf"
      "flat cs = s @ flat cs'" "chunks_ok cs'"
      using sysread_flat [of cs "n - length buf"] "1.prems" by (metis add.right_neutral leD length_0_conv zero_less_diff)
    have le: "length (buf @ s) \<le> n" "n \<le> length (buf @ s) + length (flat cs')" using s "1.prems" True by auto
    obtain cs2 where "readLoop n (buf @ s) cs' = (cs2, Some ((buf @ s) @ take (n - length (buf @ s)) (flat cs')))"
      "flat cs2 = drop (n - length (buf @ s)) (flat cs')" "chunks_ok cs2"
      using "1.IH" [OF True s(1) [symmetric] refl s(2) s(5) le] by blast
    with True s show ?thesis by (subst readLoop.simps) simp
  next
    case False
    with "1.prems" show ?thesis by (subst readLoop.simps) simp
  qed
qed

lemma lineLoop_step:
  assumes "chunks_ok cs" and "flat cs = c # t" and "length buf < m"
  obtains cs' where "flat cs' = t" and "chunks_ok cs'"
    and "lineLoop m buf cs =
      (if c = LF \<and> buf \<noteq> [] \<and> last buf = CR then (cs', Some (buf @ [c])) else lineLoop m (buf @ [c]) cs')"
proof -
  obtain s cs' where s: "sysread 1 cs = (cs', Some s)" "s \<noteq> []" "length s \<le> 1" "flat cs = s @ flat cs'" "chunks_ok cs'"
    using sysread_flat [of cs 1] assms(1,2) by (metis list.distinct(1) zero_less_one)
  then have c: "s = [c]" "flat cs' = t" using assms(2) by (cases s; simp)+
  have "lineLoop m buf cs =
      (if c = LF \<and> buf \<noteq> [] \<and> last buf = CR then (cs', Some (buf @ [c])) else lineLoop m (buf @ [c]) cs')"
    using s(1) assms(3) by (subst lineLoop.simps, cases buf rule: rev_cases) (auto simp: c(1) Let_def nth_append)
  with that [OF c(2) s(5)] show ?thesis .
qed

lemma lineLoop_flat:
  assumes "chunks_ok cs" and "flat cs = l @ crlf @ t" and "CR \<notin> set l"
    and "length buf + length l + 2 \<le> m" and "buf = [] \<or> last buf \<noteq> CR"
  shows "\<exists>cs'. lineLoop m buf cs = (cs', Some (buf @ l @ crlf)) \<and> flat cs' = t \<and> chunks_ok cs'"
  using assms
proof (induction l arbitrary: buf cs)
  case Nil
  then have f: "flat cs = CR # LF # t" "length buf < m" "length (buf @ [CR]) < m" by (auto simp: crlf_def)
  obtain cs1 where 1: "flat cs1 = LF # t" "chunks_ok cs1" "lineLoop m buf cs = lineLoop m (buf @ [CR]) cs1"
    using lineLoop_step [OF Nil.prems(1) f(1,2)] by auto
  obtain cs2 where "flat cs2 = t" "chunks_ok cs2" "lineLoop m (buf @ [CR]) cs1 = (cs2, Some ((buf @ [CR]) @ [LF]))"
    using lineLoop_step [OF 1(2,1) f(3)] by auto
  with 1(3) show ?case by (simp add: crlf_def)
next
  case (Cons c l)
  have f: "flat cs = c # l @ crlf @ t" "length buf < m" using Cons.prems by auto
  obtain cs1 where 1: "flat cs1 = l @ crlf @ t" "chunks_ok cs1"
    "lineLoop m buf cs = (if c = LF \<and> buf \<noteq> [] \<and> last buf = CR then (cs1, Some (buf @ [c])) else lineLoop m (buf @ [c]) cs1)"
    using lineLoop_step [OF Cons.prems(1) f] by blast
  have "\<exists>cs'. lineLoop m (buf @ [c]) cs1 = (cs', Some ((buf @ [c]) @ l @ crlf)) \<and> flat cs' = t \<and> chunks_ok cs'"
    using Cons.prems by (intro Cons.IH [OF 1(2,1)]) auto
  with 1(3) Cons.prems(5) show ?case by auto
qed

section \<open>Properties\<close>

lemma writeLoop_prefix:
  "tot \<le> length data \<Longrightarrow>
   \<exists>n. tot \<le> n \<and> n \<le> length data \<and> fst (writeLoop oc k data tot) = take n data \<and>
     snd (writeLoop oc k data tot) = (n = length data)"
proof (induction oc k data tot rule: writeLoop.induct)
  case (1 oc k data tot)
  show ?case
  proof (cases "tot < length data \<and> 0 < min (oc k) (int (length data - tot))")
    case True
    let ?t = "tot + nat (min (oc k) (int (length data - tot)))"
    have "?t \<le> length data" using True by linarith
    then obtain n where "?t \<le> n" "n \<le> length data" "fst (writeLoop oc (Suc k) data ?t) = take n data"
      "snd (writeLoop oc (Suc k) data ?t) = (n = length data)" using "1.IH" [OF _ refl] True by (metis leD)
    with True show ?thesis by (subst (1 2) writeLoop.simps) (auto simp: Let_def intro!: exI [of _ n])
  next
    case False
    with "1.prems" show ?thesis
      by (subst (1 2) writeLoop.simps) (auto simp: Let_def not_less intro!: exI [of _ tot])
  qed
qed

lemma writeLoop_all:
  assumes pos: "\<And>k. 0 < oc k"
  shows "tot \<le> length data \<Longrightarrow> writeLoop oc k data tot = (data, True)"
  using pos
proof (induction oc k data tot rule: writeLoop.induct)
  case (1 oc k data tot)
  let ?m = "min (oc k) (int (length data - tot))"
  show ?case
  proof (cases "tot < length data")
    case True
    have m: "\<not> ?m \<le> 0" using "1.prems"(2) [of k] True by linarith
    have "tot + nat ?m \<le> length data" using True by linarith
    then have ih: "writeLoop oc (Suc k) data (tot + nat ?m) = (data, True)"
      by (rule "1.IH" [OF True refl m]) (rule "1.prems"(2))
    have "writeLoop oc k data tot = writeLoop oc (Suc k) data (tot + nat ?m)"
      by (subst writeLoop.simps) (simp only: Let_def True m if_True if_False)
    then show ?thesis by (simp only: ih)
  next
    case False
    then show ?thesis using "1.prems"(1) by (subst writeLoop.simps) simp
  qed
qed

text \<open>
  \<^verbatim>\<open>writeExactly\<close> returns for every sequence of results of \<^verbatim>\<open>write\<close>, and what reaches the
  peer is a prefix of the data, each byte once and in order; the call reports success exactly
  when the prefix is the whole of the data. When no call fails it does succeed.
\<close>

theorem writeExactly_prefix:
  assumes "0 \<le> fd" and "data \<noteq> []"
  shows "(\<exists>n \<le> length data. writeExactly outcome fd data = (take n data, n = length data)) \<and>
    ((\<forall>k. 0 < outcome k) \<longrightarrow> writeExactly outcome fd data = (data, True))"
proof -
  have eq: "writeExactly outcome fd data = writeLoop outcome 0 data 0" using assms by (simp add: writeExactly_def)
  obtain n where n: "n \<le> length data" and f: "fst (writeLoop outcome 0 data 0) = take n data"
    and s: "snd (writeLoop outcome 0 data 0) = (n = length data)"
    using writeLoop_prefix [of 0 data outcome 0] by blast
  have "writeLoop outcome 0 data 0 = (take n data, n = length data)" by (rule prod_eqI) (simp_all only: f s fst_conv snd_conv)
  with n have "\<exists>n \<le> length data. writeLoop outcome 0 data 0 = (take n data, n = length data)" by blast
  moreover have "(\<forall>k. 0 < outcome k) \<longrightarrow> writeLoop outcome 0 data 0 = (data, True)"
    by (intro impI writeLoop_all) simp_all
  ultimately show ?thesis unfolding eq by (rule conjI)
qed

theorem writeExactly_prefix_witness:
  "writeExactly (\<lambda>k. 2) 3 ''PING'' = (''PING'', True)"
  using writeExactly_prefix [of 3 "''PING''" "\<lambda>k. 2"] by simp

text \<open>
  C34. \<^verbatim>\<open>readLine\<close> and \<^verbatim>\<open>readExactly\<close> do not depend on how the bytes are cut into reads: on a
  connection that delivers a line without a CR, ended by CR LF and shorter than the buffer,
  then at least \<open>n\<close> bytes, the line is returned with its end and then exactly the next \<open>n\<close>
  bytes, and nothing else is consumed.
\<close>

theorem reads_are_chunking_independent:
  assumes "chunks_ok cs" and "flat cs = l @ crlf @ d @ t" and "CR \<notin> set l" and "length l + 2 < max_len"
    and "0 \<le> fd" and "d \<noteq> []"
  shows "\<exists>cs1 cs2. readLine fd max_len cs = (cs1, Some (l @ crlf)) \<and>
    readExactly fd (length d) cs1 = (cs2, Some d) \<and> flat cs2 = t \<and> chunks_ok cs2"
proof -
  have room: "Suc (Suc (length l)) \<le> max_len - Suc 0" using assms(4) by simp
  obtain cs1 where 1: "lineLoop (max_len - 1) [] cs = (cs1, Some (l @ crlf))" "flat cs1 = d @ t" "chunks_ok cs1"
    using lineLoop_flat [OF assms(1,2,3), of "[]" "max_len - 1"] room by auto
  obtain cs2 where "readLoop (length d) [] cs1 = (cs2, Some d)" "flat cs2 = t" "chunks_ok cs2"
    using readLoop_flat [OF 1(3), of "[]" "length d"] 1(2) by auto
  with 1 assms(4,5,6) show ?thesis by (auto simp: readLine_def readExactly_def)
qed

theorem reads_are_chunking_independent_witness:
  "\<exists>cs1 cs2. readLine 3 1024 [Bytes ''$3'', Bytes [CR], Bytes (LF # ''ab''), Bytes ''cd''] = (cs1, Some (''$3'' @ crlf)) \<and>
    readExactly 3 3 cs1 = (cs2, Some ''abc'') \<and> flat cs2 = ''d''"
  using reads_are_chunking_independent
    [of "[Bytes ''$3'', Bytes [CR], Bytes (LF # ''ab''), Bytes ''cd'']" "''$3''" "''abc''" "''d''" 1024 3]
  by (auto simp: chunks_ok_def crlf_def numeral_3_eq_3)

text \<open>
  A reply that \<^verbatim>\<open>send\<close> takes only in part is cut: the call reports -1 and the rest of the
  reply is never sent.
\<close>

lemma sendReply_partial:
  assumes "0 \<le> fd" and "0 \<le> room" and "room < int (length (cstr reply))"
  shows "sendReply room fd reply = ([Wrote fd (take (nat room) (cstr reply))], False)"
  using assms by (simp add: sendReply_def Let_def)

lemma sendReply_whole:
  "0 \<le> fd \<Longrightarrow> nul_free reply \<Longrightarrow> int (length reply) \<le> room \<Longrightarrow> sendReply room fd reply = ([Wrote fd reply], True)"
  by (simp add: sendReply_def Let_def min_def)

end
