(* ===== verification/Rdb.thy ===== *)
theory Rdb
  imports Resp
begin

text \<open>
  The reader of RDB files, \<^verbatim>\<open>src/app/rdb.c\<close>. An open file is the list of the bytes that
  remain to be read and the position the code counts. The file system is a parameter, from
  paths to contents. A short \<^verbatim>\<open>fread\<close> consumes what remains and stores nothing. The host is
  little-endian: \<^verbatim>\<open>ntohl\<close> reverses the bytes of a word, and a 64-bit word read as it is has
  its least significant byte first. Bytes and lengths are integers; the product that computes
  an expiry in seconds wraps at 32 bits.

  \<^verbatim>\<open>findDatabaseSection\<close> need not return; \<open>None\<close> is the search that goes on for ever. The
  loops over the entries return, because every round but the last consumes bytes.
\<close>

unbundle bit_operations_syntax

section \<open>Reading\<close>

record RdbReader =
  rest :: string
  pos :: nat

abbreviation byte :: "char \<Rightarrow> int" where
  "byte c \<equiv> of_char c"

abbreviation RDB_DATABASE_START :: int where "RDB_DATABASE_START \<equiv> 0xFE"
abbreviation RDB_HASHTABLE_SIZE :: int where "RDB_HASHTABLE_SIZE \<equiv> 0xFB"
abbreviation RDB_EXPIRE_SEC :: int where "RDB_EXPIRE_SEC \<equiv> 0xFD"
abbreviation RDB_EXPIRE_MS :: int where "RDB_EXPIRE_MS \<equiv> 0xFC"
abbreviation RDB_EOF :: int where "RDB_EOF \<equiv> 0xFF"

definition createRdbReader :: "(string \<Rightarrow> string option) \<Rightarrow> string \<Rightarrow> string \<Rightarrow> RdbReader option" where
  "createRdbReader fs d f = map_option (\<lambda>s. \<lparr>rest = s, pos = 0\<rparr>) (fs (d @ ''/'' @ f))"

text \<open>\<^verbatim>\<open>fread (p, 1, n, fp) == n\<close>: the bytes read, or nothing.\<close>

definition fread :: "nat \<Rightarrow> RdbReader \<Rightarrow> RdbReader \<times> string option" where
  "fread n r =
     (if length (rest r) < n then (r\<lparr>rest := []\<rparr>, None)
      else (r\<lparr>rest := drop n (rest r), pos := pos r + n\<rparr>, Some (take n (rest r))))"

definition readByte :: "RdbReader \<Rightarrow> RdbReader \<times> int" where
  "readByte r = (case fread 1 r of (r', None) \<Rightarrow> (r', 0) | (r', Some b) \<Rightarrow> (r', byte (hd b)))"

definition bigEndian :: "string \<Rightarrow> int" where
  "bigEndian s = foldl (\<lambda>a c. a * 256 + byte c) 0 s"

definition readUint32 :: "RdbReader \<Rightarrow> RdbReader \<times> int" where
  "readUint32 r = (case fread 4 r of (r', None) \<Rightarrow> (r', 0) | (r', Some b) \<Rightarrow> (r', bigEndian b))"

definition readUint64 :: "RdbReader \<Rightarrow> RdbReader \<times> int" where
  "readUint64 r = (case fread 8 r of (r', None) \<Rightarrow> (r', 0) | (r', Some b) \<Rightarrow> (r', bigEndian (rev b)))"

definition readLength :: "RdbReader \<Rightarrow> RdbReader \<times> int" where
  "readLength r =
     (let (r1, b) = readByte r; t = drop_bit 6 (b AND 0xC0) in
      if t = 0 then (r1, b AND 0x3F)
      else if t = 1 then (let (r2, b2) = readByte r1 in (r2, push_bit 8 (b AND 0x3F) OR b2))
      else if t = 2 then readUint32 r1
      else (r1, 0))"

text \<open>The string and \<^verbatim>\<open>*length\<close>.\<close>

definition readString :: "RdbReader \<Rightarrow> RdbReader \<times> string option \<times> int" where
  "readString r =
     (let (r1, n) = readLength r in
      if n = 0 then (r1, None, 0)
      else (case fread (nat n) r1 of
              (r2, None) \<Rightarrow> (r2, None, n)
            | (r2, Some s) \<Rightarrow> (r2, Some s, n)))"

text \<open>
  \<^verbatim>\<open>readEncodedString\<close>: the integers are printed; a 16- or 32-bit integer that the file
  does not hold is printed from an uninitialised variable. A string that is not an integer is
  read by \<^verbatim>\<open>readString\<close> from behind the byte that was looked at.
\<close>

definition readEncodedString :: "RdbReader \<Rightarrow> (RdbReader \<times> string option) run" where
  "readEncodedString r =
     (let (r1, b) = readByte r in
      if drop_bit 6 (b AND 0xC0) = 3 then
        if b = 0xC0 then (let (r2, v) = readByte r1 in Ok (r2, Some (show_int v)))
        else if b = 0xC1 then
          (case fread 2 r1 of
             (_, None) \<Rightarrow> Fault UninitRead
           | (r2, Some s) \<Rightarrow> Ok (r2, Some (show_int (bigEndian s))))
        else if b = 0xC2 then
          (case fread 4 r1 of
             (_, None) \<Rightarrow> Fault UninitRead
           | (r2, Some s) \<Rightarrow> Ok (r2, Some (show_int (signed_take_bit 31 (bigEndian s)))))
        else Ok (r1, None)
      else (let (r2, s, _) = readString r1 in Ok (r2, s)))"

definition validateHeader :: "RdbReader \<Rightarrow> RdbReader \<times> bool" where
  "validateHeader r =
     (case fread 5 r of
        (r1, None) \<Rightarrow> (r1, False)
      | (r1, Some magic) \<Rightarrow>
          if magic \<noteq> ''REDIS'' then (r1, False)
          else (case fread 4 r1 of
                  (r2, None) \<Rightarrow> (r2, False)
                | (r2, Some version) \<Rightarrow> (r2, version = ''0011'')))"

section \<open>The database section\<close>

text \<open>What follows the marker: the database number and, where present, the table sizes.\<close>

definition enterDatabase :: "RdbReader \<Rightarrow> RdbReader" where
  "enterDatabase r =
     (let (r1, _) = readLength r; (r2, b) = readByte r1 in
      if b = RDB_HASHTABLE_SIZE then fst (readLength (fst (readLength r2))) else r2)"

partial_function (option) findDatabaseSection :: "RdbReader \<Rightarrow> (RdbReader \<times> bool) option" where
  "findDatabaseSection r =
     (let (r1, t) = readByte r in
      if t = RDB_EOF then Some (r1, False)
      else if t = RDB_DATABASE_START then Some (enterDatabase r1, True)
      else findDatabaseSection r1)"

text \<open>The expiry in front of an entry, with the type that follows it.\<close>

definition readExpiry :: "RdbReader \<Rightarrow> int \<Rightarrow> RdbReader \<times> int \<times> int" where
  "readExpiry r t =
     (if t = RDB_EXPIRE_MS then
        (let (r1, e) = readUint64 r; (r2, t') = readByte r1 in (r2, e, t'))
      else if t = RDB_EXPIRE_SEC then
        (let (r1, e) = readUint32 r; (r2, t') = readByte r1 in (r2, (e * 1000) mod 2 ^ 32, t'))
      else (r, 0, t))"

definition skipRdbValue :: "RdbReader \<Rightarrow> RdbReader" where
  "skipRdbValue r = fst (readString r)"

section \<open>Progress of the reader\<close>

lemma fread_length: "length (rest (fst (fread n r))) \<le> length (rest r)"
  by (simp add: fread_def)

lemma readByte_length: "length (rest (fst (readByte r))) \<le> length (rest r)"
  using fread_length [of 1 r] by (auto simp: readByte_def split: prod.splits option.splits)

lemma readUint_length:
  "length (rest (fst (readUint32 r))) \<le> length (rest r)"
  "length (rest (fst (readUint64 r))) \<le> length (rest r)"
  using fread_length [of 4 r] fread_length [of 8 r]
  by (auto simp: readUint32_def readUint64_def split: prod.splits option.splits)

lemma readLength_length: "length (rest (fst (readLength r))) \<le> length (rest r)"
  using readByte_length [of r] readByte_length [of "fst (readByte r)"] readUint_length(1) [of "fst (readByte r)"]
  by (auto simp: readLength_def Let_def split: prod.splits)

lemma readString_length: "length (rest (fst (readString r))) \<le> length (rest r)"
  using readLength_length [of r] fread_length [of "nat (snd (readLength r))" "fst (readLength r)"]
  by (auto simp: readString_def Let_def split: prod.splits option.splits)

lemma byte_range: "0 \<le> byte c" "byte c < 256"
  using pos_mod_bound [of 256 "byte c"] pos_mod_sign [of 256 "byte c"] by simp_all

lemma bigEndian_nonneg: "0 \<le> bigEndian s"
proof -
  have "0 \<le> a \<Longrightarrow> 0 \<le> foldl (\<lambda>a c. a * 256 + byte c) a s" for a
    by (induction s arbitrary: a) (simp_all add: byte_range(1))
  then show ?thesis by (simp add: bigEndian_def)
qed

lemma readByte_range: "0 \<le> snd (readByte r)" "snd (readByte r) < 256"
  by (auto simp: readByte_def byte_range split: prod.splits option.splits)

lemma readLength_nonneg: "0 \<le> snd (readLength r)"
proof -
  have "0 \<le> snd (readUint32 r')" for r'
    by (auto simp: readUint32_def bigEndian_nonneg split: prod.splits option.splits)
  then show ?thesis
    using readByte_range(1) [of "fst (readByte r)"]
    by (auto simp: readLength_def Let_def or_nonnegative_int_iff split: prod.splits)
qed

lemma fread_Some:
  "fread n r = (r', Some s) \<longleftrightarrow>
    n \<le> length (rest r) \<and> r' = r\<lparr>rest := drop n (rest r), pos := pos r + n\<rparr> \<and> s = take n (rest r)"
  by (auto simp: fread_def)

lemma readString_progress:
  assumes "readString r = (r', Some s, n)"
  shows "length (rest r') < length (rest r)"
proof -
  obtain r1 m where r1: "readLength r = (r1, m)" by fastforce
  then have "0 \<le> m" "length (rest r1) \<le> length (rest r)"
    using readLength_nonneg [of r] readLength_length [of r] by auto
  with assms r1 show ?thesis
    by (auto simp: readString_def fread_Some split: prod.splits option.splits if_splits)
qed

lemma readExpiry_length: "length (rest (fst (readExpiry r t))) \<le> length (rest r)"
  using readByte_length [of "fst (readUint64 r)"] readByte_length [of "fst (readUint32 r)"] readUint_length [of r]
  by (auto simp: readExpiry_def Let_def split: prod.splits)

lemma entry_progress:
  assumes "(r1, t) = readByte r" and "(r2, e, t') = readExpiry r1 t" and "(r3, Some k, n) = readString r2"
  shows "length (rest r3) < length (rest r)"
  using readByte_length [of r] readExpiry_length [of r1 t] readString_progress [of r2 r3 k n] assms
  by (metis fst_conv le_less_trans less_le_trans)

section \<open>The loops over the entries\<close>

function getValueLoop :: "int \<Rightarrow> string \<Rightarrow> RdbReader \<Rightarrow> string option" where
  "getValueLoop now targetKey r =
     (let (r1, t) = readByte r in
      if t = RDB_EOF then None
      else
        let (r2, expiry, t') = readExpiry r1 t; (r3, keyStr, keyLen) = readString r2 in
        (case keyStr of
           None \<Rightarrow> None
         | Some k \<Rightarrow>
             if t' = 0 then
               let (r4, v, valueLen) = readString r3 in
               if k = targetKey then (if 0 < expiry \<and> expiry \<le> now then None else v)
               else getValueLoop now targetKey r4
             else getValueLoop now targetKey r3))"
  by pat_completeness auto
termination
proof (relation "measure (\<lambda>(now, k, r). length (rest r))", goal_cases)
  case (2 now targetKey r p1 r1 t p2 r2 p3 expiry t' p4 r3 p5 keyStr keyLen k p6 r4 p7 v valueLen)
  then have "length (rest r3) < length (rest r)" by (intro entry_progress [of r1 t r r2 expiry t' r3 k keyLen]) auto
  moreover have "length (rest r4) \<le> length (rest r3)" using 2 readString_length [of r3] by (metis fst_conv)
  ultimately show ?case by simp
next
  case (3 now targetKey r p1 r1 t p2 r2 p3 expiry t' p4 r3 p5 keyStr keyLen k)
  then have "length (rest r3) < length (rest r)" by (intro entry_progress [of r1 t r r2 expiry t' r3 k keyLen]) auto
  then show ?case by simp
qed auto

declare getValueLoop.simps [simp del]

function getKeysLoop :: "RdbReader \<Rightarrow> string list" where
  "getKeysLoop r =
     (let (r1, t) = readByte r in
      if t = RDB_EOF then []
      else
        let (r2, expiry, t') = readExpiry r1 t; (r3, keyStr, keyLen) = readString r2 in
        (case keyStr of
           None \<Rightarrow> []
         | Some k \<Rightarrow> k # getKeysLoop (if t' = 0 then skipRdbValue r3 else r3)))"
  by pat_completeness auto
termination
proof (relation "measure (\<lambda>r. length (rest r))", goal_cases)
  case (2 r p1 r1 t p2 r2 p3 expiry t' p4 r3 p5 keyStr keyLen k)
  then have "length (rest r3) < length (rest r)" by (intro entry_progress [of r1 t r r2 expiry t' r3 k keyLen]) auto
  then show ?case using readString_length [of r3] by (simp add: skipRdbValue_def)
qed auto

declare getKeysLoop.simps [simp del]

text \<open>
  \<open>None\<close> is a call that does not return, \<open>Some None\<close> the result NULL. The keys are the bulk
  strings that \<^verbatim>\<open>createRespString\<close> makes of them.
\<close>

definition withDatabase :: "'a \<Rightarrow> (RdbReader \<Rightarrow> 'a) \<Rightarrow> RdbReader \<Rightarrow> 'a option" where
  "withDatabase none f r =
     (let (r1, valid) = validateHeader r in
      if \<not> valid then Some none
      else map_option (\<lambda>(r2, found). if found then f r2 else none) (findDatabaseSection r1))"

definition getRdbValue :: "int \<Rightarrow> RdbReader \<Rightarrow> string \<Rightarrow> string option option" where
  "getRdbValue now r targetKey = withDatabase None (getValueLoop now targetKey) r"

definition getRdbKeys :: "RdbReader \<Rightarrow> RespValue list option option" where
  "getRdbKeys r = withDatabase None (\<lambda>r. Some (map createRespString (getKeysLoop r))) r"

section \<open>The format that the reader accepts\<close>

text \<open>
  Files as a writer lays them out: the header, metadata, one database with its sizes, the
  entries, the end marker and a trailer. An expiry is given by its eight bytes, the least
  significant first.
\<close>

datatype rdb_entry = RdbEntry (ekey: string) (evalue: string) (eexpiry: "string option")

definition encodeLength :: "nat \<Rightarrow> string" where
  "encodeLength n =
     (if n < 64 then [char_of n]
      else if n < 16384 then [char_of (64 + n div 256), char_of (n mod 256)]
      else [char_of (128 :: nat), char_of (n div 2 ^ 24), char_of (n div 2 ^ 16 mod 256),
            char_of (n div 2 ^ 8 mod 256), char_of (n mod 256)])"

definition encodeRdbString :: "string \<Rightarrow> string" where
  "encodeRdbString s = encodeLength (length s) @ s"

definition encodeEntry :: "rdb_entry \<Rightarrow> string" where
  "encodeEntry e =
     (case eexpiry e of None \<Rightarrow> [] | Some b \<Rightarrow> CHR 0xFC # b) @ NUL #
     encodeRdbString (ekey e) @ encodeRdbString (evalue e)"

definition rdbFile :: "string \<Rightarrow> nat \<Rightarrow> nat \<Rightarrow> nat \<Rightarrow> string \<Rightarrow> string" where
  "rdbFile aux dbnum entriesN expires body =
     ''REDIS0011'' @ aux @ CHR 0xFE # encodeLength dbnum @ CHR 0xFB # encodeLength entriesN @
     encodeLength expires @ body"

definition encodeRdb :: "string \<Rightarrow> nat \<Rightarrow> nat \<Rightarrow> nat \<Rightarrow> rdb_entry list \<Rightarrow> string \<Rightarrow> string" where
  "encodeRdb aux dbnum entriesN expires es trailer =
     rdbFile aux dbnum entriesN expires (concat (map encodeEntry es) @ CHR 0xFF # trailer)"

definition wf_entry :: "rdb_entry \<Rightarrow> bool" where
  "wf_entry e =
     (ekey e \<noteq> [] \<and> length (ekey e) < 2 ^ 32 \<and> length (evalue e) < 2 ^ 32 \<and>
      (case eexpiry e of None \<Rightarrow> True | Some b \<Rightarrow> length b = 8))"

definition expiryTime :: "rdb_entry \<Rightarrow> int" where
  "expiryTime e = (case eexpiry e of None \<Rightarrow> 0 | Some b \<Rightarrow> bigEndian (rev b))"

section \<open>Reading back what was written\<close>

abbreviation reader :: "string \<Rightarrow> nat \<Rightarrow> RdbReader" where
  "reader s p \<equiv> \<lparr>rest = s, pos = p\<rparr>"

lemma fread_append: "n = length a \<Longrightarrow> fread n (reader (a @ t) p) = (reader t (p + n), Some a)"
  by (simp add: fread_def)

lemma readByte_Cons: "readByte (reader (c # t) p) = (reader t (p + 1), byte c)"
  by (simp add: readByte_def fread_def)

lemma readUint32_bytes:
  "length b = 4 \<Longrightarrow> readUint32 (reader (b @ t) p) = (reader t (p + 4), bigEndian b)"
  by (simp add: readUint32_def fread_append)

lemma readUint64_bytes:
  "length b = 8 \<Longrightarrow> readUint64 (reader (b @ t) p) = (reader t (p + 8), bigEndian (rev b))"
  by (simp add: readUint64_def fread_append)

lemma top_bits:
  assumes "0 \<le> b" and "b < (256 :: int)"
  shows "drop_bit 6 (b AND 0xC0) = b div 64" and "b AND 0x3F = b mod 64"
proof -
  have "list_all (\<lambda>b. drop_bit 6 (b AND 0xC0) = b div 64 \<and> b AND 0x3F = b mod 64) [0..255 :: int]"
    by code_simp
  then show "drop_bit 6 (b AND 0xC0) = b div 64" "b AND 0x3F = b mod 64"
    using assms by (auto simp: list_all_iff)
qed

lemma push_or:
  assumes "0 \<le> b" and "b < (256 :: int)"
  shows "push_bit 8 a OR b = a * 256 + b"
proof -
  have b: "b = take_bit 8 b" using assms by (simp add: take_bit_int_eq_self)
  have "push_bit 8 a OR b = push_bit 8 a + b"
    by (rule disjunctive_add [symmetric]) (subst b, auto simp: bit_push_bit_iff bit_take_bit_iff)
  then show ?thesis by (simp add: push_bit_eq_mult)
qed

lemma byte_char_of: "byte (char_of n) = int (n mod 256)"
proof -
  have "byte (char_of n) = int (of_char (char_of n))" by (rule of_nat_of_char [symmetric])
  then show ?thesis by (simp only: of_char_of)
qed

lemma readLength_Cons:
  "readLength (reader (c # t) p) =
     (let r = reader t (p + 1); k = byte c div 64 in
      if k = 0 then (r, byte c mod 64)
      else if k = 1 then (let (r2, b) = readByte r in (r2, byte c mod 64 * 256 + b))
      else if k = 2 then readUint32 r
      else (r, 0))"
  using readByte_range [of "reader t (p + 1)"]
  unfolding readLength_def readByte_Cons Let_def prod.case top_bits [OF byte_range]
  by (auto simp: push_or split: prod.splits)

lemma readLength_14bit:
  assumes "64 \<le> n" and "n < 16384"
  shows "readLength (reader (encodeLength n @ t) p) = (reader t (p + length (encodeLength n)), int n)"
proof -
  define k where "k = n div 256"
  have k: "k < 64" using assms by (auto simp: k_def)
  have "(64 + int k) div 64 = 1" "(64 + int k) mod 64 = int k" using k by simp_all
  moreover have "int k * 256 + int (n mod 256) = int n"
    unfolding k_def by (simp add: zdiv_int zmod_int)
  ultimately show ?thesis
    using assms k by (simp add: encodeLength_def readLength_Cons readByte_Cons byte_char_of Let_def flip: k_def)
qed

lemma bigEndian_4:
  assumes "n < 2 ^ 32"
  shows "bigEndian [char_of (n div 2 ^ 24), char_of (n div 2 ^ 16 mod 256), char_of (n div 2 ^ 8 mod 256),
    char_of (n mod 256)] = int n"
proof -
  have a: "n div 16777216 < 256" using assms by auto
  have b: "n div 256 = n div 65536 * 256 + n div 256 mod 256"
    using div_mult_mod_eq [of "n div 256" 256] by (simp flip: div_mult2_eq)
  have c: "n div 65536 = n div 16777216 * 256 + n div 65536 mod 256"
    using div_mult_mod_eq [of "n div 65536" 256] by (simp flip: div_mult2_eq)
  have "int n = int (n div 256) * 256 + int (n mod 256)" by (simp add: zdiv_int zmod_int)
  with a b c show ?thesis
    unfolding bigEndian_def byte_char_of foldl.simps by simp
qed

lemma readLength_encode:
  assumes "n < 2 ^ 32"
  shows "readLength (reader (encodeLength n @ t) p) = (reader t (p + length (encodeLength n)), int n)"
proof -
  consider "n < 64" | "64 \<le> n" "n < 16384" | "16384 \<le> n" by linarith
  then show ?thesis
  proof cases
    case 1
    then show ?thesis
      by (simp add: encodeLength_def readLength_Cons byte_char_of Let_def)
  next
    case 2
    then show ?thesis by (rule readLength_14bit)
  next
    case 3
    let ?b = "[char_of (n div 2 ^ 24), char_of (n div 2 ^ 16 mod 256), char_of (n div 2 ^ 8 mod 256), char_of (n mod 256)]"
    note bigEndian_4 [OF assms]
    with 3 readUint32_bytes [of ?b t "Suc p"] show ?thesis
      by (simp add: encodeLength_def readLength_Cons byte_char_of Let_def)
  qed
qed

lemma readString_encode:
  "length s < 2 ^ 32 \<Longrightarrow>
   readString (reader (encodeRdbString s @ t) p) =
     (reader t (p + length (encodeRdbString s)), if s = [] then None else Some s, int (length s))"
  by (auto simp: readString_def encodeRdbString_def readLength_encode fread_append)

lemma readExpiry_encode:
  assumes "wf_entry e" and "readByte (reader (encodeEntry e @ t) p) = (r1, b)"
  shows "\<exists>p'. readExpiry r1 b =
    (reader (encodeRdbString (ekey e) @ encodeRdbString (evalue e) @ t) p', expiryTime e, 0)"
  using assms readUint64_bytes
  by (cases "eexpiry e")
    (auto simp: encodeEntry_def readByte_Cons readExpiry_def expiryTime_def wf_entry_def)

lemma entry_start:
  "snd (readByte (reader (encodeEntry e @ t) p)) \<noteq> RDB_EOF"
  by (cases "eexpiry e") (auto simp: encodeEntry_def readByte_Cons)

lemma getKeysLoop_encode:
  assumes "list_all wf_entry es"
  shows "getKeysLoop (reader (concat (map encodeEntry es) @ CHR 0xFF # trailer) p) = map ekey es"
  using assms
proof (induction es arbitrary: p)
  case Nil
  then show ?case by (simp add: getKeysLoop.simps readByte_Cons)
next
  case (Cons e es)
  let ?t = "concat (map encodeEntry es) @ CHR 0xFF # trailer"
  obtain r1 b where b: "readByte (reader (encodeEntry e @ ?t) p) = (r1, b)" by fastforce
  have wf: "wf_entry e" using Cons.prems by simp
  obtain p' where x: "readExpiry r1 b =
      (reader (encodeRdbString (ekey e) @ encodeRdbString (evalue e) @ ?t) p', expiryTime e, 0)"
    using readExpiry_encode [OF wf b] by blast
  have "b \<noteq> RDB_EOF" using entry_start [of e ?t p] b by simp
  then show ?case
    using Cons wf x b
    by (subst getKeysLoop.simps) (simp add: readString_encode skipRdbValue_def wf_entry_def)
qed

lemma getValueLoop_encode:
  assumes "list_all wf_entry es"
  shows "getValueLoop now k (reader (concat (map encodeEntry es) @ CHR 0xFF # trailer) p) =
    (case List.find (\<lambda>e. ekey e = k) es of
       None \<Rightarrow> None
     | Some e \<Rightarrow>
         if 0 < expiryTime e \<and> expiryTime e \<le> now \<or> evalue e = [] then None else Some (evalue e))"
  using assms
proof (induction es arbitrary: p)
  case Nil
  then show ?case by (simp add: getValueLoop.simps readByte_Cons)
next
  case (Cons e es)
  let ?t = "concat (map encodeEntry es) @ CHR 0xFF # trailer"
  obtain r1 b where b: "readByte (reader (encodeEntry e @ ?t) p) = (r1, b)" by fastforce
  have wf: "wf_entry e" using Cons.prems by simp
  obtain p' where x: "readExpiry r1 b =
      (reader (encodeRdbString (ekey e) @ encodeRdbString (evalue e) @ ?t) p', expiryTime e, 0)"
    using readExpiry_encode [OF wf b] by blast
  have "b \<noteq> RDB_EOF" using entry_start [of e ?t p] b by simp
  then show ?case
    using Cons wf x b
    by (subst getValueLoop.simps) (simp add: readString_encode wf_entry_def)
qed

lemma findDatabaseSection_skip:
  "list_all (\<lambda>c. c \<noteq> CHR 0xFE \<and> c \<noteq> CHR 0xFF) aux \<Longrightarrow>
   findDatabaseSection (reader (aux @ CHR 0xFE # t) p) = Some (enterDatabase (reader t (p + length aux + 1)), True)"
proof (induction aux arbitrary: p)
  case Nil
  then show ?case by (subst findDatabaseSection.simps) (simp add: readByte_Cons)
next
  case (Cons c aux)
  have "byte c \<noteq> 0xFE \<and> byte c \<noteq> 0xFF"
    using Cons.prems of_char_eq_iff [of c "CHR 0xFE", where 'a = int] of_char_eq_iff [of c "CHR 0xFF", where 'a = int]
    by simp
  with Cons show ?case by (subst findDatabaseSection.simps) (simp add: readByte_Cons)
qed

lemma enterDatabase_encode:
  assumes "dbnum < 2 ^ 32" "n < 2 ^ 32" "m < 2 ^ 32"
  shows "\<exists>p'. enterDatabase (reader (encodeLength dbnum @ CHR 0xFB # encodeLength n @ encodeLength m @ t) p) = reader t p'"
  using assms by (simp add: enterDatabase_def readLength_encode readByte_Cons)

definition aux_ok :: "string \<Rightarrow> bool" where
  "aux_ok aux = list_all (\<lambda>c. c \<noteq> CHR 0xFE \<and> c \<noteq> CHR 0xFF) aux"

lemma withDatabase_file:
  assumes "aux_ok aux" and "dbnum < 2 ^ 32" "n < 2 ^ 32" "m < 2 ^ 32"
  obtains p where "\<And>none f. withDatabase none f (reader (rdbFile aux dbnum n m body) 0) = Some (f (reader body p))"
proof -
  have "validateHeader (reader (''REDIS0011'' @ t) 0) = (reader t 9, True)" for t
    by (simp add: validateHeader_def fread_def)
  moreover obtain p where
    "enterDatabase (reader (encodeLength dbnum @ CHR 0xFB # encodeLength n @ encodeLength m @ body) (9 + length aux + 1)) =
      reader body p"
    using enterDatabase_encode [OF assms(2-4)] by blast
  ultimately show ?thesis
    using that [of p] findDatabaseSection_skip [OF assms(1) [unfolded aux_ok_def]]
    by (auto simp: withDatabase_def rdbFile_def simp del: append.simps)
qed

section \<open>Properties\<close>



definition example_entries :: "rdb_entry list" where
  "example_entries =
     [RdbEntry ''fruit'' ''apple'' None,
      RdbEntry ''old'' ''x'' (Some [CHR 0x15, CHR 0x72, CHR 0xE7, CHR 0x07, CHR 0x8F, CHR 0x01, NUL, NUL])]"



lemma byte_marker:
  "byte c = 0xFE \<longleftrightarrow> c = CHR 0xFE" "byte c = 0xFF \<longleftrightarrow> c = CHR 0xFF"
  using of_char_eq_iff [of c "CHR 0xFE", where 'a = int] of_char_eq_iff [of c "CHR 0xFF", where 'a = int]
  by simp_all

lemma findDatabaseSection_marker:
  assumes "findDatabaseSection r = Some y"
  shows "CHR 0xFE \<in> set (rest r) \<or> CHR 0xFF \<in> set (rest r)"
proof (rule findDatabaseSection.raw_induct
    [where P = "\<lambda>r y. CHR 0xFE \<in> set (rest r) \<or> CHR 0xFF \<in> set (rest r)", OF _ assms])
  fix search r y
  assume IH: "\<And>r y. search r = Some y \<Longrightarrow> CHR 0xFE \<in> set (rest r) \<or> CHR 0xFF \<in> set (rest r)"
    and y: "(let (r1, t) = readByte r in
      if t = RDB_EOF then Some (r1, False)
      else if t = RDB_DATABASE_START then Some (enterDatabase r1, True)
      else search r1) = Some y"
  show "CHR 0xFE \<in> set (rest r) \<or> CHR 0xFF \<in> set (rest r)"
  proof (cases "rest r")
    case Nil
    with y have "search (r\<lparr>rest := []\<rparr>) = Some y" by (simp add: readByte_def fread_def)
    from IH [OF this] show ?thesis by simp
  next
    case (Cons c t)
    with y IH [of "r\<lparr>rest := t, pos := Suc (pos r)\<rparr>" y] show ?thesis
      by (auto simp: readByte_def fread_def byte_marker split: if_splits)
  qed
qed

lemma findDatabaseSection_finds:
  "CHR 0xFE \<in> set s \<or> CHR 0xFF \<in> set s \<Longrightarrow> findDatabaseSection (reader s p) \<noteq> None"
proof (induction s arbitrary: p)
  case (Cons c s)
  then show ?case
    by (subst findDatabaseSection.simps) (auto simp: readByte_Cons byte_marker)
qed simp

text \<open>
  C37. The search for the database section returns exactly when one of the two markers it looks
  for, \<^verbatim>\<open>0xFE\<close> or \<^verbatim>\<open>0xFF\<close>, is among the bytes that remain. On a file that ends before them
  (a valid header and nothing else, say) \<^verbatim>\<open>readByte\<close> returns 0 for ever and the loop never
  ends, so that \<^verbatim>\<open>GET\<close> of a missing key hangs.
\<close>

theorem findDatabaseSection_returns_iff:
  "findDatabaseSection (reader s p) \<noteq> None \<longleftrightarrow> CHR 0xFE \<in> set s \<or> CHR 0xFF \<in> set s"
  using findDatabaseSection_marker [of "reader s p"] findDatabaseSection_finds [of s p] by auto

text \<open>
  Keys with an expiry in seconds are lost: the four bytes of the expiry are read as a
  big-endian number and multiplied by 1000 in 32 bits, so the result is below \<open>2^32\<close>, a time
  in February 1970; from then on every such key counts as expired, whatever its expiry is
  (unless the product is 0 modulo \<open>2^32\<close>).
\<close>

theorem seconds_expiry_lost:
  assumes "aux_ok aux" and "dbnum < 2 ^ 32" "n < 2 ^ 32" "m < 2 ^ 32"
    and "length b = 4" and "(bigEndian b * 1000) mod 2 ^ 32 \<noteq> 0" and "2 ^ 32 \<le> now"
    and "k \<noteq> []" and "length k < 2 ^ 32" and "length v < 2 ^ 32"
  shows "getRdbValue now (reader (rdbFile aux dbnum n m
    (CHR 0xFD # b @ NUL # encodeRdbString k @ encodeRdbString v @ t)) 0) k = Some None"
proof -
  let ?body = "CHR 0xFD # b @ NUL # encodeRdbString k @ encodeRdbString v @ t"
  obtain p where "\<And>none f. withDatabase none f (reader (rdbFile aux dbnum n m ?body) 0) =
      Some (f (reader ?body p) :: string option)"
    using withDatabase_file [OF assms(1-4)] by blast
  moreover have mod_bounds: "0 \<le> (bigEndian b * 1000) mod 2 ^ 32" "(bigEndian b * 1000) mod 2 ^ 32 < 2 ^ 32"
    by simp_all
  moreover have "0 < (bigEndian b * 1000) mod 2 ^ 32" "(bigEndian b * 1000) mod 2 ^ 32 \<le> now"
    using assms(6,7) mod_bounds by force+
  then have "getValueLoop now k (reader ?body p) = None"
    using assms(5,8-10)
    by (subst getValueLoop.simps)
      (simp add: readByte_Cons readExpiry_def readUint32_bytes readString_encode)
  ultimately show ?thesis by (simp add: getRdbValue_def)
qed

theorem seconds_expiry_lost_witness:
  "getRdbValue 1700000000000 (reader (rdbFile [] 0 1 1
    (CHR 0xFD # [NUL, CHR 0x94, CHR 0x35, CHR 0x77] @ NUL # encodeRdbString ''k'' @ encodeRdbString ''v'' @ [CHR 0xFF])) 0) ''k'' =
    Some None"
proof (rule seconds_expiry_lost)
  show "aux_ok []" by (simp add: aux_ok_def)
  show "(bigEndian [NUL, CHR 0x94, CHR 0x35, CHR 0x77] * 1000) mod 2 ^ 32 \<noteq> 0" by code_simp
qed simp_all

end
