(* ===== verification/Command.thy ===== *)
theory Command
  imports Replicas Rdb
begin

text \<open>
  The commands, \<^verbatim>\<open>src/app/command.c\<close>: the handlers, the table of commands and
  \<^verbatim>\<open>executeCommand\<close>, with the transactions of a client.

  A handler maps the global state (\<open>World\<close>: the server, the static \<^verbatim>\<open>wait_state\<close> and the flag
  of \<^verbatim>\<open>stream_block_state\<close>), the state of the client and the elements of the command to the
  new states, the events on descriptors and the reply; the reply \<open>None\<close> is NULL. What the
  handler gets from outside is the record \<open>Env\<close>: the allocator, one reading of the clock, the
  content of fresh memory, the files, the results of writes, and what happens while the
  handler is blocked. Allocations that the code does not test are taken to succeed.
\<close>

section \<open>State\<close>

record WaitState =
  remaining_count :: "64 word"
  acks_received :: "64 word"
  completed :: bool

record World =
  server :: RedisServer
  wait_state :: WaitState
  has_new_data :: bool

text \<open>The queue is NULL in the client state that a replica makes up for its master.\<close>

record ClientState =
  cfd :: int
  in_transaction :: bool
  cqueue :: "CommandQueue option"

record Env =
  alloc :: allocator
  tod :: "int \<times> int"               \<comment> \<open>the real-time clock, in seconds and nanoseconds\<close>
  junk :: int                      \<comment> \<open>the expiry field of a fresh store entry\<close>
  zeroed :: bool                   \<comment> \<open>whether fresh array slots happen to be NULL\<close>
  fs :: "string \<Rightarrow> string option"   \<comment> \<open>the contents of files\<close>
  outcome :: "nat \<Rightarrow> int"           \<comment> \<open>the results of the writes of the command\<close>
  waitOutcome :: wait_status       \<comment> \<open>how a wait on the stream condition ends\<close>
  meanwhile :: "RedisStore \<Rightarrow> RedisStore"  \<comment> \<open>what others do to the store during that wait\<close>
  acks :: nat                      \<comment> \<open>the ACK commands handled during a \<^verbatim>\<open>WAIT\<close>\<close>

type_synonym reply = "World \<times> ClientState \<times> io_event list \<times> string option"

text \<open>The clock as the store and as the streams read it, in milliseconds.\<close>

definition now :: "Env \<Rightarrow> int" where
  "now env = getCurrentTimeMs (tod env)"

definition streamNow :: "Env \<Rightarrow> 64 word" where
  "streamNow env = streamTimeMs (tod env)"

text \<open>The static variables as the program starts with them.\<close>

definition initialWorld :: "RedisServer \<Rightarrow> World" where
  "initialWorld s =
     \<lparr>server = s, wait_state = \<lparr>remaining_count = 0, acks_received = 0, completed = False\<rparr>,
      has_new_data = stream_block_state\<rparr>"

definition store :: "World \<Rightarrow> RedisStore" where
  "store w = db (server w)"

definition setStore :: "World \<Rightarrow> RedisStore \<Rightarrow> World" where
  "setStore w st = w\<lparr>server := (server w)\<lparr>db := st\<rparr>\<rparr>"

text \<open>\<^verbatim>\<open>elements[i]->data.string\<close>, as bytes with their length and as a C string.\<close>

definition argBytes :: "RespValue list \<Rightarrow> nat \<Rightarrow> string run" where
  "argBytes es i = (if i < length es then stringData (es ! i) else Fault OutOfBounds)"

definition argStr :: "RespValue list \<Rightarrow> nat \<Rightarrow> string run" where
  "argStr es i = bind_run (argBytes es i) (\<lambda>s. Ok (cstr s))"

definition replyWith :: "World \<Rightarrow> ClientState \<Rightarrow> string \<Rightarrow> reply run" where
  "replyWith w c r = Ok (w, c, [], Some r)"

section \<open>Strings and keys\<close>

definition handleSet :: "Env \<Rightarrow> World \<Rightarrow> RespValue list \<Rightarrow> ClientState \<Rightarrow> reply run" where
  "handleSet env w es c =
     bind_run (argStr es 1) (\<lambda>key.
     bind_run (argBytes es 2) (\<lambda>v.
       let st = fst (storeSet (alloc env) (store w) key v); w1 = setStore w st in
       if length es < 5 then replyWith w1 c (createSimpleString ''OK'')
       else
         bind_run (argStr es 3) (\<lambda>option.
           if \<not> strcaseeq option ''px'' then replyWith w1 c (createSimpleString ''OK'')
           else
             bind_run (argStr es 4) (\<lambda>pxValue.
               let milliseconds = atoll pxValue in
               if milliseconds \<le> 0 then replyWith w1 c (createSimpleString ''OK'')
               else if 2 ^ 63 \<le> now env + milliseconds then Fault SignedOverflow
               else replyWith (setStore w (fst (setExpiry st key (now env + milliseconds)))) c
                      (createSimpleString ''OK'')))))"

definition rdbLookup :: "Env \<Rightarrow> World \<Rightarrow> string \<Rightarrow> string option run" where
  "rdbLookup env w key =
     (case createRdbReader (fs env) (dir (server w)) (filename (server w)) of
        None \<Rightarrow> Ok None
      | Some r \<Rightarrow> (case getRdbValue (now env) r key of None \<Rightarrow> Fault Diverges | Some v \<Rightarrow> Ok v))"

definition handleGet :: "Env \<Rightarrow> World \<Rightarrow> RespValue list \<Rightarrow> ClientState \<Rightarrow> reply run" where
  "handleGet env w es c =
     bind_run (argStr es 1) (\<lambda>key.
     bind_run (storeGet (alloc env) (now env) (store w) key) (\<lambda>memValue.
       case memValue of
         Some v \<Rightarrow> replyWith w c (createBulkString v)
       | None \<Rightarrow>
           bind_run (rdbLookup env w key) (\<lambda>rdbValue.
             case rdbValue of
               Some v \<Rightarrow> replyWith w c (createBulkString v)
             | None \<Rightarrow> replyWith w c createNullBulkString)))"

definition handleType :: "Env \<Rightarrow> World \<Rightarrow> RespValue list \<Rightarrow> ClientState \<Rightarrow> reply run" where
  "handleType env w es c =
     bind_run (argStr es 1) (\<lambda>key.
       replyWith w c (createSimpleString
         (case getValueType (fst (tod env)) (store w) key of
            TYPE_STRING \<Rightarrow> ''string''
          | TYPE_STREAM \<Rightarrow> ''stream''
          | TYPE_NONE \<Rightarrow> ''none'')))"

definition handleEcho :: "World \<Rightarrow> RespValue list \<Rightarrow> ClientState \<Rightarrow> reply run" where
  "handleEcho w es c = bind_run (argBytes es 1) (\<lambda>m. replyWith w c (createBulkString m))"

definition handlePing :: "World \<Rightarrow> ClientState \<Rightarrow> reply run" where
  "handlePing w c = replyWith w c (createSimpleString ''PONG'')"

definition err_not_integer :: string where
  "err_not_integer = ''ERR value is not an integer or out of range''"

definition handleIncrement :: "Env \<Rightarrow> World \<Rightarrow> RespValue list \<Rightarrow> ClientState \<Rightarrow> reply run" where
  "handleIncrement env w es c =
     bind_run (argStr es 1) (\<lambda>key.
     bind_run (storeGet (alloc env) (now env) (store w) key) (\<lambda>v.
       case v of
         Some numStr \<Rightarrow>
           (let (numValue, endptr) = strtoll (cstr numStr) in
            if endptr \<noteq> [] then replyWith w c (createError err_not_integer)
            else if numValue = 2 ^ 63 - 1 then Fault SignedOverflow
            else
              replyWith (setStore w (fst (storeSet (alloc env) (store w) key (show_int (numValue + 1))))) c
                (createInteger (numValue + 1)))
       | None \<Rightarrow>
           replyWith (setStore w (fst (storeSet (alloc env) (store w) key ''1''))) c (createInteger 1)))"

section \<open>Streams\<close>

text \<open>The pairs of fields and values from the fourth element on.\<close>

definition xaddFields :: "RespValue list \<Rightarrow> (string \<times> string) list run" where
  "xaddFields es =
     map_run_list (\<lambda>i. bind_run (argStr es (3 + i * 2)) (\<lambda>f. bind_run (argStr es (4 + i * 2)) (\<lambda>v. Ok (f, v))))
       [0..<(length es - 3) div 2]"

definition handleXadd :: "Env \<Rightarrow> World \<Rightarrow> RespValue list \<Rightarrow> ClientState \<Rightarrow> reply run" where
  "handleXadd env w es c =
     bind_run (argStr es 1) (\<lambda>key.
     bind_run (argStr es 2) (\<lambda>i.
     bind_run (xaddFields es) (\<lambda>fvs.
     bind_run (storeStreamAdd (alloc env) (streamNow env) (junk env) (has_new_data w) (store w) key i fvs)
       (\<lambda>(st, new, result).
         case result of
           None \<Rightarrow> Fault NullDeref
         | Some r \<Rightarrow>
             let w' = (setStore w st)\<lparr>has_new_data := new\<rparr> in
             if r \<noteq> [] \<and> hd r = CHR ''-'' then replyWith w' c (createError (tl r))
             else replyWith w' c (createBulkString r)))))"

definition handleXrange :: "Env \<Rightarrow> World \<Rightarrow> RespValue list \<Rightarrow> ClientState \<Rightarrow> reply run" where
  "handleXrange env w es c =
     bind_run (argStr es 1) (\<lambda>key.
     bind_run (argStr es 2) (\<lambda>start.
     bind_run (argStr es 3) (\<lambda>end.
       case storeGetStream (store w) key of
         None \<Rightarrow> replyWith w c (createXrangeResponse [] 0)
       | Some s \<Rightarrow>
           (case streamRange (alloc env) (streamNow env) s start end of
              (result, cnt) \<Rightarrow>
                replyWith w c (createXrangeResponse result (case cnt of None \<Rightarrow> 0 | Some n \<Rightarrow> n))))))"

record XreadArgs =
  streamsPos :: "nat option"
  blockMs :: int
  blocking :: bool

text \<open>The loop of \<^verbatim>\<open>parseXreadArgs\<close> over the arguments, as C strings, from index \<open>i\<close> on.\<close>

fun parseXreadLoop :: "nat \<Rightarrow> string list \<Rightarrow> XreadArgs \<Rightarrow> XreadArgs" where
  "parseXreadLoop i [] a = a"
| "parseXreadLoop i [s] a = (if strcaseeq s ''STREAMS'' then a\<lparr>streamsPos := Some i\<rparr> else a)"
| "parseXreadLoop i (s # t # r) a =
     (if strcaseeq s ''STREAMS'' then parseXreadLoop (i + 1) (t # r) (a\<lparr>streamsPos := Some i\<rparr>)
      else if strcaseeq s ''BLOCK'' then
        parseXreadLoop (i + 2) r (a\<lparr>blocking := True, blockMs := atoi t\<rparr>)
      else parseXreadLoop (i + 1) (t # r) a)"

definition parseXreadArgs :: "RespValue list \<Rightarrow> XreadArgs run" where
  "parseXreadArgs es =
     bind_run (map_run_list (argStr es) [1..<length es]) (\<lambda>strs.
       Ok (parseXreadLoop 1 strs \<lparr>streamsPos = None, blockMs = 0, blocking = False\<rparr>))"

text \<open>
  \<^verbatim>\<open>setupXreadStreams\<close>: for every requested stream its pointer, its key and the identifier
  to read from. \<open>None\<close> is the failure of an allocation.
\<close>

definition xreadId :: "Stream option \<Rightarrow> string \<Rightarrow> string" where
  "xreadId s rawId =
     (if take 1 rawId = ''$'' then
        (case s of
           None \<Rightarrow> ''0-0''
         | Some s \<Rightarrow> (case stream_tail s of None \<Rightarrow> ''0-0'' | Some e \<Rightarrow> entryId e))
      else rawId)"

definition setupXreadStreams ::
  "Env \<Rightarrow> RedisStore \<Rightarrow> RespValue list \<Rightarrow> nat \<Rightarrow> (Stream option \<times> string \<times> string) list option run" where
  "setupXreadStreams env st es p =
     (let n = (length es - p - 1) div 2 in
      if \<not> alloc env (n * 8) then Ok None
      else
        bind_run (map_run_list (\<lambda>i.
            bind_run (argStr es (p + 1 + i)) (\<lambda>key.
            bind_run (argStr es (p + 1 + n + i)) (\<lambda>rawId.
              let s = storeGetStream st key in Ok (s, key, xreadId s rawId)))) [0..<n])
          (\<lambda>rs. Ok (if list_all (\<lambda>(_, _, i). strdup_ok (alloc env) i) rs then Some rs else None)))"

text \<open>
  After a wait the code reads through the pointers it took before: a stream that was absent
  stays absent, and a stream that was replaced by a string has been freed.
\<close>

definition refreshStream :: "RedisStore \<Rightarrow> Stream option \<times> string \<times> string \<Rightarrow> (Stream option \<times> string \<times> string) run" where
  "refreshStream st r =
     (case r of (s, key, i) \<Rightarrow>
        (case s of
           None \<Rightarrow> Ok (None, key, i)
         | Some _ \<Rightarrow>
             (case storeGetStream st key of
                None \<Rightarrow> Fault UseAfterFree
              | Some s' \<Rightarrow> Ok (Some s', key, i))))"

definition xreadReply :: "World \<Rightarrow> ClientState \<Rightarrow> nat \<Rightarrow> StreamInfo list option \<Rightarrow> reply run" where
  "xreadReply w c n infos =
     (case infos of
        None \<Rightarrow> if n = 0 then replyWith w c (createXreadResponse []) else Fault NullDeref
      | Some is \<Rightarrow> replyWith w c (createXreadResponse is))"

definition handleXread :: "Env \<Rightarrow> World \<Rightarrow> RespValue list \<Rightarrow> ClientState \<Rightarrow> reply run" where
  "handleXread env w es c =
     bind_run (parseXreadArgs es) (\<lambda>args.
       case streamsPos args of
         None \<Rightarrow> replyWith w c (createError ''ERR syntax error'')
       | Some p \<Rightarrow>
           bind_run (setupXreadStreams env (store w) es p) (\<lambda>setup.
             case setup of
               None \<Rightarrow> replyWith w c (createError ''ERR out of memory'')
             | Some rs \<Rightarrow>
                 bind_run (processStreamReads (alloc env) (streamNow env) rs) (\<lambda>(infos, hasData).
                   if blocking args \<and> \<not> hasData then
                     let (new, gotData) = (if blockMs args = 0 then waitForStreamDataInfinite
                                           else waitForStreamData (tod env) (blockMs args) (waitOutcome env));
                         w' = (setStore w (meanwhile env (store w)))\<lparr>has_new_data := new\<rparr> in
                     if infos = None \<and> rs \<noteq> [] then Fault NullDeref
                     else if gotData then
                       bind_run (map_run_list (refreshStream (store w')) rs) (\<lambda>rs'.
                         xreadReply w' c (length rs)
                           (Some (recheckStreams (alloc env) (streamNow env) rs')))
                     else replyWith w' c createNullBulkString
                   else xreadReply w c (length rs) infos)))"

section \<open>Transactions\<close>

definition handleMulti :: "World \<Rightarrow> ClientState \<Rightarrow> reply run" where
  "handleMulti w c = replyWith w (c\<lparr>in_transaction := True\<rparr>) (createSimpleString ''OK'')"

definition handleDiscard :: "World \<Rightarrow> ClientState \<Rightarrow> reply run" where
  "handleDiscard w c =
     (if \<not> in_transaction c then replyWith w c (createError ''ERR DISCARD without MULTI'')
      else
        (case cqueue c of
           None \<Rightarrow> Fault NullDeref
         | Some q \<Rightarrow>
             replyWith w (c\<lparr>cqueue := Some (clearCommandQueue q), in_transaction := False\<rparr>)
               (createSimpleString ''OK'')))"

text \<open>
  The loop of \<^verbatim>\<open>handleExec\<close> over the queued commands, with \<^verbatim>\<open>executeCommand\<close> on the
  \<open>n\<close>-th of them as a parameter:
  every reply is parsed back into a value; a NULL reply is followed, and a value that the
  parser of replies left unwritten is read when the array of the replies is built.
\<close>

fun execLoop ::
  "(nat \<Rightarrow> World \<Rightarrow> RespValue \<Rightarrow> ClientState \<Rightarrow> reply run) \<Rightarrow> nat \<Rightarrow> bool \<Rightarrow> World \<Rightarrow> ClientState \<Rightarrow> RespValue list
     \<Rightarrow> (World \<times> ClientState \<times> io_event list \<times> RespValue option list) run" where
  "execLoop exec n z w c [] = Ok (w, c, [], [])"
| "execLoop exec n z w c (cmd # cmds) =
     bind_run (exec n w cmd c) (\<lambda>(w1, c1, ev, r).
       case r of
         None \<Rightarrow> Fault NullDeref
       | Some response \<Rightarrow>
           bind_run (parseResponseToRespValue z response) (\<lambda>v.
           bind_run (execLoop exec (Suc n) z w1 c1 cmds) (\<lambda>(w2, c2, evs, vs).
             Ok (w2, c2, ev @ evs, v # vs))))"

definition handleExec ::
  "(nat \<Rightarrow> World \<Rightarrow> RespValue \<Rightarrow> ClientState \<Rightarrow> reply run) \<Rightarrow> Env \<Rightarrow> World \<Rightarrow> ClientState \<Rightarrow> reply run" where
  "handleExec exec env w c =
     (if \<not> in_transaction c then replyWith w c (createError ''ERR EXEC without MULTI'')
      else
        (case cqueue c of
           None \<Rightarrow> Fault NullDeref
         | Some q \<Rightarrow>
             bind_run (execLoop exec 0 (zeroed env) w (c\<lparr>in_transaction := False\<rparr>) (commands q))
               (\<lambda>(w', c', evs, vs).
                 if None \<in> set vs then Fault UninitRead
                 else
                   Ok (w', c'\<lparr>in_transaction := False, cqueue := Some (clearCommandQueue q)\<rparr>, evs,
                       Some (createRespArrayFromElements (map the vs))))))"

section \<open>The server\<close>

definition handleConfigGet :: "World \<Rightarrow> RespValue list \<Rightarrow> ClientState \<Rightarrow> reply run" where
  "handleConfigGet w es c =
     bind_run (argStr es 2) (\<lambda>param.
       if strcaseeq param ''dir'' then
         replyWith w c (createRespArrayFromElements
           [createRespString ''dir'', createRespString (dir (server w))])
       else replyWith w c (createRespArray []))"

definition handleKeys :: "Env \<Rightarrow> World \<Rightarrow> RespValue list \<Rightarrow> ClientState \<Rightarrow> reply run" where
  "handleKeys env w es c =
     bind_run (argStr es 1) (\<lambda>pattern.
       if pattern \<noteq> ''*'' then replyWith w c (createRespArray [])
       else
         (case createRdbReader (fs env) (dir (server w)) (filename (server w)) of
            None \<Rightarrow> replyWith w c (createRespArray [])
          | Some r \<Rightarrow>
              (case getRdbKeys r of
                 None \<Rightarrow> Fault Diverges
               | Some None \<Rightarrow> replyWith w c (createRespArray [])
               | Some (Some keys) \<Rightarrow> replyWith w c (createRespArrayFromElements keys))))"

definition infoText :: "ReplicationInfo \<Rightarrow> string" where
  "infoText ri =
     ''role:'' @ (if master_info ri \<noteq> None then ''slave'' else ''master'') @ crlf @
     ''master_replid:'' @ replication_id ri @ crlf @
     ''master_repl_offset:'' @ show_int (repl_offset ri)"

definition handleInfo :: "World \<Rightarrow> ClientState \<Rightarrow> reply run" where
  "handleInfo w c =
     bind_run (createFormattedBulkString (infoText (repl_info (server w)))) (\<lambda>r. replyWith w c r)"

section \<open>Replication\<close>

text \<open>An acknowledgement: the new state, and whether the waiting thread is signalled.\<close>

definition ackStep :: "WaitState \<Rightarrow> WaitState \<times> bool" where
  "ackStep s =
     (let s' = s\<lparr>acks_received := acks_received s + 1, remaining_count := remaining_count s - 1\<rparr>
      in (s', remaining_count s' \<le> acks_received s'))"

definition handleReplConf :: "World \<Rightarrow> RespValue list \<Rightarrow> ClientState \<Rightarrow> reply run" where
  "handleReplConf w es c =
     bind_run (argStr es 1) (\<lambda>subcommand.
       if strcaseeq subcommand ''getack'' then
         replyWith w c (createRespArrayFromElements
           [createRespString ''REPLCONF'', createRespString ''ACK'',
            createRespString (show_int (repl_offset (repl_info (server w))))])
       else if strcaseeq subcommand ''ack'' then
         Ok (w\<lparr>wait_state := fst (ackStep (wait_state w))\<rparr>, c, [], None)
       else replyWith w c (createSimpleString ''OK''))"

definition EMPTY_RDB :: string where
  "EMPTY_RDB = ''REDIS0009'' @ [CHR 0xFF, CHR 0x09, CHR 0x0A, CHR 0x40, CHR 0x3F, CHR 0x72, CHR 0x6E, CHR 0x64]"

definition psyncResponse :: "ReplicationInfo \<Rightarrow> string" where
  "psyncResponse ri =
     bufferString
       (put (put (put createRespBuffer
          (createFormattedSimpleString
             (''FULLRESYNC '' @ replication_id ri @ '' '' @ show_int (repl_offset ri))))
          (bulkHeader (length EMPTY_RDB)))
          EMPTY_RDB)"

definition handlePsync :: "World \<Rightarrow> ClientState \<Rightarrow> reply run" where
  "handlePsync w c =
     (if master_info (repl_info (server w)) \<noteq> None then Ok (w, c, [], None)
      else
        bind_run (addReplica (server w) (cfd c)) (\<lambda>s.
          replyWith (w\<lparr>server := s\<rparr>) c (psyncResponse (repl_info (server w)))))"

definition getackCommand :: string where
  "getackCommand = createRespArrayFromElements
     [createRespString ''REPLCONF'', createRespString ''GETACK'', createRespString ''*'']"

text \<open>A write that fails delivers nothing; its result is not looked at.\<close>

definition getackEvents :: "(nat \<Rightarrow> int) \<Rightarrow> Replica list \<Rightarrow> io_event list" where
  "getackEvents oc rs =
     map (\<lambda>(n, r). Wrote (rfd r) (take (nat (oc n)) getackCommand)) (enumerate 0 rs)"

definition handleWait :: "Env \<Rightarrow> World \<Rightarrow> RespValue list \<Rightarrow> ClientState \<Rightarrow> reply run" where
  "handleWait env w es c =
     bind_run (argStr es 1) (\<lambda>a1.
     bind_run (argStr es 2) (\<lambda>a2.
       let numreplicas = (of_int (atoll a1) :: 64 word); ri = repl_info (server w) in
       if master_info ri = None \<and> repl_offset ri = 0 then
         withReplicas (server w) (\<lambda>rs. replyWith w c (createInteger (int (length (replicaList rs)))))
       else
         withReplicas (server w) (\<lambda>rs.
           let ws = \<lparr>remaining_count = numreplicas, acks_received = 0, completed = False\<rparr>;
               ws' = ((\<lambda>s. fst (ackStep s)) ^^ acks env) ws in
           Ok (w\<lparr>wait_state := ws'\<lparr>completed := True\<rparr>\<rparr>, c, getackEvents (outcome env) (replicaList rs),
               Some (createInteger (sint (acks_received ws')))))))"

section \<open>The table and the dispatcher\<close>

datatype handler =
    HSet | HGet | HPing | HEcho | HType | HXadd | HXrange | HXread | HIncr | HMulti | HExec
  | HDiscard | HConfig | HKeys | HInfo | HReplconf | HPsync | HWait

record CommandHandler =
  cname :: string
  chandler :: handler
  minArgs :: nat
  maxArgs :: "nat option"  \<comment> \<open>\<open>None\<close> for -1\<close>

definition baseCommands :: "CommandHandler list" where
  "baseCommands =
     [\<lparr>cname = ''SET'', chandler = HSet, minArgs = 3, maxArgs = Some 5\<rparr>,
      \<lparr>cname = ''GET'', chandler = HGet, minArgs = 2, maxArgs = Some 2\<rparr>,
      \<lparr>cname = ''PING'', chandler = HPing, minArgs = 1, maxArgs = Some 1\<rparr>,
      \<lparr>cname = ''ECHO'', chandler = HEcho, minArgs = 2, maxArgs = Some 2\<rparr>,
      \<lparr>cname = ''TYPE'', chandler = HType, minArgs = 2, maxArgs = Some 2\<rparr>,
      \<lparr>cname = ''XADD'', chandler = HXadd, minArgs = 4, maxArgs = None\<rparr>,
      \<lparr>cname = ''XRANGE'', chandler = HXrange, minArgs = 4, maxArgs = Some 4\<rparr>,
      \<lparr>cname = ''XREAD'', chandler = HXread, minArgs = 4, maxArgs = None\<rparr>,
      \<lparr>cname = ''INCR'', chandler = HIncr, minArgs = 2, maxArgs = Some 2\<rparr>,
      \<lparr>cname = ''MULTI'', chandler = HMulti, minArgs = 1, maxArgs = Some 1\<rparr>,
      \<lparr>cname = ''EXEC'', chandler = HExec, minArgs = 1, maxArgs = Some 1\<rparr>,
      \<lparr>cname = ''DISCARD'', chandler = HDiscard, minArgs = 0, maxArgs = None\<rparr>,
      \<lparr>cname = ''CONFIG'', chandler = HConfig, minArgs = 3, maxArgs = Some 3\<rparr>,
      \<lparr>cname = ''KEYS'', chandler = HKeys, minArgs = 2, maxArgs = Some 2\<rparr>,
      \<lparr>cname = ''INFO'', chandler = HInfo, minArgs = 1, maxArgs = Some 2\<rparr>,
      \<lparr>cname = ''REPLCONF'', chandler = HReplconf, minArgs = 3, maxArgs = Some 3\<rparr>,
      \<lparr>cname = ''PSYNC'', chandler = HPsync, minArgs = 3, maxArgs = Some 3\<rparr>,
      \<lparr>cname = ''WAIT'', chandler = HWait, minArgs = 3, maxArgs = Some 3\<rparr>]"

definition findHandler :: "string \<Rightarrow> CommandHandler option" where
  "findHandler name = List.find (\<lambda>h. strcaseeq name (cname h)) baseCommands"

definition runHandler ::
  "(nat \<Rightarrow> World \<Rightarrow> RespValue \<Rightarrow> ClientState \<Rightarrow> reply run) \<Rightarrow> handler \<Rightarrow> Env \<Rightarrow> World \<Rightarrow> RespValue list
     \<Rightarrow> ClientState \<Rightarrow> reply run" where
  "runHandler exec h env w es c =
     (case h of
        HSet \<Rightarrow> handleSet env w es c
      | HGet \<Rightarrow> handleGet env w es c
      | HPing \<Rightarrow> handlePing w c
      | HEcho \<Rightarrow> handleEcho w es c
      | HType \<Rightarrow> handleType env w es c
      | HXadd \<Rightarrow> handleXadd env w es c
      | HXrange \<Rightarrow> handleXrange env w es c
      | HXread \<Rightarrow> handleXread env w es c
      | HIncr \<Rightarrow> handleIncrement env w es c
      | HMulti \<Rightarrow> handleMulti w c
      | HExec \<Rightarrow> handleExec exec env w c
      | HDiscard \<Rightarrow> handleDiscard w c
      | HConfig \<Rightarrow> handleConfigGet w es c
      | HKeys \<Rightarrow> handleKeys env w es c
      | HInfo \<Rightarrow> handleInfo w c
      | HReplconf \<Rightarrow> handleReplConf w es c
      | HPsync \<Rightarrow> handlePsync w c
      | HWait \<Rightarrow> handleWait env w es c)"

text \<open>
  The test of propagation: \<^verbatim>\<open>!master_info && SET || DEL || INCR || XADD\<close>, where the
  conjunction binds more tightly.
\<close>

definition propagates :: "RedisServer \<Rightarrow> string \<Rightarrow> bool" where
  "propagates s name =
     (master_info (repl_info s) = None \<and> strcaseeq name ''SET'' \<or> strcaseeq name ''DEL'' \<or>
      strcaseeq name ''INCR'' \<or> strcaseeq name ''XADD'')"

definition isTransactional :: "string \<Rightarrow> bool" where
  "isTransactional name =
     (strcaseeq name ''MULTI'' \<or> strcaseeq name ''EXEC'' \<or> strcaseeq name ''DISCARD'')"

definition dispatch ::
  "(nat \<Rightarrow> World \<Rightarrow> RespValue \<Rightarrow> ClientState \<Rightarrow> reply run) \<Rightarrow> Env \<Rightarrow> World \<Rightarrow> RespValue \<Rightarrow> ClientState
     \<Rightarrow> reply run" where
  "dispatch exec env w command c =
     (case command of
        RespArray es \<Rightarrow>
          if length es < 1 then replyWith w c (createError ''wrong number of arguments'')
          else
            bind_run (argStr es 0) (\<lambda>name.
              case findHandler name of
                None \<Rightarrow> replyWith w c (createError ''unknown command'')
              | Some h \<Rightarrow>
                  if length es < minArgs h \<or> (case maxArgs h of None \<Rightarrow> False | Some m \<Rightarrow> m < length es) then
                    replyWith w c (createError ''wrong number of arguments'')
                  else if isTransactional name then runHandler exec (chandler h) env w es c
                  else if in_transaction c then
                    (case cqueue c of
                       None \<Rightarrow> Fault NullDeref
                     | Some q \<Rightarrow>
                         replyWith w (c\<lparr>cqueue := Some (queueCommand q command)\<rparr>)
                           (createSimpleString ''QUEUED''))
                  else
                    bind_run (runHandler exec (chandler h) env w es c) (\<lambda>(w', c', ev, result).
                      if propagates (server w') name then
                        bind_run (propagateCommand (outcome env) (server w') command) (\<lambda>(s, out).
                          Ok (w'\<lparr>server := s\<rparr>, c', ev @ out, result))
                      else Ok (w', c', ev, result)))
      | _ \<Rightarrow> replyWith w c (createError ''wrong number of arguments''))"

text \<open>
  \<^verbatim>\<open>EXEC\<close> calls \<^verbatim>\<open>executeCommand\<close> on the queued commands, after it has left the
  transaction; the \<open>n\<close>-th of them meets the environment \<open>envs n\<close>. \<^verbatim>\<open>MULTI\<close>, \<^verbatim>\<open>EXEC\<close> and
  \<^verbatim>\<open>DISCARD\<close> are never queued, so the inner call does not come back to \<^verbatim>\<open>EXEC\<close>, and its
  own parameter is out of reach.
\<close>

definition executeQueued :: "Env \<Rightarrow> World \<Rightarrow> RespValue \<Rightarrow> ClientState \<Rightarrow> reply run" where
  "executeQueued env = dispatch (\<lambda>n w command c. Fault Diverges) env"

definition executeCommand ::
  "Env \<Rightarrow> (nat \<Rightarrow> Env) \<Rightarrow> World \<Rightarrow> RespValue \<Rightarrow> ClientState \<Rightarrow> reply run" where
  "executeCommand env envs w command c = dispatch (\<lambda>n. executeQueued (envs n)) env w command c"

section \<open>Shared lemmas on the dispatcher\<close>

definition cmd :: "string list \<Rightarrow> RespValue" where
  "cmd args = RespArray (map RespBulk args)"

lemma argBytes_cmd [simp]: "i < length args \<Longrightarrow> argBytes (map RespBulk args) i = Ok (args ! i)"
  by (simp add: argBytes_def)

lemma argStr_cmd [simp]: "i < length args \<Longrightarrow> argStr (map RespBulk args) i = Ok (cstr (args ! i))"
  by (simp add: argStr_def)

text \<open>A command that is looked up, has an admissible number of elements and is not transactional.\<close>

definition plain :: "RespValue \<Rightarrow> bool" where
  "plain command =
     (case command of
        RespArray es \<Rightarrow>
          es \<noteq> [] \<and>
          (case argStr es 0 of
             Fault _ \<Rightarrow> False
           | Ok name \<Rightarrow>
               \<not> isTransactional name \<and>
               (case findHandler name of
                  None \<Rightarrow> False
                | Some h \<Rightarrow> minArgs h \<le> length es \<and> (case maxArgs h of None \<Rightarrow> True | Some m \<Rightarrow> length es \<le> m)))
      | _ \<Rightarrow> False)"

lemma handler_transactional:
  assumes "findHandler name = Some h" and "chandler h \<in> {HMulti, HExec, HDiscard}"
  shows "isTransactional name"
proof -
  have "h \<in> set baseCommands" and n: "strcaseeq name (cname h)"
    using assms(1) by (auto simp: findHandler_def find_Some_iff)
  then have "cname h = ''MULTI'' \<or> cname h = ''EXEC'' \<or> cname h = ''DISCARD''"
    using assms(2) by (auto simp: baseCommands_def)
  with n show ?thesis by (auto simp: isTransactional_def)
qed

lemma runHandler_exec_irrelevant: "h \<noteq> HExec \<Longrightarrow> runHandler exec h = runHandler exec' h"
  by (cases h) (auto simp: runHandler_def fun_eq_iff)

lemma dispatch_plain_irrelevant:
  "plain command \<Longrightarrow> dispatch exec env w command c = dispatch exec' env w command c"
  unfolding plain_def dispatch_def
  by (auto split: RespValue.splits run.splits option.splits dest: handler_transactional
      intro!: arg_cong [where f = "\<lambda>x. bind_run x _"] runHandler_exec_irrelevant [THEN fun_cong, THEN fun_cong, THEN fun_cong, THEN fun_cong])

lemma executeQueued_plain: "plain command \<Longrightarrow> executeQueued env w command c = executeCommand env envs w command c"
  unfolding executeQueued_def executeCommand_def by (rule dispatch_plain_irrelevant)

subsection \<open>Commands that are not transactional leave the client alone\<close>

definition withClient :: "(ClientState \<Rightarrow> ClientState) \<Rightarrow> reply run \<Rightarrow> reply run" where
  "withClient g r = bind_run r (\<lambda>(w, c, ev, x). Ok (w, g c, ev, x))"

lemma withClient_simps:
  "withClient g (bind_run m f) = bind_run m (\<lambda>x. withClient g (f x))"
  "withClient g (replyWith w c r) = replyWith w (g c) r"
  "withClient g (Ok (w, c, ev, x)) = Ok (w, g c, ev, x)"
  "withClient g (Fault e) = Fault e"
  "withClient g (if b then r1 else r2) = (if b then withClient g r1 else withClient g r2)"
  "withClient g (withReplicas s h) = withReplicas s (\<lambda>rs. withClient g (h rs))"
  by (cases m) (simp_all add: withClient_def replyWith_def withReplicas_def split: option.splits)

lemmas client_simps = withClient_simps option.case_distrib [of "withClient g" for g]
  prod.case_distrib [of "withClient g" for g] Let_def

lemma handlers_client:
  "handleSet env w es (g c) = withClient g (handleSet env w es c)"
  "handleGet env w es (g c) = withClient g (handleGet env w es c)"
  "handleType env w es (g c) = withClient g (handleType env w es c)"
  "handleEcho w es (g c) = withClient g (handleEcho w es c)"
  "handlePing w (g c) = withClient g (handlePing w c)"
  "handleIncrement env w es (g c) = withClient g (handleIncrement env w es c)"
  "handleConfigGet w es (g c) = withClient g (handleConfigGet w es c)"
  "handleKeys env w es (g c) = withClient g (handleKeys env w es c)"
  "handleInfo w (g c) = withClient g (handleInfo w c)"
  "handleReplConf w es (g c) = withClient g (handleReplConf w es c)"
  "handleWait env w es (g c) = withClient g (handleWait env w es c)"
  "handleXrange env w es (g c) = withClient g (handleXrange env w es c)"
  "handleXadd env w es (g c) = withClient g (handleXadd env w es c)"
  by (simp_all add: handleSet_def handleGet_def handleType_def handleEcho_def handlePing_def
      handleIncrement_def handleConfigGet_def handleKeys_def handleInfo_def handleReplConf_def
      handleWait_def handleXrange_def handleXadd_def client_simps cong: if_cong option.case_cong)

lemma handleXread_client: "handleXread env w es (g c) = withClient g (handleXread env w es c)"
  by (simp add: handleXread_def xreadReply_def client_simps cong: if_cong option.case_cong)

lemma handlePsync_client:
  "cfd (g c) = cfd c \<Longrightarrow> handlePsync w (g c) = withClient g (handlePsync w c)"
  by (simp add: handlePsync_def client_simps)

lemma runHandler_client:
  "cfd (g c) = cfd c \<Longrightarrow> h \<notin> {HMulti, HExec, HDiscard} \<Longrightarrow>
   runHandler exec h env w es (g c) = withClient g (runHandler exec h env w es c)"
  by (cases h) (simp_all add: runHandler_def handlers_client handleXread_client handlePsync_client)

lemma dispatch_plain:
  assumes "plain command" and "\<not> in_transaction c"
  obtains name es h where "command = RespArray es" and "argStr es 0 = Ok name" and "findHandler name = Some h"
    and "chandler h \<notin> {HMulti, HExec, HDiscard}"
    and "dispatch exec env w command c =
      bind_run (runHandler exec (chandler h) env w es c) (\<lambda>(w', c', ev, result).
        if propagates (server w') name then
          bind_run (propagateCommand (outcome env) (server w') command) (\<lambda>(s, out).
            Ok (w'\<lparr>server := s\<rparr>, c', ev @ out, result))
        else Ok (w', c', ev, result))"
proof -
  from assms(1) obtain es name h where c: "command = RespArray es" "es \<noteq> []" "argStr es 0 = Ok name"
    "\<not> isTransactional name" "findHandler name = Some h" "minArgs h \<le> length es"
    "case maxArgs h of None \<Rightarrow> True | Some m \<Rightarrow> length es \<le> m"
    by (auto simp: plain_def split: RespValue.splits run.splits option.splits)
  moreover have "chandler h \<notin> {HMulti, HExec, HDiscard}" using handler_transactional c(4,5) by blast
  moreover have "\<not> length es < 1" "\<not> length es < minArgs h"
    "\<not> (case maxArgs h of None \<Rightarrow> False | Some m \<Rightarrow> m < length es)"
    using c by (auto split: option.splits simp: Suc_le_eq)
  ultimately show ?thesis
    using that [of es name h] assms(2) unfolding c(1) by (simp add: dispatch_def cong: if_cong)
qed

lemma dispatch_client:
  assumes "plain command" and "\<not> in_transaction c" and "\<not> in_transaction (g c)" and "cfd (g c) = cfd c"
  shows "dispatch exec env w command (g c) = withClient g (dispatch exec env w command c)"
proof -
  from assms(1,2) obtain name es h where c: "command = RespArray es" "argStr es 0 = Ok name"
    "findHandler name = Some h" "chandler h \<notin> {HMulti, HExec, HDiscard}"
    and d: "dispatch exec env w command c =
      bind_run (runHandler exec (chandler h) env w es c) (\<lambda>(w', c', ev, result).
        if propagates (server w') name then
          bind_run (propagateCommand (outcome env) (server w') command) (\<lambda>(s, out).
            Ok (w'\<lparr>server := s\<rparr>, c', ev @ out, result))
        else Ok (w', c', ev, result))"
    by (rule dispatch_plain)
  from assms(1,3) obtain name' es' h' where c': "command = RespArray es'" "argStr es' 0 = Ok name'"
    "findHandler name' = Some h'"
    and d': "dispatch exec env w command (g c) =
      bind_run (runHandler exec (chandler h') env w es' (g c)) (\<lambda>(w', c', ev, result).
        if propagates (server w') name' then
          bind_run (propagateCommand (outcome env) (server w') command) (\<lambda>(s, out).
            Ok (w'\<lparr>server := s\<rparr>, c', ev @ out, result))
        else Ok (w', c', ev, result))"
    by (rule dispatch_plain)
  have "es' = es" "name' = name" "h' = h" using c c' by auto
  then show ?thesis
    using d d' runHandler_client [of g c "chandler h" exec env w es] assms(4) c(4)
    by (cases "runHandler exec (chandler h) env w es c")
      (auto simp: withClient_simps prod.case_distrib [of "withClient g"])
qed

section \<open>Sequences of commands of one client\<close>

fun runCommands ::
  "World \<Rightarrow> ClientState \<Rightarrow> (Env \<times> (nat \<Rightarrow> Env) \<times> RespValue) list
     \<Rightarrow> (World \<times> ClientState \<times> io_event list \<times> string option list) run" where
  "runCommands w c [] = Ok (w, c, [], [])"
| "runCommands w c ((env, envs, command) # steps) =
     bind_run (executeCommand env envs w command c) (\<lambda>(w1, c1, ev, r).
     bind_run (runCommands w1 c1 steps) (\<lambda>(w2, c2, evs, rs).
       Ok (w2, c2, ev @ evs, r # rs)))"

lemma runCommands_append:
  "runCommands w c (as @ bs) =
     bind_run (runCommands w c as) (\<lambda>(w1, c1, ev1, rs1).
     bind_run (runCommands w1 c1 bs) (\<lambda>(w2, c2, ev2, rs2).
       Ok (w2, c2, ev1 @ ev2, rs1 @ rs2)))"
proof (induction as arbitrary: w c)
  case Nil
  show ?case by (cases "runCommands w c bs") (simp_all add: case_prod_unfold)
next
  case (Cons a as)
  obtain env envs m where a: "a = (env, envs, m)" by (cases a)
  show ?case
  proof (cases "executeCommand env envs w m c")
    case (Ok p)
    obtain w1 c1 ev r where p: "p = (w1, c1, ev, r)" by (cases p)
    show ?thesis
    proof (cases "runCommands w1 c1 as")
      case (Ok q)
      obtain w2 c2 ev2 rs2 where q: "q = (w2, c2, ev2, rs2)" by (cases q)
      then show ?thesis
        using Ok \<open>executeCommand env envs w m c = Ok p\<close> p Cons.IH [of w1 c1]
        by (cases "runCommands w2 c2 bs") (auto simp: a)
    qed (use Ok p Cons.IH [of w1 c1] in \<open>simp add: a\<close>)
  qed (simp add: a)
qed

lemma dispatch_keeps_client:
  assumes "plain command" and "\<not> in_transaction c" and "dispatch exec env w command c = Ok (w', c', ev, r)"
  shows "c' = c"
  using dispatch_client [of command c "\<lambda>_. c" exec env w] assms by (simp add: withClient_def)

lemma dispatch_queues:
  assumes "plain command" and "in_transaction c" and "cqueue c = Some q"
  shows "dispatch exec env w command c =
    replyWith w (c\<lparr>cqueue := Some (queueCommand q command)\<rparr>) (createSimpleString ''QUEUED'')"
  using assms by (auto simp: plain_def dispatch_def split: RespValue.splits run.splits option.splits)

lemma runCommands_queue:
  assumes "list_all (\<lambda>(env, envs, m). plain m) steps" and "in_transaction c" and "cqueue c = Some q"
  shows "runCommands w c steps =
    Ok (w, c\<lparr>cqueue := Some (foldl queueCommand q (map (\<lambda>(env, envs, m). m) steps))\<rparr>, [],
        replicate (length steps) (Some (createSimpleString ''QUEUED'')))"
  using assms
proof (induction steps arbitrary: c q)
  case (Cons s steps)
  obtain env envs m where s: "s = (env, envs, m)" by (cases s)
  have "executeCommand env envs w m c =
      Ok (w, c\<lparr>cqueue := Some (queueCommand q m)\<rparr>, [], Some (createSimpleString ''QUEUED''))"
    using Cons.prems dispatch_queues [of m c q] by (simp add: s executeCommand_def replyWith_def)
  then show ?case
    using Cons.prems Cons.IH [of "c\<lparr>cqueue := Some (queueCommand q m)\<rparr>" "queueCommand q m"] by (simp add: s)
qed simp

lemma execLoop_sequential:
  assumes "list_all (\<lambda>(env, m). plain m) steps" and "\<not> in_transaction c"
    and "runCommands w c (map (\<lambda>(env, m). (env, E, m)) steps) = Ok (w', c', evs, map Some replies)"
    and "map_run_list (parseResponseToRespValue z) replies = Ok vs"
    and "\<And>i. i < length steps \<Longrightarrow> envs (n + i) = fst (steps ! i)"
    and "\<not> in_transaction (g c)" and "cfd (g c) = cfd c"
  shows "execLoop (\<lambda>n. executeQueued (envs n)) n z w (g c) (map snd steps) = Ok (w', g c, evs, vs)"
  using assms
proof (induction steps arbitrary: w evs replies vs n)
  case (Cons s steps)
  obtain env m where s: "s = (env, m)" by (cases s)
  obtain w1 c1 ev r evs2 rs2 where x: "executeCommand env E w m c = Ok (w1, c1, ev, r)"
    and rest: "runCommands w1 c1 (map (\<lambda>(env, m). (env, E, m)) steps) = Ok (w', c', evs2, rs2)"
    and res: "evs = ev @ evs2" "map Some replies = r # rs2"
    using Cons.prems(3) by (auto simp: s bind_run_Ok_iff)
  from res(2) obtain reply replies2 where rr: "replies = reply # replies2" "r = Some reply" "rs2 = map Some replies2"
    by (cases replies) auto
  have m: "plain m" using Cons.prems(1) by (simp add: s)
  have c1: "c1 = c" using dispatch_keeps_client [OF m Cons.prems(2) x [unfolded executeCommand_def]] .
  obtain v vs2 where v: "parseResponseToRespValue z reply = Ok v"
    "map_run_list (parseResponseToRespValue z) replies2 = Ok vs2" "vs = v # vs2"
    using Cons.prems(4) by (auto simp: rr bind_run_Ok_iff)
  have "executeQueued env w m (g c) = Ok (w1, g c, ev, r)"
    using dispatch_client [of m c g, OF m Cons.prems(2,6,7)] executeQueued_plain [OF m, of env w "g c" E] x
    by (simp add: executeCommand_def withClient_def c1)
  moreover have "execLoop (\<lambda>n. executeQueued (envs n)) (Suc n) z w1 (g c) (map snd steps) = Ok (w', g c, evs2, vs2)"
  proof (rule Cons.IH)
    show "envs (Suc n + i) = fst (steps ! i)" if "i < length steps" for i
      using Cons.prems(5) [of "Suc i"] that by simp
  qed (use Cons.prems rest v rr c1 in auto)
  moreover have "envs n = env" using Cons.prems(5) [of 0] by (simp add: s)
  ultimately show ?case by (simp add: s rr v res)
qed auto

lemma findHandler_table:
  "findHandler ''MULTI'' = Some \<lparr>cname = ''MULTI'', chandler = HMulti, minArgs = 1, maxArgs = Some 1\<rparr>"
  "findHandler ''EXEC'' = Some \<lparr>cname = ''EXEC'', chandler = HExec, minArgs = 1, maxArgs = Some 1\<rparr>"
  "findHandler ''DISCARD'' = Some \<lparr>cname = ''DISCARD'', chandler = HDiscard, minArgs = 0, maxArgs = None\<rparr>"
  "findHandler ''SET'' = Some \<lparr>cname = ''SET'', chandler = HSet, minArgs = 3, maxArgs = Some 5\<rparr>"
  "findHandler ''GET'' = Some \<lparr>cname = ''GET'', chandler = HGet, minArgs = 2, maxArgs = Some 2\<rparr>"
  "findHandler ''INCR'' = Some \<lparr>cname = ''INCR'', chandler = HIncr, minArgs = 2, maxArgs = Some 2\<rparr>"
  "findHandler ''XADD'' = Some \<lparr>cname = ''XADD'', chandler = HXadd, minArgs = 4, maxArgs = None\<rparr>"
  "findHandler ''PSYNC'' = Some \<lparr>cname = ''PSYNC'', chandler = HPsync, minArgs = 3, maxArgs = Some 3\<rparr>"
  by code_simp+

lemma names_transactional:
  "isTransactional ''MULTI''" "isTransactional ''EXEC''" "isTransactional ''DISCARD''"
  "\<not> isTransactional ''SET''" "\<not> isTransactional ''GET''" "\<not> isTransactional ''INCR''"
  "\<not> isTransactional ''XADD''" "\<not> isTransactional ''PSYNC''"
  by code_simp+

lemma names_propagate:
  "propagates s ''SET'' = (master_info (repl_info s) = None)" "propagates s ''GET'' = False"
  "propagates s ''INCR'' = True" "propagates s ''XADD'' = True" "propagates s ''PSYNC'' = False"
proof -
  have "strcaseeq ''SET'' ''SET''" "\<not> strcaseeq ''SET'' ''DEL''" "\<not> strcaseeq ''SET'' ''INCR''" "\<not> strcaseeq ''SET'' ''XADD''"
    "\<not> strcaseeq ''GET'' ''SET''" "\<not> strcaseeq ''GET'' ''DEL''" "\<not> strcaseeq ''GET'' ''INCR''" "\<not> strcaseeq ''GET'' ''XADD''"
    "strcaseeq ''INCR'' ''INCR''" "strcaseeq ''XADD'' ''XADD''"
    "\<not> strcaseeq ''PSYNC'' ''SET''" "\<not> strcaseeq ''PSYNC'' ''DEL''" "\<not> strcaseeq ''PSYNC'' ''INCR''" "\<not> strcaseeq ''PSYNC'' ''XADD''"
    by code_simp+
  then show "propagates s ''SET'' = (master_info (repl_info s) = None)" "propagates s ''GET'' = False"
    "propagates s ''INCR'' = True" "propagates s ''XADD'' = True" "propagates s ''PSYNC'' = False"
    by (simp_all add: propagates_def)
qed

lemma nul_free_names:
  "cstr ''MULTI'' = ''MULTI''" "cstr ''EXEC'' = ''EXEC''" "cstr ''DISCARD'' = ''DISCARD''"
  "cstr ''SET'' = ''SET''" "cstr ''GET'' = ''GET''" "cstr ''INCR'' = ''INCR''" "cstr ''XADD'' = ''XADD''"
  "cstr ''PSYNC'' = ''PSYNC''"
  by code_simp+

lemma argStr_bulk_0: "argStr (RespBulk s # es) 0 = Ok (cstr s)"
  by (simp add: argStr_def argBytes_def)

lemmas dispatch_simps = dispatch_def cmd_def findHandler_table names_transactional names_propagate
  nul_free_names argStr_bulk_0 runHandler_def

lemma multi_step:
  "executeCommand env envs w (cmd [''MULTI'']) c =
     Ok (w, c\<lparr>in_transaction := True\<rparr>, [], Some (createSimpleString ''OK''))"
  by (simp add: executeCommand_def dispatch_simps handleMulti_def replyWith_def)

lemma exec_step:
  "executeCommand env envs w (cmd [''EXEC'']) c = handleExec (\<lambda>n. executeQueued (envs n)) env w c"
  by (simp add: executeCommand_def dispatch_simps)

lemma discard_step: "executeCommand env envs w (cmd [''DISCARD'']) c = handleDiscard w c"
  by (simp add: executeCommand_def dispatch_simps)

lemma commands_queued: "commands (foldl queueCommand q cs) = commands q @ cs"
  using queue.slots_pushes [of q cs] by (simp add: queue.pushes_def map_idI)

definition idle :: "ClientState \<Rightarrow> bool" where
  "idle c = (\<not> in_transaction c \<and> (case cqueue c of None \<Rightarrow> False | Some q \<Rightarrow> commands q = []))"


text \<open>
  \<^verbatim>\<open>DISCARD\<close>: \<^verbatim>\<open>MULTI\<close>, any admissible commands and \<^verbatim>\<open>DISCARD\<close> change nothing on
  the server, send nothing to a replica, and leave the client outside a transaction with an
  empty queue.
\<close>

theorem discard_changes_nothing:
  assumes "idle c" and "list_all (\<lambda>(env, envs, m). plain m) steps"
  shows "runCommands w c ((menv, E, cmd [''MULTI'']) # steps @ [(denv, E, cmd [''DISCARD''])]) =
    Ok (w, c\<lparr>cqueue := Some createCommandQueue\<rparr>, [],
        Some (createSimpleString ''OK'') # replicate (length steps) (Some (createSimpleString ''QUEUED'')) @
        [Some (createSimpleString ''OK'')])"
proof -
  obtain q where q: "cqueue c = Some q" "\<not> in_transaction c"
    using assms(1) by (auto simp: idle_def split: option.splits)
  then show ?thesis
    using runCommands_queue [OF assms(2), of "c\<lparr>in_transaction := True\<rparr>" q w]
    by (cases c) (simp add: multi_step runCommands_append discard_step handleDiscard_def replyWith_def
        clearCommandQueue_def createCommandQueue_def)
qed

section \<open>The invariant of the server under every command\<close>

definition wf_world :: "World \<Rightarrow> bool" where
  "wf_world w = (wf_store (store w) \<and> wf_repl (repl_info (server w)))"

definition keeps_wf :: "reply run \<Rightarrow> bool" where
  "keeps_wf r = (case r of Ok (w, c, ev, x) \<Rightarrow> wf_world w | Fault _ \<Rightarrow> True)"

lemma keeps_wf_simps [simp]:
  "keeps_wf (Ok (w, c, ev, x)) = wf_world w"
  "keeps_wf (replyWith w c r) = wf_world w"
  "keeps_wf (Fault e) = True"
  by (simp_all add: keeps_wf_def replyWith_def)

lemma keeps_wf_bind: "(\<And>x. m = Ok x \<Longrightarrow> keeps_wf (f x)) \<Longrightarrow> keeps_wf (bind_run m f)"
  by (cases m) simp_all

lemma setStore_simps [simp]:
  "store (setStore w st) = st" "repl_info (server (setStore w st)) = repl_info (server w)"
  "dir (server (setStore w st)) = dir (server w)" "filename (server (setStore w st)) = filename (server w)"
  "wf_world (w\<lparr>wait_state := ws\<rparr>) = wf_world w" "wf_world (w\<lparr>has_new_data := b\<rparr>) = wf_world w"
  by (simp_all add: setStore_def store_def wf_world_def)

lemma wf_world_setStore: "wf_world w \<Longrightarrow> wf_store st \<Longrightarrow> wf_world (setStore w st)"
  by (simp add: wf_world_def)

lemma initialWorld_wf: "wf_server s \<Longrightarrow> wf_world (initialWorld s)"
  by (simp add: wf_world_def initialWorld_def store_def wf_server_def)

lemma wf_world_store: "wf_world w \<Longrightarrow> wf_store (store w)"
  by (simp add: wf_world_def)

lemma length_removeFd_le: "length (removeFd fd rs) \<le> length rs"
  by (induction rs) auto

lemma propagateLoop_length:
  "length (fst (propagateLoop oc m n i rs off out)) \<le> length rs"
proof (induction oc m n i rs off out rule: propagateLoop.induct)
  case (1 oc m n i rs off out)
  then show ?case
    using length_removeFd_le [of "rfd (rs ! i)" rs]
    by (subst propagateLoop.simps) (fastforce simp: Let_def)
qed

lemma propagateCommand_keeps:
  assumes "propagateCommand oc s m = Ok (s', out)"
  shows "db s' = db s" and "dir s' = dir s" and "filename s' = filename s"
    and "master_info (repl_info s') = master_info (repl_info s)" and "wf_repl (repl_info s) \<Longrightarrow> wf_repl (repl_info s')"
proof -
  from assms obtain es rs where rs: "replicas (repl_info s) = Some rs" and
    s': "s' = s\<lparr>repl_info := (repl_info s)\<lparr>replicas := Some (rs\<lparr>replicaList :=
      fst (propagateLoop oc (createRespArrayFromElements es) 0 0 (replicaList rs) (repl_offset (repl_info s)) [])\<rparr>),
      repl_offset := fst (snd (propagateLoop oc (createRespArrayFromElements es) 0 0 (replicaList rs) (repl_offset (repl_info s)) []))\<rparr>\<rparr>"
    by (auto simp: propagateCommand_def withReplicas_def bind_run_Ok_iff Let_def split_beta split: option.splits)
  have "length (fst (propagateLoop oc (createRespArrayFromElements es) 0 0 (replicaList rs) (repl_offset (repl_info s)) []))
      \<le> length (replicaList rs)" by (rule propagateLoop_length)
  then show "db s' = db s" "dir s' = dir s" "filename s' = filename s"
    "master_info (repl_info s') = master_info (repl_info s)" "wf_repl (repl_info s) \<Longrightarrow> wf_repl (repl_info s')"
    using rs by (simp_all add: s' wf_repl_def)
qed

lemma addReplica_keeps:
  "addReplica s fd = Ok s' \<Longrightarrow> wf_repl (repl_info s) \<Longrightarrow> wf_repl (repl_info s') \<and> db s' = db s"
  using replica_list.push_fits_again
  by (auto simp: addReplica_def withReplicas_def setReplicas_def wf_repl_def replica_list.fits_def split: option.splits)

definition env_ok :: "Env \<Rightarrow> bool" where
  "env_ok env = (\<forall>st. wf_store st \<longrightarrow> wf_store (meanwhile env st))"

lemma withReplicas_keeps: "(\<And>rs. keeps_wf (f rs)) \<Longrightarrow> keeps_wf (withReplicas s f)"
  by (auto simp: withReplicas_def split: option.splits)

lemmas keeps_intros = keeps_wf_bind withReplicas_keeps wf_world_setStore storeSet_keeps_wf setExpiry_keeps_wf wf_world_store

lemma handlers_keep_wf:
  assumes "wf_world w"
  shows "keeps_wf (handleSet env w es c)" "keeps_wf (handleGet env w es c)" "keeps_wf (handleType env w es c)"
    "keeps_wf (handleEcho w es c)" "keeps_wf (handlePing w c)" "keeps_wf (handleIncrement env w es c)"
    "keeps_wf (handleConfigGet w es c)" "keeps_wf (handleKeys env w es c)" "keeps_wf (handleInfo w c)"
    "keeps_wf (handleReplConf w es c)" "keeps_wf (handleWait env w es c)" "keeps_wf (handleXrange env w es c)"
    "keeps_wf (handleMulti w c)" "keeps_wf (handleDiscard w c)"
  unfolding handleSet_def handleGet_def handleType_def handleEcho_def handlePing_def
      handleIncrement_def handleConfigGet_def handleKeys_def handleInfo_def handleReplConf_def
      handleWait_def handleXrange_def handleMulti_def handleDiscard_def
  using assms by (auto simp: Let_def intro!: keeps_intros split: option.splits prod.splits)

lemma handleXadd_keeps_wf: "wf_world w \<Longrightarrow> keeps_wf (handleXadd env w es c)"
  unfolding handleXadd_def
  by (auto simp: Let_def intro!: keeps_intros dest: storeStreamAdd_keeps_wf [OF wf_world_store] split: option.splits)

lemma handleXread_keeps_wf:
  assumes "wf_world w" and "env_ok env"
  shows "keeps_wf (handleXread env w es c)"
proof -
  have "wf_store (meanwhile env (store w))" using assms by (simp add: env_ok_def wf_world_def)
  with assms(1) show ?thesis
    unfolding handleXread_def xreadReply_def
    by (auto simp: Let_def intro!: keeps_wf_bind wf_world_setStore split: option.splits prod.splits)
qed

lemma propagate_keeps_wf:
  "propagateCommand oc s m = Ok (s', out) \<Longrightarrow> wf_store (db s) \<Longrightarrow> wf_repl (repl_info s) \<Longrightarrow>
   wf_store (db s') \<and> wf_repl (repl_info s')"
  using propagateCommand_keeps by metis

lemma handlePsync_keeps_wf: "wf_world w \<Longrightarrow> keeps_wf (handlePsync w c)"
  unfolding handlePsync_def
  by (auto intro!: keeps_wf_bind dest!: addReplica_keeps simp: wf_world_def store_def)

lemma execLoop_keeps_wf:
  assumes "\<And>n w m c. wf_world w \<Longrightarrow> keeps_wf (exec n w m c)"
  shows "wf_world w \<Longrightarrow> execLoop exec n z w c cmds = Ok (w', c', evs, vs) \<Longrightarrow> wf_world w'"
proof (induction cmds arbitrary: n w c evs vs)
  case (Cons m cmds)
  from Cons.prems(2) obtain w1 c1 ev r where "exec n w m c = Ok (w1, c1, ev, r)"
    and "\<exists>n evs2 vs2. execLoop exec n z w1 c1 cmds = Ok (w', c', evs2, vs2)"
    by (fastforce simp: bind_run_Ok_iff split: option.splits)
  then show ?case using Cons.IH assms [OF Cons.prems(1), of n m c] by (auto simp: keeps_wf_def)
qed simp

lemma handleExec_keeps_wf:
  assumes "\<And>n w m c. wf_world w \<Longrightarrow> keeps_wf (exec n w m c)" and "wf_world w"
  shows "keeps_wf (handleExec exec env w c)"
  unfolding handleExec_def using assms(2) execLoop_keeps_wf [OF assms(1) assms(2)]
  by (auto intro!: keeps_wf_bind split: option.splits)

lemma dispatch_keeps_wf:
  assumes "\<And>n w m c. wf_world w \<Longrightarrow> keeps_wf (exec n w m c)" and "wf_world w" and "env_ok env"
  shows "keeps_wf (dispatch exec env w m c)"
proof -
  have run: "keeps_wf (runHandler exec h env w es c)" for h es
    unfolding runHandler_def
    by (cases h) (use assms handlers_keep_wf handleXadd_keeps_wf handleXread_keeps_wf handlePsync_keeps_wf
        handleExec_keeps_wf in auto)
  have "keeps_wf (if propagates (server w') name
      then bind_run (propagateCommand (outcome env) (server w') m) (\<lambda>(s, out). Ok (w'\<lparr>server := s\<rparr>, c', ev @ out, x))
      else Ok (w', c', ev, x))"
    if "runHandler exec h env w es c = Ok (w', c', ev, x)" for h es w' c' ev x name
    using run [of h es] that
    by (auto intro!: keeps_wf_bind dest!: propagate_keeps_wf simp: wf_world_def store_def)
  then show ?thesis
    unfolding dispatch_def using run assms(2)
    by (auto intro!: keeps_wf_bind split: RespValue.splits option.splits)
qed

lemma executeCommand_keeps_wf:
  assumes "wf_world w" and "env_ok env" and "\<And>n. env_ok (envs n)"
  shows "keeps_wf (executeCommand env envs w m c)"
  unfolding executeCommand_def
proof (rule dispatch_keeps_wf [OF _ assms(1,2)])
  show "keeps_wf (executeQueued (envs n) w m c)" if "wf_world w" for n w m c
    unfolding executeQueued_def by (rule dispatch_keeps_wf [OF _ that assms(3)]) simp
qed

text \<open>
  C10. The invariant of the server: every command of every client, transactions included,
  under every allocator, clock, file system and result of writes, that returns leaves the hash
  table well-formed and the replica list inside its allocation (or absent, on a replica); so
  does every sequence of commands.
\<close>

theorem commands_keep_wf:
  assumes "wf_world w" and "runCommands w c steps = Ok (w', c', evs, rs)"
    and "\<forall>(env, envs, m) \<in> set steps. env_ok env \<and> (\<forall>n. env_ok (envs n))"
  shows "wf_world w'"
  using assms
proof (induction steps arbitrary: w c evs rs)
  case (Cons s steps)
  obtain env envs m where s: "s = (env, envs, m)" by (cases s)
  with Cons.prems(2) obtain w1 c1 ev r evs2 rs2 where x: "executeCommand env envs w m c = Ok (w1, c1, ev, r)"
    and rest: "runCommands w1 c1 steps = Ok (w', c', evs2, rs2)"
    by (auto simp: bind_run_Ok_iff)
  have "wf_world w1"
    using executeCommand_keeps_wf [OF Cons.prems(1), of env envs m c] Cons.prems(3) x by (simp add: s keeps_wf_def)
  with rest Cons.prems(3) Cons.IH show ?case by auto
qed simp

section \<open>Strings\<close>

lemma propagate_Ok:
  assumes "replicas (repl_info s) = Some rs"
  shows "\<exists>s' out. propagateCommand oc s (cmd args) = Ok (s', out)"
  using assms by (auto simp: propagateCommand_def withReplicas_def cmd_def Let_def split: prod.splits)

lemma finish_command:
  assumes "wf_repl (repl_info (server w'))" and "propagates (server w') name \<longrightarrow> master_info (repl_info (server w')) = None"
  obtains w2 out where "(if propagates (server w') name then
        bind_run (propagateCommand oc (server w') (cmd args)) (\<lambda>(s, out). Ok (w'\<lparr>server := s\<rparr>, c, ev @ out, r))
      else Ok (w', c, ev, r)) = Ok (w2, c, out, r)"
    and "store w2 = store w'" and "dir (server w2) = dir (server w')" and "filename (server w2) = filename (server w')"
    and "wf_repl (repl_info (server w2))" and "master_info (repl_info (server w2)) = master_info (repl_info (server w'))"
proof (cases "propagates (server w') name")
  case True
  then obtain rs where "replicas (repl_info (server w')) = Some rs"
    using assms by (auto simp: wf_repl_def split: option.splits)
  then obtain s' out where p: "propagateCommand oc (server w') (cmd args) = Ok (s', out)"
    using propagate_Ok by blast
  from True p that [of "w'\<lparr>server := s'\<rparr>" "ev @ out"] propagateCommand_keeps [OF p] assms(1)
  show ?thesis by (simp add: store_def)
qed (use assms that in \<open>simp add: store_def\<close>)

lemma plain_command:
  assumes "findHandler (cstr name) = Some h" and "\<not> isTransactional (cstr name)"
    and "minArgs h \<le> Suc (length args)" and "case maxArgs h of None \<Rightarrow> True | Some m \<Rightarrow> Suc (length args) \<le> m"
    and "\<not> in_transaction c"
    and run: "runHandler (\<lambda>n. executeQueued (envs n)) (chandler h) env w (map RespBulk (name # args)) c = Ok (wr, c, ev, r)"
    and wf: "wf_repl (repl_info (server wr))"
    and pr: "propagates (server wr) (cstr name) \<longrightarrow> master_info (repl_info (server wr)) = None"
  obtains w2 out where "executeCommand env envs w (cmd (name # args)) c = Ok (w2, c, out, r)"
    and "store w2 = store wr" and "dir (server w2) = dir (server wr)" and "filename (server w2) = filename (server wr)"
    and "wf_repl (repl_info (server w2))" and "master_info (repl_info (server w2)) = master_info (repl_info (server wr))"
proof (rule finish_command [OF wf pr])
  fix w2 out
  assume fin: "(if propagates (server wr) (cstr name) then
        bind_run (propagateCommand (outcome env) (server wr) (cmd (name # args)))
          (\<lambda>(s, out). Ok (wr\<lparr>server := s\<rparr>, c, ev @ out, r))
      else Ok (wr, c, ev, r)) = Ok (w2, c, out, r)"
    and keep: "store w2 = store wr" "dir (server w2) = dir (server wr)" "filename (server w2) = filename (server wr)"
    "wf_repl (repl_info (server w2))" "master_info (repl_info (server w2)) = master_info (repl_info (server wr))"
  have "executeCommand env envs w (cmd (name # args)) c = Ok (w2, c, out, r)"
    using assms(1-5) run fin
    by (cases "maxArgs h") (simp_all add: executeCommand_def dispatch_def cmd_def argStr_bulk_0 cong: if_cong)
  then show thesis using keep by (rule that)
qed

text \<open>The environment of a command that gets all the memory it asks for.\<close>

definition roomy :: "Env \<Rightarrow> bool" where
  "roomy env = (alloc env = always)"

lemma set_command:
  assumes "wf_world w" and "\<not> in_transaction c" and "nul_free k" and "roomy env"
  obtains w' ev where "executeCommand env envs w (cmd [''SET'', k, v]) c =
      Ok (w', c, ev, Some (createSimpleString ''OK''))"
    and "store w' = setAlways (store w) k v" and "wf_world w'"
    and "dir (server w') = dir (server w)" and "filename (server w') = filename (server w)"
proof -
  note that' = that
  let ?w = "setStore w (setAlways (store w) k v)"
  have wf: "wf_store (setAlways (store w) k v)"
    using assms(1) strings.inv_put [of "store w"] by (simp add: wf_world_def)
  have h: "handleSet env w (map RespBulk [''SET'', k, v]) c = Ok (?w, c, [], Some (createSimpleString ''OK''))"
    using assms(3,4) by (simp add: handleSet_def roomy_def setAlways_def replyWith_def argStr_def argBytes_def)
  show ?thesis
  proof (rule plain_command [where name = "''SET''" and args = "[k, v]" and wr = ?w and c = c and env = env
        and envs = envs and w = w])
    show "findHandler (cstr ''SET'') = Some \<lparr>cname = ''SET'', chandler = HSet, minArgs = 3, maxArgs = Some 5\<rparr>"
      by (simp add: nul_free_names findHandler_table)
    show "thesis" if "executeCommand env envs w (cmd [''SET'', k, v]) c = Ok (w2, c, out, Some (createSimpleString ''OK''))"
      "store w2 = store ?w" "dir (server w2) = dir (server ?w)" "filename (server w2) = filename (server ?w)"
      "wf_repl (repl_info (server w2))" for w2 out
      using that(1) by (rule that') (use that wf in \<open>simp_all add: wf_world_def\<close>)
  qed (use assms h in \<open>simp_all add: nul_free_names names_transactional names_propagate wf_world_def runHandler_def\<close>)
qed


section \<open>Counters\<close>

definition holdsNumber :: "World \<Rightarrow> string \<Rightarrow> int \<Rightarrow> bool" where
  "holdsNumber w k m = (absStore (store w) k = Some (StringValue (show_int m), 0))"

lemma incr_command:
  assumes "wf_world w" and "\<not> in_transaction c" and "nul_free k" and "roomy env"
    and "master_info (repl_info (server w)) = None" and "holdsNumber w k m"
    and "- (2 ^ 63) \<le> m" and "m < 2 ^ 63 - 1"
  obtains w' ev where "executeCommand env envs w (cmd [''INCR'', k]) c = Ok (w', c, ev, Some (createInteger (m + 1)))"
    and "wf_world w'" and "master_info (repl_info (server w')) = None" and "holdsNumber w' k (m + 1)"
proof -
  note that' = that
  let ?w = "setStore w (setAlways (store w) k (show_int (m + 1)))"
  have wf: "wf_store (store w)" using assms(1) by (simp add: wf_world_def)
  then have wf2: "wf_store (setAlways (store w) k (show_int (m + 1)))" by (rule strings.inv_put)
  have "storeGet always (now env) (store w) k = Ok (Some (show_int m))"
    using assms(6) by (auto simp: holdsNumber_def absStore_def storeGet_def split: option.splits)
  moreover have "strtoll (show_int m) = (m, [])" using assms(7,8) strtoll_show_int [of m] by simp
  ultimately have h: "handleIncrement env w (map RespBulk [''INCR'', k]) c = Ok (?w, c, [], Some (createInteger (m + 1)))"
    using assms(3,4,8) by (simp add: handleIncrement_def roomy_def replyWith_def argStr_def argBytes_def setAlways_def)
  have new: "holdsNumber w2 k (m + 1)" if "store w2 = store ?w" for w2
    using assms(6) that by (auto simp: holdsNumber_def absStore_def findEntry_storeSet [OF wf])
  show ?thesis
  proof (rule plain_command [where name = "''INCR''" and args = "[k]" and wr = ?w and c = c and env = env
        and envs = envs and w = w])
    show "findHandler (cstr ''INCR'') = Some \<lparr>cname = ''INCR'', chandler = HIncr, minArgs = 2, maxArgs = Some 2\<rparr>"
      by (simp add: nul_free_names findHandler_table)
    show "thesis" if "executeCommand env envs w (cmd [''INCR'', k]) c = Ok (w2, c, out, Some (createInteger (m + 1)))"
      "store w2 = store ?w" "wf_repl (repl_info (server w2))"
      "master_info (repl_info (server w2)) = master_info (repl_info (server ?w))" for w2 out
      using that(1) by (rule that') (use that wf2 assms(5) new in \<open>simp_all add: wf_world_def\<close>)
  qed (use assms h in \<open>simp_all add: nul_free_names names_transactional names_propagate wf_world_def runHandler_def\<close>)
qed

text \<open>
  C29. \<^verbatim>\<open>INCR\<close> counts: on a well-formed master, \<open>n\<close> \<^verbatim>\<open>INCR\<close> commands on a key that holds the
  decimal text of \<open>m\<close>, without an expiry, answer \<open>m + 1\<close> up to \<open>m + n\<close> and leave the text of
  \<open>m + n\<close>, as long as this is a 64-bit number; negative numbers included.
\<close>

theorem incr_counts:
  assumes "wf_world w" and "\<not> in_transaction c" and "nul_free k" and "list_all roomy envl"
    and "master_info (repl_info (server w)) = None" and "holdsNumber w k m"
    and "- (2 ^ 63) \<le> m" and "m + int (length envl) < 2 ^ 63"
  shows "\<exists>w' evs. runCommands w c (map (\<lambda>env. (env, E, cmd [''INCR'', k])) envl) =
      Ok (w', c, evs, map (\<lambda>i. Some (createInteger i)) [m + 1..m + int (length envl)]) \<and>
    holdsNumber w' k (m + int (length envl))"
  using assms
proof (induction envl arbitrary: w m)
  case (Cons env envl)
  have "m < 2 ^ 63 - 1" using Cons.prems(8) by simp
  then obtain w1 ev where x: "executeCommand env E w (cmd [''INCR'', k]) c = Ok (w1, c, ev, Some (createInteger (m + 1)))"
    and w1: "wf_world w1" "master_info (repl_info (server w1)) = None" "holdsNumber w1 k (m + 1)"
    using incr_command [of w c k env m E] Cons.prems by auto
  have "- (2 ^ 63) \<le> m + 1" "m + 1 + int (length envl) < 2 ^ 63" using Cons.prems(7,8) by simp_all
  then obtain w' evs where "runCommands w1 c (map (\<lambda>env. (env, E, cmd [''INCR'', k])) envl) =
      Ok (w', c, evs, map (\<lambda>i. Some (createInteger i)) [m + 1 + 1..m + 1 + int (length envl)])"
    "holdsNumber w' k (m + 1 + int (length envl))"
    using Cons.IH [OF w1(1) Cons.prems(2,3) _ w1(2,3)] Cons.prems(4) by auto
  moreover have "[m + 1..m + int (length (env # envl))] = (m + 1) # [m + 1 + 1..m + 1 + int (length envl)]"
    by (subst upto_rec1) (simp_all add: algebra_simps)
  ultimately show ?case using x by (simp add: algebra_simps)
qed simp

section \<open>Faults\<close>

text \<open>
  The test that decides about propagation applies its first condition, that the server is a
  master, to \<^verbatim>\<open>SET\<close> only: on a replica every \<^verbatim>\<open>INCR\<close> of a new key is executed and then
  propagated through the replica list, which is NULL there.
\<close>

theorem replica_incr_faults:
  assumes "wf_world w" and "master_info (repl_info (server w)) \<noteq> None" and "\<not> in_transaction c"
    and "nul_free k" and "roomy env" and "absStore (store w) k = None"
  shows "executeCommand env E w (cmd [''INCR'', k]) c = Fault NullDeref"
proof -
  have "replicas (repl_info (server w)) = None"
    using assms(1,2) by (auto simp: wf_world_def wf_repl_def split: option.splits)
  moreover have "storeGet always (now env) (store w) k = Ok None"
    using assms(6) by (simp add: absStore_def storeGet_def)
  ultimately show ?thesis
    using assms(3-5)
    by (simp add: executeCommand_def dispatch_simps handleIncrement_def roomy_def replyWith_def argStr_def
        argBytes_def propagateCommand_def withReplicas_def)
qed

text \<open>
  \<^verbatim>\<open>XADD\<close> with an identifier that does not parse crashes the server: \<^verbatim>\<open>streamAdd\<close> returns
  NULL and the handler reads its first character.
\<close>

theorem xadd_malformed_id_faults:
  assumes "wf_world w" and "\<not> in_transaction c" and "nul_free k" and "nul_free i"
    and "absStore (store w) k = None" and "parseStreamID (streamNow env) i = None"
  shows "executeCommand env E w (cmd [''XADD'', k, i, f, v]) c = Fault NullDeref"
proof -
  have n: "findEntry (store w) k = None" using assms(5) by (simp add: absStore_def)
  have "xaddFields (map RespBulk [''XADD'', k, i, f, v]) = Ok [(cstr f, cstr v)]"
    by (simp add: xaddFields_def argStr_def argBytes_def)
  moreover have "resolveID (streamNow env) (streamTarget (store w) k) i = Ok None"
    using assms(6) by (simp add: resolveID_def)
  ultimately show ?thesis
    using assms(2-4) storeStreamAdd_eq [OF wf_world_store [OF assms(1)] disjI1 [OF n]]
    by (simp add: executeCommand_def dispatch_simps handleXadd_def argStr_def argBytes_def streamAdd_def)
qed

section \<open>Acknowledgements\<close>

lemma ack_iterate:
  "((\<lambda>s. fst (ackStep s)) ^^ j) \<lparr>remaining_count = n, acks_received = 0, completed = b\<rparr> =
     \<lparr>remaining_count = n - of_nat j, acks_received = of_nat j, completed = b\<rparr>"
  by (induction j) (simp_all add: ackStep_def Let_def)

text \<open>
  \<^verbatim>\<open>WAIT n\<close> is woken after half of the acknowledgements: an \<^verbatim>\<open>ACK\<close> increments the number
  received and decrements the number remaining before it compares the two, so the \<open>j\<close>-th
  acknowledgement signals the waiting client as soon as \<open>2 * j\<close> is at least \<open>n\<close>.
\<close>

theorem wait_signalled_at_half:
  assumes "0 < j" and "j \<le> n" and "n < 2 ^ 63"
  shows "snd (ackStep (((\<lambda>s. fst (ackStep s)) ^^ (j - 1))
      \<lparr>remaining_count = of_nat n, acks_received = 0, completed = False\<rparr>)) \<longleftrightarrow> n \<le> 2 * j"
proof -
  obtain i where j: "j = Suc i" using assms(1) by (cases j) auto
  have le: "of_nat a \<le> (of_nat b :: 64 word) \<longleftrightarrow> a \<le> b" if "a < 2 ^ 64" "b < 2 ^ 64" for a b
    using that by (simp add: word_le_nat_alt unat_of_nat)
  have "(of_nat n :: 64 word) - of_nat i - 1 = of_nat (n - Suc i)"
    using assms(2) by (simp add: j of_nat_diff)
  then have "snd (ackStep (((\<lambda>s. fst (ackStep s)) ^^ (j - 1))
      \<lparr>remaining_count = of_nat n, acks_received = 0, completed = False\<rparr>)) \<longleftrightarrow>
      (of_nat (n - Suc i) :: 64 word) \<le> of_nat (Suc i)"
    unfolding j diff_Suc_1 ack_iterate by (simp add: ackStep_def Let_def add.commute)
  also have "\<dots> \<longleftrightarrow> n \<le> 2 * j" using assms by (subst le) (auto simp: j)
  finally show ?thesis .
qed

theorem wait_signalled_at_half_witness:
  "snd (ackStep (((\<lambda>s. fst (ackStep s)) ^^ 0) \<lparr>remaining_count = 2, acks_received = 0, completed = False\<rparr>))"
  using wait_signalled_at_half [of 1 2] by simp

section \<open>Concrete states\<close>

definition example_env :: Env where
  "example_env =
     \<lparr>alloc = always, tod = (0, 5000000), junk = 0, zeroed = False, fs = (\<lambda>_. None),
      outcome = (\<lambda>_. 29), waitOutcome = WaitTimedOut, meanwhile = (\<lambda>st. st), acks = 0\<rparr>"

definition example_world :: World where
  "example_world =
     initialWorld (example_master\<lparr>db := emptyStore,
        repl_info := (repl_info example_master)\<lparr>replicas :=
          Some \<lparr>replicaList = [\<lparr>rfd = 7, ack_offset = 0\<rparr>], replica_capacity = 16\<rparr>\<rparr>\<rparr>)"

definition example_replica :: World where
  "example_replica =
     example_world\<lparr>server := (server example_world)\<lparr>repl_info := (repl_info example_master)
       \<lparr>master_info := Some \<lparr>mhost = ''localhost'', mport = 6379, mfd = Some 3\<rparr>, replicas := None\<rparr>\<rparr>\<rparr>"

definition example_client :: ClientState where
  "example_client = \<lparr>cfd = 9, in_transaction = False, cqueue = Some createCommandQueue\<rparr>"

lemma example_wf: "wf_world example_world" "wf_world example_replica" "idle example_client"
  "\<not> in_transaction example_client" "roomy example_env" "env_ok example_env"
  by (code_simp, code_simp, code_simp, code_simp)
    (simp_all add: roomy_def env_ok_def example_env_def)


definition example_steps :: "(Env \<times> RespValue) list" where
  "example_steps = [(example_env, cmd [''SET'', ''k'', ''41'']), (example_env, cmd [''INCR'', ''k''])]"

definition example_after :: World where
  "example_after =
     (case runCommands example_world example_client
        (map (\<lambda>(env, m). (env, (\<lambda>_. example_env), m)) example_steps) of
        Ok (w, _) \<Rightarrow> w | Fault _ \<Rightarrow> example_world)"

lemma example_direct:
  "runCommands example_world example_client (map (\<lambda>(env, m). (env, (\<lambda>_. example_env), m)) example_steps) =
     Ok (example_after, example_client,
         [Wrote 7 (''*3'' @ crlf @ ''$3'' @ crlf @ ''SET'' @ crlf @ ''$1'' @ crlf @ ''k'' @ crlf @ ''$2'' @ crlf @ ''41'' @ crlf),
          Wrote 7 (''*2'' @ crlf @ ''$4'' @ crlf @ ''INCR'' @ crlf @ ''$1'' @ crlf @ ''k'' @ crlf)],
         map Some [''+OK'' @ crlf, '':42'' @ crlf])"
  by code_simp

lemma example_plain: "list_all (\<lambda>(env, m). plain m) example_steps"
  by code_simp


theorem discard_changes_nothing_witness:
  "runCommands example_world example_client
     [(example_env, \<lambda>_. example_env, cmd [''MULTI'']),
      (example_env, \<lambda>_. example_env, cmd [''SET'', ''k'', ''41'']),
      (example_env, \<lambda>_. example_env, cmd [''DISCARD''])] =
   Ok (example_world, example_client, [], [Some (''+OK'' @ crlf), Some (''+QUEUED'' @ crlf), Some (''+OK'' @ crlf)])"
proof -
  have r: "createSimpleString ''OK'' = ''+OK'' @ crlf" "createSimpleString ''QUEUED'' = ''+QUEUED'' @ crlf"
    and c: "example_client\<lparr>cqueue := Some createCommandQueue\<rparr> = example_client"
    and p: "plain (cmd [''SET'', ''k'', ''41''])"
    by code_simp+
  show ?thesis
    using discard_changes_nothing [OF example_wf(3),
        of "[(example_env, \<lambda>_. example_env, cmd [''SET'', ''k'', ''41''])]" example_world example_env "\<lambda>_. example_env" example_env] p
    unfolding r c by simp
qed

theorem commands_keep_wf_witness: "wf_world example_after"
  by (rule commands_keep_wf [OF example_wf(1) example_direct])
    (auto simp: example_steps_def example_wf(6))

theorem incr_counts_witness:
  "\<exists>w' evs. runCommands example_after example_client
      [(example_env, \<lambda>_. example_env, cmd [''INCR'', ''k'']), (example_env, \<lambda>_. example_env, cmd [''INCR'', ''k''])] =
      Ok (w', example_client, evs, [Some ('':43'' @ crlf), Some ('':44'' @ crlf)]) \<and> holdsNumber w' ''k'' 44"
proof -
  have wf: "wf_world example_after" by code_simp
  have h: "holdsNumber example_after ''k'' 42" and k: "nul_free ''k''"
    and m: "master_info (repl_info (server example_after)) = None"
    and r: "createInteger 43 = '':43'' @ crlf" "createInteger 44 = '':44'' @ crlf"
    by code_simp+
  show ?thesis
    using incr_counts [OF wf example_wf(4) k _ m h, of "[example_env, example_env]" "\<lambda>_. example_env"] example_wf(5)
    by (simp add: r upto_rec1)
qed

theorem replica_incr_faults_witness:
  "executeCommand example_env (\<lambda>_. example_env) example_replica (cmd [''INCR'', ''k'']) example_client = Fault NullDeref"
proof (rule replica_incr_faults [OF example_wf(2) _ example_wf(4) _ example_wf(5)])
  show "master_info (repl_info (server example_replica)) \<noteq> None" by code_simp
  show "nul_free ''k''" by code_simp
  show "absStore (store example_replica) ''k'' = None" by code_simp
qed

theorem xadd_malformed_id_faults_witness:
  "executeCommand example_env (\<lambda>_. example_env) example_world (cmd [''XADD'', ''s'', ''abc'', ''f'', ''v'']) example_client =
     Fault NullDeref"
proof (rule xadd_malformed_id_faults [OF example_wf(1,4)])
  show "nul_free ''s''" "nul_free ''abc''" by code_simp+
  show "absStore (store example_world) ''s'' = None" by code_simp
  show "parseStreamID (streamNow example_env) ''abc'' = None" by code_simp
qed

end
