(* ===== verification/Handshake.thy ===== *)
theory Handshake
  imports Networking Command
begin

text \<open>
  The replica's side of the replication handshake, \<^verbatim>\<open>src/app/handshake.c\<close>, over the socket
  helpers, and what it does against a master that runs \<^verbatim>\<open>executeCommand\<close>. The bytes that
  arrive from the master are given in advance as a list of chunks; \<open>ocs i k\<close> is the result of
  the \<open>k\<close>-th write of the \<open>i\<close>-th command.
\<close>

section \<open>Operations\<close>

text \<open>\<^verbatim>\<open>createReplicationInfo\<close> leaves the pointer to the replicas unset, here \<open>unset\<close>.\<close>

definition createReplicationInfo :: "Replicas option \<Rightarrow> string \<Rightarrow> int \<Rightarrow> ReplicationInfo" where
  "createReplicationInfo unset host p =
     \<lparr>master_info = Some \<lparr>mhost = cstr host, mport = p, mfd = Some (- 1)\<rparr>, replication_id = REPLICATION_ID,
      repl_offset = 0, replicas = unset\<rparr>"

text \<open>The descriptor is closed when it is valid; one that was never stored is read all the same.\<close>

definition freeReplicationInfo :: "ReplicationInfo option \<Rightarrow> io_event list run" where
  "freeReplicationInfo ri =
     (case ri of
        None \<Rightarrow> Ok []
      | Some r \<Rightarrow>
          (case master_info r of
             None \<Rightarrow> Ok []
           | Some m \<Rightarrow>
               (case mfd m of
                  None \<Rightarrow> Fault UninitRead
                | Some fd \<Rightarrow> Ok (if 0 \<le> fd then [Closed fd] else []))))"

definition RESPONSE_SIZE :: nat where
  "RESPONSE_SIZE = 1024"

text \<open>
  One exchange of the handshake: the array of \<open>elements\<close> is written and a line is read, which
  has to begin with \<open>expected\<close>.
\<close>

definition exchange ::
  "(nat \<Rightarrow> int) \<Rightarrow> int \<Rightarrow> string list \<Rightarrow> string \<Rightarrow> chunk list \<Rightarrow> io_event list \<times> chunk list \<times> bool" where
  "exchange oc fd elements expected cs =
     (case writeExactly oc fd (createRespArray elements) of
        (sent, False) \<Rightarrow> ([Wrote fd sent], cs, False)
      | (sent, True) \<Rightarrow>
          (case readLine fd RESPONSE_SIZE cs of
             (cs', None) \<Rightarrow> ([Wrote fd sent], cs', False)
           | (cs', Some response) \<Rightarrow>
               ([Wrote fd sent], cs', take (length expected) (cstr response) = expected)))"

fun exchanges ::
  "(nat \<Rightarrow> nat \<Rightarrow> int) \<Rightarrow> nat \<Rightarrow> int \<Rightarrow> (string list \<times> string) list \<Rightarrow> chunk list
     \<Rightarrow> io_event list \<times> chunk list \<times> bool" where
  "exchanges ocs i fd [] cs = ([], cs, True)"
| "exchanges ocs i fd ((elements, expected) # steps) cs =
     (case exchange (ocs i) fd elements expected cs of
        (ev, cs', False) \<Rightarrow> (ev, cs', False)
      | (ev, cs', True) \<Rightarrow>
          (case exchanges ocs (Suc i) fd steps cs' of (evs, cs'', ok) \<Rightarrow> (ev @ evs, cs'', ok)))"

definition handshakeSteps :: "int \<Rightarrow> (string list \<times> string) list" where
  "handshakeSteps listening_port =
     [([''PING''], ''+PONG''),
      ([''REPLCONF'', ''listening-port'', show_int listening_port], ''+OK''),
      ([''REPLCONF'', ''capa'', ''psync2''], ''+OK''),
      ([''PSYNC'', ''?'', ''-1''], ''+FULLRESYNC'')]"

text \<open>The size of the snapshot and the snapshot, whose bytes are dropped.\<close>

definition receiveSnapshot :: "int \<Rightarrow> chunk list \<Rightarrow> chunk list \<times> bool" where
  "receiveSnapshot fd cs =
     (case readLine fd RESPONSE_SIZE cs of
        (cs1, None) \<Rightarrow> (cs1, False)
      | (cs1, Some response) \<Rightarrow>
          if take 1 response \<noteq> ''$'' then (cs1, False)
          else
            let rdb_size = atoi (cstr (tl response)) in
            (case readLoop (nat rdb_size) [] cs1 of
               (cs2, None) \<Rightarrow> (cs2, False)
             | (cs2, Some rdb_data) \<Rightarrow> (cs2, True)))"

text \<open>The events, what is left of the input, the new \<^verbatim>\<open>master_info\<close> and whether 0 is returned.\<close>

definition startReplication ::
  "SocketCalls \<Rightarrow> (nat \<Rightarrow> nat \<Rightarrow> int) \<Rightarrow> chunk list \<Rightarrow> MasterInfo \<Rightarrow> int
     \<Rightarrow> io_event list \<times> chunk list \<times> MasterInfo \<times> bool" where
  "startReplication sys ocs cs mi listening_port =
     (case connectToHost sys (mhost mi) (mport mi) of
        (ev0, None) \<Rightarrow> (ev0, cs, mi, False)
      | (ev0, Some fd) \<Rightarrow>
          (case exchanges ocs 0 fd (handshakeSteps listening_port) cs of
             (ev1, cs1, False) \<Rightarrow> (ev0 @ ev1 @ [Closed fd], cs1, mi, False)
           | (ev1, cs1, True) \<Rightarrow>
               (case receiveSnapshot fd cs1 of
                  (cs2, False) \<Rightarrow> (ev0 @ ev1 @ [Closed fd], cs2, mi, False)
                | (cs2, True) \<Rightarrow> (ev0 @ ev1, cs2, mi\<lparr>mfd := Some fd\<rparr>, True))))"

section \<open>The replica's side\<close>

lemma connectToHost_fd: "connectToHost sys h p = (ev, Some fd) \<Longrightarrow> ev = [] \<and> 0 \<le> fd \<and> 0 < p"
  by (auto simp: connectToHost_def Let_def split: if_splits)

lemma writeExactly_all:
  "0 \<le> fd \<Longrightarrow> data \<noteq> [] \<Longrightarrow> (\<And>k. 0 < oc k) \<Longrightarrow> writeExactly oc fd data = (data, True)"
  by (simp add: writeExactly_def writeLoop_all)

lemma readLine_flat:
  assumes "chunks_ok cs" and "flat cs = l @ crlf @ t" and "CR \<notin> set l" and "length l \<le> 1020" and "0 \<le> fd"
  obtains cs' where "readLine fd RESPONSE_SIZE cs = (cs', Some (l @ crlf))" and "flat cs' = t" and "chunks_ok cs'"
  using lineLoop_flat [OF assms(1-3), of "[]" 1023] assms(4,5) by (auto simp: readLine_def RESPONSE_SIZE_def)

lemma createRespArray_ne: "createRespArray es \<noteq> []"
  by (simp add: createRespArray_eq encodeCommand_def arrayHeader_def)

lemma exchange_flat:
  assumes "chunks_ok cs" and "flat cs = (p @ l) @ crlf @ t" and "CR \<notin> set (p @ l)" and "length (p @ l) \<le> 1020"
    and "0 \<le> fd" and "\<And>k. 0 < oc k" and "nul_free p"
  obtains cs' where "exchange oc fd es p cs = ([Wrote fd (createRespArray es)], cs', True)"
    and "flat cs' = t" and "chunks_ok cs'"
proof -
  obtain cs' where "readLine fd RESPONSE_SIZE cs = (cs', Some ((p @ l) @ crlf))" "flat cs' = t" "chunks_ok cs'"
    using readLine_flat [OF assms(1-5)] .
  with that [of cs'] show ?thesis
    using writeExactly_all [OF assms(5) createRespArray_ne, of oc es] assms(6,7)
    by (simp add: exchange_def cstr_append_nul_free)
qed

text \<open>The line that is expected at every step, then the lines themselves, follow one another.\<close>

lemma exchanges_flat:
  assumes "chunks_ok cs" and "0 \<le> fd" and "\<And>i k. 0 < ocs i k"
    and "list_all2 (\<lambda>(es, p) l. nul_free p \<and> take (length p) l = p \<and> CR \<notin> set l \<and> length l \<le> 1020) steps ls"
    and "flat cs = concat (map (\<lambda>l. l @ crlf) ls) @ t"
  shows "\<exists>cs'. exchanges ocs i fd steps cs = (map (\<lambda>(es, p). Wrote fd (createRespArray es)) steps, cs', True) \<and>
    flat cs' = t \<and> chunks_ok cs'"
  using assms(4,1,5)
proof (induction steps ls arbitrary: i cs rule: list_all2_induct)
  case (Cons s steps l ls)
  obtain es p where s: "s = (es, p)" by (cases s)
  from Cons.hyps(1) have l: "nul_free p" "l = p @ drop (length p) l" "CR \<notin> set l" "length l \<le> 1020"
    unfolding s by (auto, metis append_take_drop_id)
  have fl: "flat cs = (p @ drop (length p) l) @ crlf @ concat (map (\<lambda>l. l @ crlf) ls) @ t"
    using Cons.prems(2) unfolding l(2) [symmetric] by simp
  obtain cs1 where 1: "exchange (ocs i) fd es p cs = ([Wrote fd (createRespArray es)], cs1, True)"
    "flat cs1 = concat (map (\<lambda>l. l @ crlf) ls) @ t" "chunks_ok cs1"
    using exchange_flat [OF Cons.prems(1) fl _ _ assms(2), of "ocs i" es] l assms(3) by metis
  obtain cs2 where "exchanges ocs (Suc i) fd steps cs1 = (map (\<lambda>(es, p). Wrote fd (createRespArray es)) steps, cs2, True)"
    "flat cs2 = t" "chunks_ok cs2"
    using Cons.IH [OF 1(3,2)] by blast
  with 1(1) show ?case by (simp add: s)
qed simp

lemma receiveSnapshot_flat:
  assumes "chunks_ok cs" and "flat cs = bulkHeader (length d) @ d @ t" and "0 \<le> fd" and "length d < 2 ^ 31"
  obtains cs' where "receiveSnapshot fd cs = (cs', True)" and "flat cs' = t" and "chunks_ok cs'"
proof -
  have len: "length (show_nat (length d)) \<le> 10"
    unfolding show_nat_def using assms(4) by (intro length_show_digits) auto
  have fl: "flat cs = (''$'' @ show_nat (length d)) @ crlf @ d @ t" using assms(2) by (simp add: bulkHeader_def)
  obtain cs1 where 1: "readLine fd RESPONSE_SIZE cs = (cs1, Some ((''$'' @ show_nat (length d)) @ crlf))"
    "flat cs1 = d @ t" "chunks_ok cs1"
    using readLine_flat [OF assms(1) fl _ _ assms(3)] len by auto
  have "scan_number (show_digits (int (length d)) @ crlf) = (False, int (length d), crlf)"
    by (rule scan_number_show) (simp_all add: crlf_def)
  then have "atoi (cstr (show_nat (length d) @ crlf)) = int (length d)"
    using assms(4) by (simp add: atoi_def atoll_def strtoll_def show_nat_def digits_nul_free show_digits_digits
        cstr_append_nul_free signed_take_bit_int_eq_self_iff)
  moreover obtain cs2 where "readLoop (length d) [] cs1 = (cs2, Some d)" "flat cs2 = t" "chunks_ok cs2"
    using readLoop_flat [OF 1(3), of "[]" "length d"] 1(2) by auto
  ultimately show ?thesis using that 1(1) by (simp add: receiveSnapshot_def)
qed

section \<open>The master's side\<close>

lemma replica_commands:
  "findHandler ''PING'' = Some \<lparr>cname = ''PING'', chandler = HPing, minArgs = 1, maxArgs = Some 1\<rparr>"
  "findHandler ''REPLCONF'' = Some \<lparr>cname = ''REPLCONF'', chandler = HReplconf, minArgs = 3, maxArgs = Some 3\<rparr>"
  "\<not> isTransactional ''PING''" "\<not> isTransactional ''REPLCONF''" "cstr ''PING'' = ''PING''" "cstr ''REPLCONF'' = ''REPLCONF''"
  by code_simp+

lemma replica_commands_propagate: "\<not> propagates s ''PING''" "\<not> propagates s ''REPLCONF''"
proof -
  have "\<not> strcaseeq a b" if "a \<in> {''PING'', ''REPLCONF''}" "b \<in> {''SET'', ''DEL'', ''INCR'', ''XADD''}" for a b
    using that by (elim insertE emptyE) (simp_all, code_simp+)
  then show "\<not> propagates s ''PING''" "\<not> propagates s ''REPLCONF''" by (simp_all add: propagates_def)
qed

lemma ping_step:
  "\<not> in_transaction c \<Longrightarrow> executeCommand env envs w (cmd [''PING'']) c = Ok (w, c, [], Some (''+PONG'' @ crlf))"
proof -
  have r: "createSimpleString ''PONG'' = ''+PONG'' @ crlf" by code_simp
  show ?thesis if "\<not> in_transaction c"
    using that by (simp add: executeCommand_def dispatch_def cmd_def argStr_bulk_0 replica_commands
        replica_commands_propagate runHandler_def handlePing_def replyWith_def r)
qed

lemma replconf_step:
  assumes "\<not> in_transaction c" and "\<not> strcaseeq (cstr sub) ''getack''" and "\<not> strcaseeq (cstr sub) ''ack''"
  shows "executeCommand env envs w (cmd [''REPLCONF'', sub, v]) c = Ok (w, c, [], Some (''+OK'' @ crlf))"
proof -
  have r: "createSimpleString ''OK'' = ''+OK'' @ crlf" by code_simp
  show ?thesis
    using assms by (simp add: executeCommand_def dispatch_def cmd_def argStr_bulk_0 replica_commands
        replica_commands_propagate runHandler_def handleReplConf_def replyWith_def r argStr_def argBytes_def cong: if_cong)
qed

lemma psync_step:
  assumes "wf_world w" and "is_master (server w)" and "\<not> in_transaction c"
  obtains rs s where "replicas (repl_info (server w)) = Some rs"
    and "executeCommand env envs w (cmd [''PSYNC'', a, b]) c =
      Ok (w\<lparr>server := setReplicas (server w) (Some (addReplicaSlot rs (cfd c)))\<rparr>, c, [], Some (psyncResponse (repl_info (server w))))"
proof -
  from assms(1,2) obtain rs where rs: "replicas (repl_info (server w)) = Some rs"
    by (auto simp: wf_world_def is_master_def wf_repl_def split: option.splits)
  have "executeCommand env envs w (cmd [''PSYNC'', a, b]) c =
      Ok (w\<lparr>server := setReplicas (server w) (Some (addReplicaSlot rs (cfd c)))\<rparr>, c, [], Some (psyncResponse (repl_info (server w))))"
    using assms(2,3) rs
    by (simp add: executeCommand_def dispatch_simps handlePsync_def is_master_def addReplica_def withReplicas_def
        replyWith_def cong: if_cong)
  with rs that show ?thesis by blast
qed

definition fullresync :: "ReplicationInfo \<Rightarrow> string" where
  "fullresync ri = ''+FULLRESYNC '' @ replication_id ri @ '' '' @ show_int (repl_offset ri)"

lemma EMPTY_RDB_bytes: "nul_free EMPTY_RDB" "length EMPTY_RDB = 17"
  by code_simp+

lemma psyncResponse_eq:
  assumes "nul_free (replication_id ri)" and "length (fullresync ri) \<le> 1020"
  shows "psyncResponse ri = fullresync ri @ crlf @ bulkHeader (length EMPTY_RDB) @ EMPTY_RDB"
proof -
  let ?t = "''FULLRESYNC '' @ replication_id ri @ '' '' @ show_int (repl_offset ri)"
  have t: "nul_free ?t" "length ?t \<le> 4095" using assms by (auto simp: fullresync_def)
  have "createFormattedSimpleString ?t = fullresync ri @ crlf"
    unfolding createFormattedSimpleString_def take_all [OF t(2)] createSimpleString_def cstr_nul_free [OF t(1)]
    by (simp add: fullresync_def)
  moreover have "nul_free (fullresync ri)" using t(1) by (simp add: fullresync_def)
  ultimately show ?thesis
    by (simp add: psyncResponse_def bufferString_def buffer_put createRespBuffer_def EMPTY_RDB_bytes(1))
qed

lemma handshake_subcommands:
  "\<not> strcaseeq (cstr ''listening-port'') ''getack''" "\<not> strcaseeq (cstr ''listening-port'') ''ack''"
  "\<not> strcaseeq (cstr ''capa'') ''getack''" "\<not> strcaseeq (cstr ''capa'') ''ack''"
  by code_simp+

lemma master_answers:
  assumes "wf_world w" and "is_master (server w)" and "\<not> in_transaction c"
  obtains rs where "replicas (repl_info (server w)) = Some rs"
    and "runCommands w c (map (\<lambda>(es, p). (env, envs, cmd es)) (handshakeSteps p)) =
      Ok (w\<lparr>server := setReplicas (server w) (Some (addReplicaSlot rs (cfd c)))\<rparr>, c, [],
          map Some [''+PONG'' @ crlf, ''+OK'' @ crlf, ''+OK'' @ crlf, psyncResponse (repl_info (server w))])"
proof (rule psync_step [OF assms, of env envs "''?''" "''-1''"])
  fix rs
  assume rs: "replicas (repl_info (server w)) = Some rs" and "executeCommand env envs w (cmd [''PSYNC'', ''?'', ''-1'']) c =
      Ok (w\<lparr>server := setReplicas (server w) (Some (addReplicaSlot rs (cfd c)))\<rparr>, c, [], Some (psyncResponse (repl_info (server w))))"
  then show thesis
    using assms(3) by (intro that) (simp_all add: handshakeSteps_def ping_step
        replconf_step [OF assms(3) handshake_subcommands(1,2)] replconf_step [OF assms(3) handshake_subcommands(3,4)])
qed

section \<open>Both sides\<close>

lemma handshake_lines:
  assumes "nul_free (replication_id ri)" and "CR \<notin> set (replication_id ri)" and "length (fullresync ri) \<le> 1020"
  shows "list_all2 (\<lambda>(es, p) l. nul_free p \<and> take (length p) l = p \<and> CR \<notin> set l \<and> length l \<le> 1020)
    (handshakeSteps lp) [''+PONG'', ''+OK'', ''+OK'', fullresync ri]"
  using assms by (simp add: handshakeSteps_def fullresync_def)

lemma startReplication_flat:
  assumes conn: "connectToHost sys (mhost mi) (mport mi) = (ev0, Some fd)"
    and oc: "\<And>i k. 0 < ocs i k" and cs: "chunks_ok cs"
    and ri: "nul_free (replication_id ri)" "CR \<notin> set (replication_id ri)" "length (fullresync ri) \<le> 1020"
    and fl: "flat cs = (''+PONG'' @ crlf) @ (''+OK'' @ crlf) @ (''+OK'' @ crlf) @ psyncResponse ri @ t"
  shows "\<exists>cs'. startReplication sys ocs cs mi lp =
      (map (\<lambda>(es, p). Wrote fd (createRespArray es)) (handshakeSteps lp), cs', mi\<lparr>mfd := Some fd\<rparr>, True) \<and> flat cs' = t"
proof -
  have fd: "ev0 = []" "0 \<le> fd" using connectToHost_fd [OF conn] by auto
  have "flat cs = concat (map (\<lambda>l. l @ crlf) [''+PONG'', ''+OK'', ''+OK'', fullresync ri]) @
      bulkHeader (length EMPTY_RDB) @ EMPTY_RDB @ t"
    unfolding fl psyncResponse_eq [OF ri(1,3)] by simp
  from exchanges_flat [where ocs = ocs and i = 0, OF cs fd(2) oc handshake_lines [OF ri, of lp] this]
  obtain cs1 where 1: "exchanges ocs 0 fd (handshakeSteps lp) cs =
      (map (\<lambda>(es, p). Wrote fd (createRespArray es)) (handshakeSteps lp), cs1, True)"
    "flat cs1 = bulkHeader (length EMPTY_RDB) @ EMPTY_RDB @ t" "chunks_ok cs1" by blast
  obtain cs2 where "receiveSnapshot fd cs1 = (cs2, True)" "flat cs2 = t"
    using receiveSnapshot_flat [OF 1(3,2) fd(2)] EMPTY_RDB_bytes(2) by auto
  with 1 conn fd show ?thesis by (auto simp: startReplication_def)
qed

lemma fullresync_length:
  assumes "replication_id ri = REPLICATION_ID" and "0 \<le> repl_offset ri" and "repl_offset ri < 2 ^ 63"
  shows "length (fullresync ri) \<le> 1020"
proof -
  have "length (show_digits (repl_offset ri)) \<le> 19" using assms(2,3) by (intro length_show_digits) auto
  moreover have "length REPLICATION_ID = 40" by code_simp
  ultimately show ?thesis using assms(1,2) by (simp add: fullresync_def show_int_def)
qed

text \<open>
  C13. The two sides of the handshake fit together: when the connection is made and no write
  fails, the replica sends the four commands \<^verbatim>\<open>PING\<close>, \<^verbatim>\<open>REPLCONF listening-port\<close>,
  \<^verbatim>\<open>REPLCONF capa\<close> and \<^verbatim>\<open>PSYNC\<close>; a well-formed master executes exactly these, answers all of
  them and appends the connection to its replicas; and whatever way those answers are cut into
  chunks, the replica accepts them, consumes the snapshot to its last byte, stores the
  descriptor, and leaves what follows the snapshot (the commands to replicate) unread.
\<close>

theorem handshake_completes:
  assumes "wf_world w" and "is_master (server w)" and "\<not> in_transaction c"
    and "replication_id (repl_info (server w)) = REPLICATION_ID"
    and "0 \<le> repl_offset (repl_info (server w))" and "repl_offset (repl_info (server w)) < 2 ^ 63"
    and "connectToHost sys (mhost mi) (mport mi) = (ev0, Some fd)" and "\<forall>i k. 0 < ocs i k"
  shows "\<exists>rs answers. replicas (repl_info (server w)) = Some rs \<and>
    runCommands w c (map (\<lambda>(es, p). (env, envs, cmd es)) (handshakeSteps lp)) =
      Ok (w\<lparr>server := setReplicas (server w) (Some (addReplicaSlot rs (cfd c)))\<rparr>, c, [], map Some answers) \<and>
    (\<forall>cs t. chunks_ok cs \<longrightarrow> flat cs = concat answers @ t \<longrightarrow>
      (\<exists>cs'. startReplication sys ocs cs mi lp =
        ([Wrote fd (encodeCommand [''PING'']),
          Wrote fd (encodeCommand [''REPLCONF'', ''listening-port'', show_int lp]),
          Wrote fd (encodeCommand [''REPLCONF'', ''capa'', ''psync2'']),
          Wrote fd (encodeCommand [''PSYNC'', ''?'', ''-1''])],
         cs', mi\<lparr>mfd := Some fd\<rparr>, True) \<and> flat cs' = t))"
proof (rule master_answers [OF assms(1-3), of env envs lp])
  fix rs
  let ?ri = "repl_info (server w)"
  let ?a = "[''+PONG'' @ crlf, ''+OK'' @ crlf, ''+OK'' @ crlf, psyncResponse ?ri]"
  assume rs: "replicas ?ri = Some rs" and run: "runCommands w c (map (\<lambda>(es, p). (env, envs, cmd es)) (handshakeSteps lp)) =
      Ok (w\<lparr>server := setReplicas (server w) (Some (addReplicaSlot rs (cfd c)))\<rparr>, c, [], map Some ?a)"
  have id: "nul_free (replication_id ?ri)" "CR \<notin> set (replication_id ?ri)" "length (fullresync ?ri) \<le> 1020"
    using fullresync_length [OF assms(4-6)] by (simp_all add: assms(4) REPLICATION_ID_def)
  have cmds: "map (\<lambda>(es, p). Wrote fd (createRespArray es)) (handshakeSteps lp) =
      [Wrote fd (encodeCommand [''PING'']),
       Wrote fd (encodeCommand [''REPLCONF'', ''listening-port'', show_int lp]),
       Wrote fd (encodeCommand [''REPLCONF'', ''capa'', ''psync2'']),
       Wrote fd (encodeCommand [''PSYNC'', ''?'', ''-1''])]"
    by (simp add: handshakeSteps_def createRespArray_eq)
  have "\<exists>cs'. startReplication sys ocs cs mi lp =
      (map (\<lambda>(es, p). Wrote fd (createRespArray es)) (handshakeSteps lp), cs', mi\<lparr>mfd := Some fd\<rparr>, True) \<and> flat cs' = t"
    if "chunks_ok cs" "flat cs = concat ?a @ t" for cs t
    using startReplication_flat [OF assms(7) _ that(1) id, of ocs t lp] assms(8) that(2) by simp
  with rs run show ?thesis unfolding cmds by blast
qed

definition example_calls :: SocketCalls where
  "example_calls =
     \<lparr>socketR = 4, setsockoptR = 0, inet_ptonR = (\<lambda>ip. if ip = ''127.0.0.1'' then 1 else 0), bindR = 0,
      listenR = 0, connectR = 0, acceptR = 6, getflR = 2, setflR = 0\<rparr>"

theorem handshake_completes_witness:
  "\<exists>rs answers cs'. replicas (repl_info (server example_world)) = Some rs \<and>
    runCommands example_world example_client
        (map (\<lambda>(es, p). (example_env, \<lambda>_. example_env, cmd es)) (handshakeSteps 6380)) =
      Ok (example_world\<lparr>server := setReplicas (server example_world) (Some (addReplicaSlot rs 9))\<rparr>, example_client, [],
          map Some answers) \<and>
    startReplication example_calls (\<lambda>_ _. 5) [Bytes (concat answers @ ''*1'')]
        \<lparr>mhost = ''localhost'', mport = 6379, mfd = None\<rparr> 6380 =
      ([Wrote 4 (encodeCommand [''PING'']), Wrote 4 (encodeCommand [''REPLCONF'', ''listening-port'', show_int 6380]),
        Wrote 4 (encodeCommand [''REPLCONF'', ''capa'', ''psync2'']), Wrote 4 (encodeCommand [''PSYNC'', ''?'', ''-1''])],
       cs', \<lparr>mhost = ''localhost'', mport = 6379, mfd = Some 4\<rparr>, True) \<and> flat cs' = ''*1''"
proof -
  let ?mi = "\<lparr>mhost = ''localhost'', mport = 6379, mfd = None\<rparr>"
  have h: "is_master (server example_world)" "replication_id (repl_info (server example_world)) = REPLICATION_ID"
    "0 \<le> repl_offset (repl_info (server example_world))" "repl_offset (repl_info (server example_world)) < 2 ^ 63"
    "connectToHost example_calls (mhost ?mi) (mport ?mi) = ([], Some 4)" "cfd example_client = 9"
    by code_simp+
  have "\<forall>i k. 0 < ((\<lambda>_ _. 5) :: nat \<Rightarrow> nat \<Rightarrow> int) i k" by simp
  from handshake_completes [OF example_wf(1) h(1) example_wf(4) h(2-5) this, of example_env "\<lambda>_. example_env" 6380]
  obtain rs answers where 1: "replicas (repl_info (server example_world)) = Some rs"
    "runCommands example_world example_client
        (map (\<lambda>(es, p). (example_env, \<lambda>_. example_env, cmd es)) (handshakeSteps 6380)) =
      Ok (example_world\<lparr>server := setReplicas (server example_world) (Some (addReplicaSlot rs 9))\<rparr>, example_client, [],
          map Some answers)"
    and 2: "\<And>cs t. chunks_ok cs \<Longrightarrow> flat cs = concat answers @ t \<Longrightarrow>
      \<exists>cs'. startReplication example_calls (\<lambda>_ _. 5) cs ?mi 6380 =
        ([Wrote 4 (encodeCommand [''PING'']), Wrote 4 (encodeCommand [''REPLCONF'', ''listening-port'', show_int 6380]),
          Wrote 4 (encodeCommand [''REPLCONF'', ''capa'', ''psync2'']), Wrote 4 (encodeCommand [''PSYNC'', ''?'', ''-1''])],
         cs', ?mi\<lparr>mfd := Some 4\<rparr>, True) \<and> flat cs' = t"
    unfolding h(6) by blast
  have "chunks_ok [Bytes (concat answers @ ''*1'')]" "flat [Bytes (concat answers @ ''*1'')] = concat answers @ ''*1''"
    by (simp_all add: chunks_ok_def)
  from 2 [OF this] 1 show ?thesis by auto
qed

lemma exchanges_events: "\<exists>sent. fst (exchanges ocs i fd steps cs) = map (Wrote fd) sent"
proof (induction ocs i fd steps cs rule: exchanges.induct)
  case (2 ocs i fd elements expected steps cs)
  obtain sent cs' ok where e: "exchange (ocs i) fd elements expected cs = ([Wrote fd sent], cs', ok)"
    unfolding exchange_def by (fastforce split: prod.splits bool.splits option.splits)
  show ?case
  proof (cases ok)
    case True
    then obtain more_sent where "fst (exchanges ocs (Suc i) fd steps cs') = map (Wrote fd) more_sent"
      using 2 e by fastforce
    then show ?thesis using e True by (auto split: prod.splits intro: exI [of _ "sent # more_sent"])
  qed (use e in \<open>auto intro: exI [of _ "[sent]"]\<close>)
qed simp

text \<open>
  A handshake that fails leaks no descriptor and changes nothing: on every error path,
  whatever the peer sends and the system calls return, either no connection was made, or the
  connection was closed exactly once, after the last write to it, and \<^verbatim>\<open>master_info\<close> is as it
  was before. The handshake returns for every input.
\<close>

theorem handshake_failure:
  assumes "startReplication sys ocs cs mi lp = (evs, cs', mi', False)"
  shows "mi' = mi \<and>
    ((\<exists>fd sent. connectToHost sys (mhost mi) (mport mi) = ([], Some fd) \<and>
        evs = map (Wrote fd) sent @ [Closed fd]) \<or>
     connectToHost sys (mhost mi) (mport mi) = (evs, None))"
proof (cases "connectToHost sys (mhost mi) (mport mi)")
  case (Pair ev0 r)
  show ?thesis
  proof (cases r)
    case None
    with Pair assms show ?thesis by (simp add: startReplication_def)
  next
    case (Some fd)
    with Pair have "ev0 = []" using connectToHost_fd by blast
    with assms Pair Some show ?thesis
      using exchanges_events [of ocs 0 fd "handshakeSteps lp" cs]
      by (auto simp: startReplication_def split: prod.splits bool.splits)
  qed
qed

theorem handshake_failure_witness:
  "startReplication example_calls (\<lambda>_ _. 5) [Bytes ''-ERR'', Bytes crlf] \<lparr>mhost = ''localhost'', mport = 6379, mfd = None\<rparr> 6380 =
     ([Wrote 4 (encodeCommand [''PING'']), Closed 4], [], \<lparr>mhost = ''localhost'', mport = 6379, mfd = None\<rparr>, False) \<and>
   (\<exists>sent. [Wrote 4 (encodeCommand [''PING'']), Closed 4] = map (Wrote 4) sent @ [Closed 4])"
proof -
  have r: "startReplication example_calls (\<lambda>_ _. 5) [Bytes ''-ERR'', Bytes crlf] \<lparr>mhost = ''localhost'', mport = 6379, mfd = None\<rparr> 6380 =
     ([Wrote 4 (encodeCommand [''PING'']), Closed 4], [], \<lparr>mhost = ''localhost'', mport = 6379, mfd = None\<rparr>, False)"
    by code_simp
  have "connectToHost example_calls ''localhost'' 6379 = ([], Some 4)" by code_simp
  with handshake_failure [OF r] r show ?thesis by auto
qed

end
