(* ===== verification/Receive_Loop.thy ===== *)
theory Receive_Loop
  imports Resp
begin

text \<open>
  What the two receivers of commands have in common, the thread of a client
  (\<^verbatim>\<open>client_handler.c\<close>) and the replication thread (\<^verbatim>\<open>server.c\<close>): an inner loop that parses the
  commands of a buffer and acts on each, run after every read. The interface is the locale
  \<open>receive_loop\<close>; that the way the bytes are cut into reads does not matter is proved here once.
\<close>

section \<open>Whole and partial commands in a buffer\<close>

definition sizes_ok :: "string list \<Rightarrow> bool" where
  "sizes_ok args = (length args < 2 ^ 31 \<and> list_all (\<lambda>a. length a < 2 ^ 31) args)"

abbreviation request :: "string list \<Rightarrow> RespValue" where
  "request args \<equiv> RespArray (map RespBulk args)"

lemma parseResp_whole:
  assumes "sizes_ok a" and "buffer b = encodeCommand a @ later"
  shows "parseResp z b = Ok (b\<lparr>buffer := later\<rparr>, RespOk (request a))"
  using assms parseBytes_encode [of a z later] by (simp add: parseResp_def sizes_ok_def list_all_iff)

lemma parseResp_part:
  assumes "sizes_ok a" and "encodeCommand a = buffer b @ suf" and "suf \<noteq> []"
  shows "parseResp True b = Ok (b, RespIncomplete)"
  using parseResp_prefix_incomplete [of a b suf] assms by (simp add: sizes_ok_def list_all_iff)

lemma parseResp_nothing: "buffer b = [] \<Longrightarrow> parseResp z b = Ok (b, RespIncomplete)"
  by (simp add: parseResp_def parseBytes_def parseCommand_def)

lemma parseResp_shrinks: "parseResp z b = Ok (b', RespOk v) \<Longrightarrow> length (buffer b') < length (buffer b)"
  using parseBytes_progress [of z "buffer b"]
  by (cases "parseBytes z (buffer b)" rule: resp_run_cases) (auto simp: parseResp_def)

lemma encodeCommand_ne: "encodeCommand a \<noteq> []"
  by (simp add: encodeCommand_def arrayHeader_def)

lemma append_split_left:
  assumes "xs @ ys = us @ vs" and "length us \<le> length xs"
  obtains ws where "xs = us @ ws" and "ws @ ys = vs"
proof -
  have "take (length us) (xs @ ys) = us" "drop (length us) (xs @ ys) = vs" by (simp_all add: assms(1))
  then have "xs = us @ drop (length us) xs" "drop (length us) xs @ ys = vs"
    using assms(2) by (simp_all, metis append_take_drop_id)
  then show ?thesis by (rule that)
qed

text \<open>A buffer that begins a sequence of commands begins with a part of the first or with all of it.\<close>

lemma first_command:
  assumes "buffer b @ t = concat (map encodeCommand (a # argss))" and "sizes_ok a"
  obtains (part) "parseResp True b = Ok (b, RespIncomplete)" and "t \<noteq> []"
    | (whole) later where "parseResp True b = Ok (b\<lparr>buffer := later\<rparr>, RespOk (request a))"
        and "later @ t = concat (map encodeCommand argss)"
proof -
  have eq: "buffer b @ t = encodeCommand a @ concat (map encodeCommand argss)" using assms(1) by simp
  show ?thesis
  proof (cases "length (buffer b) < length (encodeCommand a)")
    case True
    then obtain suf where suf: "encodeCommand a = buffer b @ suf" "suf @ concat (map encodeCommand argss) = t"
      using append_split_left [OF eq [symmetric]] by auto
    with True have "suf \<noteq> []" by auto
    with suf parseResp_part [OF assms(2) suf(1)] part show ?thesis by auto
  next
    case False
    then obtain later where "buffer b = encodeCommand a @ later" "later @ t = concat (map encodeCommand argss)"
      using append_split_left [OF eq] by auto
    with parseResp_whole [OF assms(2)] whole show ?thesis by blast
  qed
qed

section \<open>The interface\<close>

text \<open>
  A receiver has a state, an action on a command, and a loop over the commands of a buffer that
  stops when the parser asks for more. \<open>fresh\<close> is whether the slots of a fresh array hold NULL.
\<close>

locale receive_loop =
  fixes act :: "'s \<Rightarrow> RespValue \<Rightarrow> 's run"
    and loop :: "'s \<Rightarrow> RespBuffer \<Rightarrow> ('s \<times> RespBuffer) run"
    and fresh :: "'s \<Rightarrow> bool"
  assumes loop_stop: "parseResp (fresh s) b = Ok (b, RespIncomplete) \<Longrightarrow> loop s b = Ok (s, b)"
    and loop_next: "parseResp (fresh s) b = Ok (b', RespOk m) \<Longrightarrow> loop s b = bind_run (act s m) (\<lambda>s'. loop s' b')"
begin

primrec acts :: "'s \<Rightarrow> RespValue list \<Rightarrow> 's run" where
  "acts s [] = Ok s"
| "acts s (m # cmds) = bind_run (act s m) (\<lambda>s'. acts s' cmds)"

primrec feed :: "'s \<Rightarrow> RespBuffer \<Rightarrow> string list \<Rightarrow> ('s \<times> RespBuffer) run" where
  "feed s b [] = Ok (s, b)"
| "feed s b (c # cs) = bind_run (loop s (put b c)) (\<lambda>(s', b'). feed s' b' cs)"

lemma acts_append: "acts s (xs @ ys) = bind_run (acts s xs) (\<lambda>s'. acts s' ys)"
proof (induction xs arbitrary: s)
  case (Cons x xs)
  then show ?case by (cases "act s x") auto
qed simp

lemma loop_acts:
  assumes "\<And>s. fresh s" and "list_all sizes_ok argss" and "buffer b @ t = concat (map encodeCommand argss)"
  shows "\<exists>k b'. k \<le> length argss \<and> buffer b' @ t = concat (map encodeCommand (drop k argss)) \<and>
    (t = [] \<longrightarrow> k = length argss) \<and>
    loop s b = bind_run (acts s (map request (take k argss))) (\<lambda>s'. Ok (s', b'))"
  using assms(2,3)
proof (induction argss arbitrary: s b)
  case Nil
  then have "loop s b = Ok (s, b)" by (intro loop_stop parseResp_nothing) simp
  with Nil show ?case by (auto intro!: exI [of _ b])
next
  case (Cons a argss)
  have "sizes_ok a" using Cons.prems(1) by simp
  from Cons.prems(2) this show ?case
  proof (cases rule: first_command)
    case part
    then have "loop s b = Ok (s, b)" using assms(1) by (intro loop_stop) simp
    then show ?thesis using Cons.prems(2) part by (intro exI [of _ 0] exI [of _ b]) simp
  next
    case (whole later)
    let ?b = "b\<lparr>buffer := later\<rparr>"
    have step: "loop s b = bind_run (act s (request a)) (\<lambda>s'. loop s' ?b)"
      using whole(1) assms(1) by (intro loop_next) simp
    show ?thesis
    proof (cases "act s (request a)")
      case (Ok s')
      obtain k b' where k: "k \<le> length argss" "buffer b' @ t = concat (map encodeCommand (drop k argss))"
        "t = [] \<longrightarrow> k = length argss" "loop s' ?b = bind_run (acts s' (map request (take k argss))) (\<lambda>s'. Ok (s', b'))"
        using Cons.IH [of ?b s'] Cons.prems(1) whole(2) by auto
      then show ?thesis by (intro exI [of _ "Suc k"] exI [of _ b']) (simp add: step Ok)
    next
      case (Fault e)
      then show ?thesis
        using whole(2)
        by (intro exI [of _ "if t = [] then Suc (length argss) else 1"]
            exI [of _ "if t = [] then b\<lparr>buffer := []\<rparr> else ?b"]) (simp add: step)
    qed
  qed
qed

text \<open>The main lemma: feeding the bytes of commands in any pieces acts on the commands, in order.\<close>

lemma feed_acts:
  assumes "\<And>s. fresh s" and "list_all sizes_ok argss" and "buffer b @ concat cs = concat (map encodeCommand argss)"
    and "concat cs = [] \<longrightarrow> argss = []"
  shows "\<exists>b'. buffer b' = [] \<and> feed s b cs = bind_run (acts s (map request argss)) (\<lambda>s'. Ok (s', b'))"
  using assms(2-4)
proof (induction cs arbitrary: s b argss)
  case (Cons c cs)
  have "buffer (put b c) @ concat cs = concat (map encodeCommand argss)"
    using Cons.prems(2) by (simp add: buffer_put)
  from loop_acts [OF assms(1) Cons.prems(1) this, of s]
  obtain k b1 where k: "buffer b1 @ concat cs = concat (map encodeCommand (drop k argss))"
    "concat cs = [] \<longrightarrow> k = length argss"
    and l: "loop s (put b c) = bind_run (acts s (map request (take k argss))) (\<lambda>s'. Ok (s', b1))" by blast
  have all: "acts s (map request argss) = bind_run (acts s (map request (take k argss))) (\<lambda>s'. acts s' (map request (drop k argss)))"
    using acts_append [of s "map request (take k argss)" "map request (drop k argss)"] by (simp flip: map_append)
  show ?case
  proof (cases "acts s (map request (take k argss))")
    case (Ok s')
    obtain b' where "buffer b' = []" "feed s' b1 cs = bind_run (acts s' (map request (drop k argss))) (\<lambda>s'. Ok (s', b'))"
      using Cons.IH [of "drop k argss" b1 s'] Cons.prems(1) k by (auto simp: list_all_iff dest: in_set_dropD)
    then show ?thesis by (intro exI [of _ b']) (simp add: all l Ok)
  next
    case (Fault e)
    then show ?thesis by (intro exI [of _ createRespBuffer]) (simp add: all l createRespBuffer_def)
  qed
qed auto

lemma feed_from_start:
  assumes "\<And>s. fresh s" and "list_all sizes_ok argss" and "concat cs = concat (map encodeCommand argss)"
  shows "\<exists>b'. buffer b' = [] \<and> feed s createRespBuffer cs = bind_run (acts s (map request argss)) (\<lambda>s'. Ok (s', b'))"
proof (rule feed_acts [OF assms(1,2)])
  show "buffer createRespBuffer @ concat cs = concat (map encodeCommand argss)"
    by (simp only: assms(3)) (simp add: createRespBuffer_def)
  have "concat (map encodeCommand argss) = [] \<Longrightarrow> argss = []"
    using encodeCommand_ne by (cases argss) auto
  then show "concat cs = [] \<longrightarrow> argss = []" unfolding assms(3) by blast
qed

end

end
