(* ===== verification/Client_Handler.thy ===== *)
theory Client_Handler
  imports Networking Receive_Loop Command
begin

text \<open>
  The thread that serves one client, \<^verbatim>\<open>src/app/client_handler.c\<close>: it receives bytes, parses
  the commands among them, executes each and sends its reply. The state of a client is its
  \<open>ClientState\<close> together with its receive buffer. What \<^verbatim>\<open>recv\<close> returns is a list; at its end
  the peer has closed the connection. What the server meets up to the end of its \<open>n\<close>-th command
  is \<open>circ n\<close>: the environments of the command, and the room that \<^verbatim>\<open>send\<close> finds for its reply.
\<close>

section \<open>Operations\<close>

datatype arrival =
    Arrived string  \<comment> \<open>at most 1024 bytes; none when the peer has closed\<close>
  | Again           \<comment> \<open>\<^verbatim>\<open>EAGAIN\<close> or \<^verbatim>\<open>EWOULDBLOCK\<close>\<close>
  | Broken          \<comment> \<open>any other error\<close>

record Circumstances =
  cmdEnv :: Env
  queueEnvs :: "nat \<Rightarrow> Env"
  room :: int

definition MAX_CLIENTS :: int where
  "MAX_CLIENTS = 1024"

text \<open>
  \<^verbatim>\<open>handleNewClient\<close>. Of the allocations it tests only its own can be seen to fail:
  \<^verbatim>\<open>createRespBuffer\<close> and \<^verbatim>\<open>createCommandQueue\<close> write through theirs before they return.
\<close>

definition handleNewClient :: "allocator \<Rightarrow> int \<Rightarrow> io_event list \<times> (ClientState \<times> RespBuffer) option" where
  "handleNewClient al clientFd =
     (if MAX_CLIENTS \<le> clientFd then ([Closed clientFd], None)
      else if \<not> al 32 then ([Closed clientFd], None)
      else ([], Some (\<lparr>cfd = clientFd, in_transaction = False, cqueue = Some createCommandQueue\<rparr>, createRespBuffer)))"

definition handleClientCommand ::
  "Circumstances \<Rightarrow> World \<Rightarrow> RespValue \<Rightarrow> ClientState \<Rightarrow> (World \<times> ClientState \<times> io_event list) run" where
  "handleClientCommand ci w command c =
     (case command of
        RespArray es \<Rightarrow>
          if length es < 1 then Ok (w, c, [])
          else
            bind_run (executeCommand (cmdEnv ci) (queueEnvs ci) w command c) (\<lambda>(w', c', ev, response).
              case response of
                Some r \<Rightarrow> Ok (w', c', ev @ fst (sendReply (room ci) (cfd c) r))
              | None \<Rightarrow> Ok (w', c', ev))
      | _ \<Rightarrow> Ok (w, c, []))"

text \<open>
  The inner loop, \<^verbatim>\<open>while (parseResp (...) == RESP_OK)\<close>: the number of commands handled so
  far, the states, the buffer and the events.
\<close>

type_synonym session = "nat \<times> World \<times> ClientState \<times> RespBuffer \<times> io_event list"

function drainCommands ::
  "(nat \<Rightarrow> Circumstances) \<Rightarrow> nat \<Rightarrow> World \<Rightarrow> ClientState \<Rightarrow> RespBuffer \<Rightarrow> session run" where
  "drainCommands circ n w c b =
     (case parseResp (zeroed (cmdEnv (circ n))) b of
        Fault e \<Rightarrow> Fault e
      | Ok (b', r) \<Rightarrow>
          (case r of
             RespOk command \<Rightarrow>
               (case handleClientCommand (circ n) w command c of
                  Fault e \<Rightarrow> Fault e
                | Ok (w', c', ev) \<Rightarrow>
                    bind_run (drainCommands circ (Suc n) w' c' b') (\<lambda>(n2, w2, c2, b2, evs).
                      Ok (n2, w2, c2, b2, ev @ evs)))
           | _ \<Rightarrow> Ok (n, w, c, b', [])))"
  by pat_completeness auto

termination
  by (relation "measure (\<lambda>(circ, n, w, c, b). length (buffer b))") (auto dest: parseResp_shrinks)

declare drainCommands.simps [simp del]

text \<open>\<^verbatim>\<open>handleClientData\<close>. Whether the append to the buffer succeeds is not looked at.\<close>

fun handleClientData ::
  "(nat \<Rightarrow> Circumstances) \<Rightarrow> nat \<Rightarrow> World \<Rightarrow> ClientState \<Rightarrow> RespBuffer \<Rightarrow> arrival list \<Rightarrow> session run" where
  "handleClientData circ n w c b [] = Ok (n, w, c, b, [])"
| "handleClientData circ n w c b (Again # as) = handleClientData circ n w c b as"
| "handleClientData circ n w c b (Broken # as) = Ok (n, w, c, b, [])"
| "handleClientData circ n w c b (Arrived s # as) =
     (if s = [] then Ok (n, w, c, b, [])
      else
        bind_run (drainCommands circ n w c (fst (appendRespBuffer (alloc (cmdEnv (circ n))) b s)))
          (\<lambda>(n1, w1, c1, b1, ev).
        bind_run (handleClientData circ n1 w1 c1 b1 as) (\<lambda>(n2, w2, c2, b2, evs).
          Ok (n2, w2, c2, b2, ev @ evs))))"

definition freeClientState :: "(ClientState \<times> RespBuffer) option \<Rightarrow> io_event list" where
  "freeClientState client = (case client of None \<Rightarrow> [] | Some (c, b) \<Rightarrow> [Closed (cfd c)])"

definition handleClientConnection ::
  "allocator \<Rightarrow> (nat \<Rightarrow> Circumstances) \<Rightarrow> World \<Rightarrow> int \<Rightarrow> arrival list \<Rightarrow> (World \<times> io_event list) run" where
  "handleClientConnection al circ w clientFd as =
     (case handleNewClient al clientFd of
        (ev0, None) \<Rightarrow> Ok (w, ev0)
      | (ev0, Some (c, b)) \<Rightarrow>
          bind_run (handleClientData circ 0 w c b as) (\<lambda>(n, w', c', b', ev).
            Ok (w', ev0 @ ev @ freeClientState (Some (c', b')))))"

section \<open>Commands one by one\<close>

text \<open>The commands of a client, executed in order, with the replies sent after each.\<close>

fun serve ::
  "(nat \<Rightarrow> Circumstances) \<Rightarrow> nat \<Rightarrow> World \<Rightarrow> ClientState \<Rightarrow> RespValue list
     \<Rightarrow> (World \<times> ClientState \<times> io_event list) run" where
  "serve circ n w c [] = Ok (w, c, [])"
| "serve circ n w c (m # cmds) =
     bind_run (handleClientCommand (circ n) w m c) (\<lambda>(w1, c1, ev).
     bind_run (serve circ (Suc n) w1 c1 cmds) (\<lambda>(w2, c2, evs). Ok (w2, c2, ev @ evs)))"

text \<open>Memory that behaves: allocations succeed, and fresh array slots hold NULL.\<close>

definition benign :: "(nat \<Rightarrow> Circumstances) \<Rightarrow> bool" where
  "benign circ = (\<forall>n. zeroed (cmdEnv (circ n)) \<and> alloc (cmdEnv (circ n)) = always)"

section \<open>However the bytes arrive\<close>

lemma drainCommands_incomplete:
  "parseResp (zeroed (cmdEnv (circ n))) b = Ok (b', RespIncomplete) \<Longrightarrow> drainCommands circ n w c b = Ok (n, w, c, b', [])"
  by (simp add: drainCommands.simps [of circ n])

lemma drainCommands_next:
  "parseResp (zeroed (cmdEnv (circ n))) b = Ok (b', RespOk m) \<Longrightarrow>
   drainCommands circ n w c b =
     bind_run (handleClientCommand (circ n) w m c) (\<lambda>(w1, c1, ev).
     bind_run (drainCommands circ (Suc n) w1 c1 b') (\<lambda>(n2, w2, c2, b2, evs). Ok (n2, w2, c2, b2, ev @ evs)))"
  by (cases "handleClientCommand (circ n) w m c") (auto simp: drainCommands.simps [of circ n])

text \<open>
  The thread of a client as a receiver of commands: its state is the number of commands handled,
  the server, the client and the events so far.
\<close>

type_synonym progress = "nat \<times> World \<times> ClientState \<times> io_event list"

fun clientAct :: "(nat \<Rightarrow> Circumstances) \<Rightarrow> progress \<Rightarrow> RespValue \<Rightarrow> progress run" where
  "clientAct circ (n, w, c, ev) m =
     bind_run (handleClientCommand (circ n) w m c) (\<lambda>(w', c', e). Ok (Suc n, w', c', ev @ e))"

fun clientLoop :: "(nat \<Rightarrow> Circumstances) \<Rightarrow> progress \<Rightarrow> RespBuffer \<Rightarrow> (progress \<times> RespBuffer) run" where
  "clientLoop circ (n, w, c, ev) b =
     bind_run (drainCommands circ n w c b) (\<lambda>(n', w', c', b', e). Ok ((n', w', c', ev @ e), b'))"

fun clientFresh :: "(nat \<Rightarrow> Circumstances) \<Rightarrow> progress \<Rightarrow> bool" where
  "clientFresh circ (n, w, c, ev) = zeroed (cmdEnv (circ n))"

lemma clientLoop_next:
  assumes "parseResp (zeroed (cmdEnv (circ n))) b = Ok (b', RespOk m)"
  shows "clientLoop circ (n, w, c, ev) b = bind_run (clientAct circ (n, w, c, ev) m) (\<lambda>s. clientLoop circ s b')"
proof (cases "handleClientCommand (circ n) w m c")
  case (Ok p)
  obtain w1 c1 e where p: "p = (w1, c1, e)" by (cases p)
  show ?thesis
    by (cases "drainCommands circ (Suc n) w1 c1 b'")
      (auto simp: drainCommands_next [where circ = circ and n = n, OF assms] Ok p)
qed (simp add: drainCommands_next [where circ = circ and n = n, OF assms])

interpretation client: receive_loop "clientAct circ" "clientLoop circ" "clientFresh circ" for circ
proof unfold_locales
  fix s :: progress and b b' m
  obtain n w c ev where s: "s = (n, w, c, ev)" by (cases s)
  show "clientLoop circ s b = Ok (s, b)" if "parseResp (clientFresh circ s) b = Ok (b, RespIncomplete)"
    using that drainCommands_incomplete [of circ n b b w c] by (simp add: s)
  show "clientLoop circ s b = bind_run (clientAct circ s m) (\<lambda>s'. clientLoop circ s' b')"
    if "parseResp (clientFresh circ s) b = Ok (b', RespOk m)"
    using that clientLoop_next [of circ n b b' m] by (simp add: s)
qed

lemma client_acts:
  "client.acts circ (n, w, c, ev) cmds =
     bind_run (serve circ n w c cmds) (\<lambda>(w', c', e). Ok (n + length cmds, w', c', ev @ e))"
proof (induction cmds arbitrary: n w c ev)
  case (Cons m cmds)
  show ?case
  proof (cases "handleClientCommand (circ n) w m c")
    case (Ok p)
    obtain w1 c1 e where p: "p = (w1, c1, e)" by (cases p)
    with Ok Cons.IH [of "Suc n" w1 c1 "ev @ e"] show ?thesis
      by (cases "serve circ (Suc n) w1 c1 cmds") auto
  qed simp
qed simp

text \<open>The pieces in which the bytes arrive.\<close>

fun pieces :: "arrival list \<Rightarrow> string list" where
  "pieces [] = []"
| "pieces (Arrived s # as) = s # pieces as"
| "pieces (_ # as) = pieces as"

lemma handleClientData_feed:
  assumes "benign circ" and "list_all (\<lambda>a. a \<noteq> Broken \<and> a \<noteq> Arrived []) as"
  shows "bind_run (handleClientData circ n w c b as) (\<lambda>(n', w', c', b', e). Ok ((n', w', c', ev @ e), b')) =
    client.feed circ (n, w, c, ev) b (pieces as)"
  using assms(2)
proof (induction as arbitrary: n w c b ev)
  case (Cons a as)
  show ?case
  proof (cases a)
    case (Arrived s)
    have b: "fst (appendRespBuffer (alloc (cmdEnv (circ n))) b s) = put b s"
      using assms(1) by (simp add: benign_def put_def)
    show ?thesis
    proof (cases "drainCommands circ n w c (put b s)")
      case (Ok p)
      obtain n1 w1 c1 b1 e where p: "p = (n1, w1, c1, b1, e)" by (cases p)
      have "bind_run (handleClientData circ n1 w1 c1 b1 as) (\<lambda>(n', w', c', b', e'). Ok ((n', w', c', (ev @ e) @ e'), b')) =
          client.feed circ (n1, w1, c1, ev @ e) b1 (pieces as)"
        using Cons.prems by (intro Cons.IH) simp
      with Ok p b Cons.prems show ?thesis
        by (cases "handleClientData circ n1 w1 c1 b1 as") (auto simp: Arrived)
    qed (use b Cons.prems in \<open>simp add: Arrived\<close>)
  qed (use Cons in auto)
qed simp

lemma handleClientData_start:
  assumes "benign circ" and "list_all sizes_ok argss" and "list_all (\<lambda>a. a \<noteq> Broken \<and> a \<noteq> Arrived []) as"
    and "concat (pieces as) = concat (map encodeCommand argss)"
  shows "\<exists>b'. buffer b' = [] \<and> handleClientData circ 0 w c createRespBuffer as =
    bind_run (serve circ 0 w c (map cmd argss)) (\<lambda>(w', c', ev). Ok (length argss, w', c', b', ev))"
proof -
  have "clientFresh circ s" for s using assms(1) by (cases s) (simp add: benign_def)
  from client.feed_from_start [OF this assms(2,4), of "(0, w, c, [])"]
  obtain b' where b': "buffer b' = []" "client.feed circ (0, w, c, []) createRespBuffer (pieces as) =
      bind_run (client.acts circ (0, w, c, []) (map request argss)) (\<lambda>s'. Ok (s', b'))" by blast
  have cmd: "map request argss = map cmd argss" by (simp add: cmd_def)
  have "bind_run (handleClientData circ 0 w c createRespBuffer as) (\<lambda>(n', w', c', b', e). Ok ((n', w', c', e), b')) =
      bind_run (serve circ 0 w c (map cmd argss)) (\<lambda>(w', c', e). Ok ((length argss, w', c', e), b'))"
    using handleClientData_feed [OF assms(1,3), of 0 w c createRespBuffer "[]"] b'(2) unfolding cmd client_acts
    by (cases "serve circ 0 w c (map cmd argss)") auto
  then have "handleClientData circ 0 w c createRespBuffer as =
      bind_run (serve circ 0 w c (map cmd argss)) (\<lambda>(w', c', ev). Ok (length argss, w', c', b', ev))"
    by (cases "handleClientData circ 0 w c createRespBuffer as"; cases "serve circ 0 w c (map cmd argss)") auto
  with b'(1) show ?thesis by blast
qed

text \<open>
  A session does not depend on how the bytes arrive: for every way to cut the encodings of
  a sequence of commands into pieces, with \<^verbatim>\<open>EAGAIN\<close> in between, the thread of the client
  executes exactly these commands, each once and in order, and sends each reply before the
  next command (\<open>serve\<close>), also where a command faults; at the end of the connection nothing is
  left in the buffer. Memory is benign here (\<open>benign\<close>).
\<close>

theorem session_serves_commands:
  assumes "benign circ" and "list_all sizes_ok argss" and "list_all (\<lambda>a. a \<noteq> Broken \<and> a \<noteq> Arrived []) as"
    and "concat (pieces as) = concat (map encodeCommand argss)"
  shows "\<exists>b'. buffer b' = [] \<and> handleClientData circ 0 w c createRespBuffer as =
    bind_run (serve circ 0 w c (map cmd argss)) (\<lambda>(w', c', ev). Ok (length argss, w', c', b', ev))"
  by (rule handleClientData_start [OF assms])

section \<open>The replies that the client receives\<close>

lemma runHandler_keeps_client:
  assumes "h \<notin> {HMulti, HExec, HDiscard}" and "runHandler exec h env w es c = Ok (w', c', ev, r)"
  shows "c' = c"
  using runHandler_client [of "\<lambda>_. c" c h exec env w es] assms by (simp add: withClient_def)

definition keeps_fd :: "int \<Rightarrow> reply run \<Rightarrow> bool" where
  "keeps_fd k r = (case r of Ok (w, c, ev, x) \<Rightarrow> cfd c = k | Fault _ \<Rightarrow> True)"

lemma keeps_fd_simps [simp]:
  "keeps_fd k (Ok (w, c, ev, x)) = (cfd c = k)"
  "keeps_fd k (replyWith w c r) = (cfd c = k)"
  "keeps_fd k (Fault e) = True"
  by (simp_all add: keeps_fd_def replyWith_def)

lemma keeps_fd_bind: "(\<And>x. m = Ok x \<Longrightarrow> keeps_fd k (f x)) \<Longrightarrow> keeps_fd k (bind_run m f)"
  by (cases m) simp_all

lemma execLoop_fd:
  assumes "\<And>n w m c. keeps_fd (cfd c) (exec n w m c)"
  shows "execLoop exec n z w c cmds = Ok (w', c', evs, vs) \<Longrightarrow> cfd c' = cfd c"
proof (induction cmds arbitrary: n w c evs vs)
  case (Cons m cmds)
  from Cons.prems obtain w1 c1 ev r where "exec n w m c = Ok (w1, c1, ev, r)"
    and "\<exists>evs2 vs2. execLoop exec (Suc n) z w1 c1 cmds = Ok (w', c', evs2, vs2)"
    by (fastforce simp: bind_run_Ok_iff split: option.splits)
  with Cons.IH assms [of c n w m] show ?case by auto
qed simp

lemma runHandler_fd:
  assumes "\<And>n w m c. keeps_fd (cfd c) (exec n w m c)"
  shows "keeps_fd (cfd c) (runHandler exec h env w es c)"
proof (cases "h \<in> {HMulti, HExec, HDiscard}")
  case True
  have "keeps_fd (cfd c) (handleExec exec env w c)"
    unfolding handleExec_def using execLoop_fd [OF assms]
    by (auto intro!: keeps_fd_bind split: option.splits)
  with True show ?thesis
    by (auto simp: runHandler_def handleMulti_def handleDiscard_def split: option.splits)
next
  case False
  then show ?thesis
    using runHandler_keeps_client [OF False, of exec env w es c] by (auto simp: keeps_fd_def split: run.splits)
qed

lemma dispatch_fd:
  assumes "\<And>n w m c. keeps_fd (cfd c) (exec n w m c)"
  shows "keeps_fd (cfd c) (dispatch exec env w m c)"
proof -
  have run: "keeps_fd (cfd c) (runHandler exec h env w es c)" for h es by (rule runHandler_fd [OF assms])
  have "keeps_fd (cfd c) (if propagates (server w') name
      then bind_run (propagateCommand (outcome env) (server w') m) (\<lambda>(s, out). Ok (w'\<lparr>server := s\<rparr>, c', ev @ out, x))
      else Ok (w', c', ev, x))"
    if "runHandler exec h env w es c = Ok (w', c', ev, x)" for h es w' c' ev x name
    using run [of h es] that by (auto intro!: keeps_fd_bind)
  then show ?thesis
    unfolding dispatch_def using run by (auto intro!: keeps_fd_bind split: RespValue.splits option.splits)
qed

lemma executeCommand_fd:
  assumes "executeCommand env envs w command c = Ok (w', c', ev, r)"
  shows "cfd c' = cfd c"
proof -
  have "keeps_fd (cfd c) (executeQueued env w m c)" for env w m c
    unfolding executeQueued_def by (rule dispatch_fd) simp
  then have "keeps_fd (cfd c) (executeCommand env envs w command c)"
    unfolding executeCommand_def by (rule dispatch_fd)
  with assms show ?thesis by simp
qed

lemma shuffles_prefix: "zs \<in> shuffles ys ws \<Longrightarrow> xs @ zs \<in> shuffles (xs @ ys) ws"
  by (induction xs) (auto intro: Cons_in_shuffles_leftI)

lemma handleClientCommand_fd: "handleClientCommand ci w m c = Ok (w', c', ev) \<Longrightarrow> cfd c' = cfd c"
  by (auto simp: handleClientCommand_def bind_run_Ok_iff dest: executeCommand_fd
      split: RespValue.splits if_splits option.splits)

lemma drainCommands_fd: "drainCommands circ n w c b = Ok (n', w', c', b', evs) \<Longrightarrow> cfd c' = cfd c"
proof (induction circ n w c b arbitrary: evs rule: drainCommands.induct)
  case (1 circ n w c b)
  show ?case
  proof (cases "\<exists>b1 m. parseResp (zeroed (cmdEnv (circ n))) b = Ok (b1, RespOk m)")
    case True
    then obtain b1 m where p: "parseResp (zeroed (cmdEnv (circ n))) b = Ok (b1, RespOk m)" by blast
    from "1.prems" obtain w1 c1 ev evs2 where h: "handleClientCommand (circ n) w m c = Ok (w1, c1, ev)"
      and d: "drainCommands circ (Suc n) w1 c1 b1 = Ok (n', w', c', b', evs2)"
      unfolding drainCommands_next [where circ = circ and n = n, OF p] by (auto simp: bind_run_Ok_iff)
    from "1.IH" [OF p refl refl h refl refl d] handleClientCommand_fd [OF h] show ?thesis by simp
  next
    case False
    with "1.prems" show ?thesis
      by (subst (asm) drainCommands.simps) (auto split: run.splits prod.splits resp_result.splits)
  qed
qed

lemma handleClientData_fd: "handleClientData circ n w c b as = Ok (n', w', c', b', evs) \<Longrightarrow> cfd c' = cfd c"
proof (induction as arbitrary: n w c b evs)
  case (Cons a as)
  show ?case
  proof (cases a)
    case (Arrived s)
    show ?thesis
    proof (cases "s = []")
      case False
      with Cons.prems obtain n1 w1 c1 b1 ev evs2 where
        "drainCommands circ n w c (fst (appendRespBuffer (alloc (cmdEnv (circ n))) b s)) = Ok (n1, w1, c1, b1, ev)"
        "handleClientData circ n1 w1 c1 b1 as = Ok (n', w', c', b', evs2)"
        by (auto simp: Arrived bind_run_Ok_iff)
      then show ?thesis using Cons.IH drainCommands_fd by metis
    qed (use Cons.prems Arrived in simp)
  qed (use Cons in auto)
qed simp

text \<open>The steps of \<open>runCommands\<close> under given circumstances, from the \<open>n\<close>-th on.\<close>

definition stepsFrom ::
  "(nat \<Rightarrow> Circumstances) \<Rightarrow> nat \<Rightarrow> RespValue list \<Rightarrow> (Env \<times> (nat \<Rightarrow> Env) \<times> RespValue) list" where
  "stepsFrom circ n cmds = map (\<lambda>(i, m). (cmdEnv (circ i), queueEnvs (circ i), m)) (enumerate n cmds)"

definition replyBytes :: "string option list \<Rightarrow> string list" where
  "replyBytes rs = map cstr (List.map_filter (\<lambda>r. r) rs)"

lemma replyBytes_simps:
  "replyBytes [] = []" "replyBytes (None # rs) = replyBytes rs" "replyBytes (Some r # rs) = cstr r # replyBytes rs"
  by (simp_all add: replyBytes_def List.map_filter_simps)

lemma serve_runCommands:
  assumes "runCommands w c (stepsFrom circ n (map cmd argss)) = Ok (w', c', evs, rs)"
    and "list_all (\<lambda>a. a \<noteq> []) argss" and "0 \<le> cfd c" and "\<forall>i. \<forall>r \<in> set (replyBytes rs). int (length r) \<le> room (circ i)"
  shows "\<exists>evs'. serve circ n w c (map cmd argss) = Ok (w', c', evs') \<and>
    evs' \<in> shuffles evs (map (Wrote (cfd c)) (replyBytes rs))"
  using assms
proof (induction argss arbitrary: n w c evs rs)
  case Nil
  then show ?case by (auto simp: stepsFrom_def replyBytes_simps)
next
  case (Cons a argss)
  from Cons.prems(1) obtain w1 c1 ev r evs2 rs2 where
    x: "executeCommand (cmdEnv (circ n)) (queueEnvs (circ n)) w (cmd a) c = Ok (w1, c1, ev, r)"
    and y: "runCommands w1 c1 (stepsFrom circ (Suc n) (map cmd argss)) = Ok (w', c', evs2, rs2)"
    and e: "evs = ev @ evs2" "rs = r # rs2"
    by (auto simp: stepsFrom_def bind_run_Ok_iff)
  have c1: "cfd c1 = cfd c" using executeCommand_fd [OF x] .
  have "set (replyBytes rs2) \<subseteq> set (replyBytes rs)" by (cases r) (auto simp: e replyBytes_simps)
  with Cons.IH [OF y] Cons.prems(2-4) c1 obtain evs' where
    ih: "serve circ (Suc n) w1 c1 (map cmd argss) = Ok (w', c', evs')"
    "evs' \<in> shuffles evs2 (map (Wrote (cfd c)) (replyBytes rs2))" by fastforce
  have ne: "\<not> length (map RespBulk a) < 1" using Cons.prems(2) by (cases a) auto
  show ?case
  proof (cases r)
    case None
    with x ne have "handleClientCommand (circ n) w (cmd a) c = Ok (w1, c1, ev)"
      by (simp add: handleClientCommand_def cmd_def)
    with ih None shuffles_prefix [OF ih(2), of ev] show ?thesis by (simp add: e replyBytes_simps)
  next
    case (Some reply)
    then have "int (length (cstr reply)) \<le> room (circ n)" using Cons.prems(4) by (simp add: e replyBytes_simps)
    then have "fst (sendReply (room (circ n)) (cfd c) reply) = [Wrote (cfd c) (cstr reply)]"
      using Cons.prems(3) by (simp add: sendReply_def Let_def min_def)
    with x ne Some have "handleClientCommand (circ n) w (cmd a) c = Ok (w1, c1, ev @ [Wrote (cfd c) (cstr reply)])"
      by (simp add: handleClientCommand_def cmd_def)
    with ih Some shuffles_prefix [OF Cons_in_shuffles_rightI [OF ih(2)], of ev "Wrote (cfd c) (cstr reply)"]
    show ?thesis by (simp add: e replyBytes_simps)
  qed
qed


definition example_circ :: "nat \<Rightarrow> Circumstances" where
  "example_circ = (\<lambda>_. \<lparr>cmdEnv = example_env\<lparr>zeroed := True\<rparr>, queueEnvs = (\<lambda>_. example_env), room = 4096\<rparr>)"

lemma example_circ_benign: "benign example_circ"
  by (simp add: benign_def example_circ_def example_env_def)

theorem session_serves_commands_witness:
  "\<exists>b'. buffer b' = [] \<and>
    handleClientData example_circ 0 example_world example_client createRespBuffer
      [Arrived (take 9 (encodeCommand [''PING''])), Again, Arrived (drop 9 (encodeCommand [''PING'']))] =
    bind_run (serve example_circ 0 example_world example_client (map cmd [[''PING'']]))
      (\<lambda>(w', c', ev). Ok (length [[''PING'']], w', c', b', ev))"
proof (rule session_serves_commands [OF example_circ_benign])
  show "list_all sizes_ok [[''PING'']]" by (simp add: sizes_ok_def)
  show "list_all (\<lambda>a. a \<noteq> Broken \<and> a \<noteq> Arrived [])
     [Arrived (take 9 (encodeCommand [''PING''])), Again, Arrived (drop 9 (encodeCommand [''PING'']))]"
    by code_simp
qed simp

definition example_args :: "string list list" where
  "example_args = [[''SET'', ''k'', ''41''], [''PING'']]"

definition example_served :: World where
  "example_served =
     (case runCommands example_world example_client (stepsFrom example_circ 0 (map cmd example_args)) of
        Ok (w, _) \<Rightarrow> w | Fault _ \<Rightarrow> example_world)"

definition example_set :: string where
  "example_set = ''*3'' @ crlf @ ''$3'' @ crlf @ ''SET'' @ crlf @ ''$1'' @ crlf @ ''k'' @ crlf @ ''$2'' @ crlf @ ''41'' @ crlf"


text \<open>
  Every connection is closed: whatever the client sends and whatever the system returns, the
  thread that serves a connection, when it ends, closes the descriptor last; a descriptor
  beyond the limit of clients is closed without touching the server.
\<close>

theorem connection_is_closed:
  assumes "handleClientConnection al circ w clientFd as = Ok (w', evs)"
  shows "(\<exists>evs'. evs = evs' @ [Closed clientFd]) \<and>
    (MAX_CLIENTS \<le> clientFd \<longrightarrow> w' = w \<and> evs = [Closed clientFd])"
proof (cases "MAX_CLIENTS \<le> clientFd \<or> \<not> al 32")
  case True
  with assms show ?thesis by (auto simp: handleClientConnection_def handleNewClient_def split: if_splits)
next
  case False
  let ?c = "\<lparr>cfd = clientFd, in_transaction = False, cqueue = Some createCommandQueue\<rparr>"
  from False assms obtain n c' b' ev where run: "handleClientData circ 0 w ?c createRespBuffer as = Ok (n, w', c', b', ev)"
    and evs: "evs = ev @ [Closed (cfd c')]"
    by (auto simp: handleClientConnection_def handleNewClient_def freeClientState_def bind_run_Ok_iff split: if_splits)
  have "cfd c' = cfd ?c" using handleClientData_fd [OF run] .
  with evs False show ?thesis by simp
qed

theorem connection_is_closed_witness:
  "\<exists>w' evs. handleClientConnection always example_circ example_world 9
      [Arrived (encodeCommand [''GET'', ''k'']), Broken, Arrived (encodeCommand [''PING''])] = Ok (w', evs) \<and>
    (\<exists>evs'. evs = evs' @ [Closed 9])"
proof -
  have "(case handleClientConnection always example_circ example_world 9
      [Arrived (encodeCommand [''GET'', ''k'']), Broken, Arrived (encodeCommand [''PING''])] of Ok _ \<Rightarrow> True | Fault _ \<Rightarrow> False)"
    by code_simp
  then obtain p where p: "handleClientConnection always example_circ example_world 9
      [Arrived (encodeCommand [''GET'', ''k'']), Broken, Arrived (encodeCommand [''PING''])] = Ok p"
    by (auto split: run.splits)
  obtain w' evs where "p = (w', evs)" by (cases p)
  with p connection_is_closed [of always example_circ example_world 9] show ?thesis by blast
qed

end
