(* ===== verification/Replication.thy ===== *)
theory Replication
  imports Handshake Client_Handler
begin

text \<open>
  The rest of \<^verbatim>\<open>src/app/server.c\<close>: the thread of a replica that applies the commands of its
  master, the start of the server and its release. The thread receives like a client
  connection does: a list of arrivals, at most 4096 bytes each, and circumstances per command.
\<close>

section \<open>Operations\<close>

fun isSimpleString :: "RespValue \<Rightarrow> bool" where
  "isSimpleString (RespString s) = True"
| "isSimpleString _ = False"

fun isValidCommand :: "RespValue \<Rightarrow> bool" where
  "isValidCommand (RespArray es) = (0 < length es \<and> isSimpleString (es ! 0))"
| "isValidCommand _ = False"

definition isReplconfGetack :: "RespValue list \<Rightarrow> bool run" where
  "isReplconfGetack es =
     bind_run (argStr es 0) (\<lambda>name.
       if \<not> strcaseeq name ''REPLCONF'' then Ok False
       else if length es \<le> 1 then Ok False
       else bind_run (argStr es 1) (\<lambda>sub. Ok (strcaseeq sub ''GETACK'')))"

text \<open>The client state of the thread is all zero; in particular its queue is NULL.\<close>

definition zeroClient :: ClientState where
  "zeroClient = \<lparr>cfd = 0, in_transaction = False, cqueue = None\<rparr>"

definition processCommand ::
  "Circumstances \<Rightarrow> World \<Rightarrow> RespValue \<Rightarrow> int \<Rightarrow> (World \<times> io_event list) run" where
  "processCommand ci w command fd =
     bind_run (commandElements command) (\<lambda>es.
     bind_run (executeCommand (cmdEnv ci) (queueEnvs ci) w command zeroClient) (\<lambda>(w', c', ev, response).
       case response of
         None \<Rightarrow> Ok (w', ev)
       | Some r \<Rightarrow>
           bind_run (isReplconfGetack es) (\<lambda>getack.
             Ok (w', ev @ (if getack then fst (sendReply (room ci) fd r) else [])))))"

definition addOffset :: "World \<Rightarrow> nat \<Rightarrow> World" where
  "addOffset w n =
     w\<lparr>server := (server w)\<lparr>repl_info := (repl_info (server w))
        \<lparr>repl_offset := repl_offset (repl_info (server w)) + int n\<rparr>\<rparr>\<rparr>"

text \<open>
  The inner loop ends when the parser asks for more bytes. On \<^verbatim>\<open>RESP_ERR\<close> it goes round again
  with the same buffer, for ever.
\<close>

function replicationDrain ::
  "(nat \<Rightarrow> Circumstances) \<Rightarrow> nat \<Rightarrow> World \<Rightarrow> int \<Rightarrow> RespBuffer \<Rightarrow> (nat \<times> World \<times> RespBuffer \<times> io_event list) run" where
  "replicationDrain circ n w fd b =
     (case parseResp (zeroed (cmdEnv (circ n))) b of
        Fault e \<Rightarrow> Fault e
      | Ok (b', r) \<Rightarrow>
          (case r of
             RespIncomplete \<Rightarrow> Ok (n, w, b', [])
           | RespErr \<Rightarrow> Fault Diverges
           | RespOk command \<Rightarrow>
               if isValidCommand command then
                 (case calculateCommandSize command of
                    Fault e \<Rightarrow> Fault e
                  | Ok cmd_bytes \<Rightarrow>
                      (case processCommand (circ n) w command fd of
                         Fault e \<Rightarrow> Fault e
                       | Ok (w', ev) \<Rightarrow>
                           bind_run (replicationDrain circ (Suc n) (addOffset w' cmd_bytes) fd b')
                             (\<lambda>(n2, w2, b2, evs). Ok (n2, w2, b2, ev @ evs))))
               else replicationDrain circ (Suc n) w fd b'))"
  by pat_completeness auto
termination
  by (relation "measure (\<lambda>(circ, n, w, fd, b). length (buffer b))") (auto dest: parseResp_shrinks)

declare replicationDrain.simps [simp del]

definition READ_BUFFER_SIZE :: nat where
  "READ_BUFFER_SIZE = 4096"

text \<open>
  The loop over \<^verbatim>\<open>recv\<close>; the byte after the ones received is set to NUL, which is outside the
  array when it is full. The last component is the result, 0 or -1.
\<close>

fun replicationLoop ::
  "(nat \<Rightarrow> Circumstances) \<Rightarrow> nat \<Rightarrow> World \<Rightarrow> int \<Rightarrow> RespBuffer \<Rightarrow> arrival list
     \<Rightarrow> (World \<times> io_event list \<times> int) run" where
  "replicationLoop circ n w fd b (Arrived s # as) =
     (if s = [] then Ok (w, [], 0)
      else if READ_BUFFER_SIZE \<le> length s then Fault OutOfBounds
      else
        (case appendRespBuffer (alloc (cmdEnv (circ n))) b s of
           (b', RespOk _) \<Rightarrow>
             bind_run (replicationDrain circ n w fd b') (\<lambda>(n1, w1, b1, ev).
             bind_run (replicationLoop circ n1 w1 fd b1 as) (\<lambda>(w2, evs, r). Ok (w2, ev @ evs, r)))
         | (b', _) \<Rightarrow> Ok (w, [], - 1)))"
| "replicationLoop circ n w fd b as = Ok (w, [], 0)"

definition handleReplicationCommands ::
  "(nat \<Rightarrow> Circumstances) \<Rightarrow> World \<Rightarrow> int \<Rightarrow> arrival list \<Rightarrow> (World \<times> io_event list \<times> int) run" where
  "handleReplicationCommands circ w fd as = replicationLoop circ 0 w fd createRespBuffer as"

text \<open>\<^verbatim>\<open>handleReplicationThread\<close> drops the result.\<close>

definition handleReplicationThread ::
  "(nat \<Rightarrow> Circumstances) \<Rightarrow> World \<Rightarrow> int \<Rightarrow> arrival list \<Rightarrow> (World \<times> io_event list) run" where
  "handleReplicationThread circ w fd as =
     bind_run (handleReplicationCommands circ w fd as) (\<lambda>(w', evs, r). Ok (w', evs))"

text \<open>
  What \<^verbatim>\<open>initServer\<close> leaves behind: the events, the listening descriptor, the server, the
  unread input from the master, the descriptor that a replication thread was started with, and
  the status 0 or 1. \<open>threadOk\<close> is whether \<^verbatim>\<open>pthread_create\<close> succeeds.
\<close>

record Started =
  startEvents :: "io_event list"
  listenFd :: "int option"
  startedServer :: RedisServer
  unread :: "chunk list"
  threadFd :: "int option"
  status :: int

definition initServer ::
  "SocketCalls \<Rightarrow> SocketCalls \<Rightarrow> (nat \<Rightarrow> nat \<Rightarrow> int) \<Rightarrow> bool \<Rightarrow> chunk list \<Rightarrow> RedisServer \<Rightarrow> Started" where
  "initServer lsys csys ocs threadOk cs s =
     (case initServerSocket lsys s of
        (ev, None) \<Rightarrow>
          \<lparr>startEvents = ev, listenFd = None, startedServer = s, unread = cs, threadFd = None, status = 1\<rparr>
      | (ev, Some lfd) \<Rightarrow>
          (case master_info (repl_info s) of
             None \<Rightarrow>
               \<lparr>startEvents = ev, listenFd = Some lfd, startedServer = s, unread = cs, threadFd = None, status = 0\<rparr>
           | Some mi \<Rightarrow>
               (case startReplication csys ocs cs mi (port s) of
                  (ev', cs', mi', ok) \<Rightarrow>
                    let s' = s\<lparr>repl_info := (repl_info s)\<lparr>master_info := Some mi'\<rparr>\<rparr> in
                    if ok \<and> threadOk then
                      \<lparr>startEvents = ev @ ev', listenFd = Some lfd, startedServer = s', unread = cs',
                       threadFd = mfd mi', status = 0\<rparr>
                    else
                      \<lparr>startEvents = ev @ ev', listenFd = Some lfd, startedServer = s', unread = cs',
                       threadFd = None, status = 1\<rparr>)))"

text \<open>
  \<^verbatim>\<open>freeServer\<close>: the descriptors it closes. Descriptor 0 is not closed; a server without
  \<^verbatim>\<open>master_info\<close> is taken for a master, and its replicas are closed.
\<close>

definition freeServer :: "int \<Rightarrow> RedisServer option \<Rightarrow> io_event list run" where
  "freeServer lfd s =
     (case s of
        None \<Rightarrow> Ok []
      | Some s \<Rightarrow>
          let ev = (if 0 < lfd then [Closed lfd] else []) in
          (case master_info (repl_info s) of
             Some m \<Rightarrow> Ok ev
           | None \<Rightarrow> bind_run (freeReplicas s) (\<lambda>(s', out). Ok (ev @ out))))"

section \<open>A replica applies nothing\<close>

lemma parsed_not_valid: "parseResp z b = Ok (b', RespOk v) \<Longrightarrow> \<not> isValidCommand v"
  using parsed_shape [of z "buffer b"]
  by (cases "parseBytes z (buffer b)" rule: resp_run_cases) (auto simp: parseResp_def)

lemma replicationDrain_idle:
  "replicationDrain circ n w fd b = Ok (n', w', b', evs) \<Longrightarrow> w' = w \<and> evs = []"
proof (induction circ n w fd b arbitrary: evs rule: replicationDrain.induct)
  case (1 circ n w fd b)
  show ?case
  proof (cases "\<exists>b1 m. parseResp (zeroed (cmdEnv (circ n))) b = Ok (b1, RespOk m)")
    case True
    then obtain b1 m where p: "parseResp (zeroed (cmdEnv (circ n))) b = Ok (b1, RespOk m)" by blast
    have v: "\<not> isValidCommand m" by (rule parsed_not_valid [OF p])
    with "1.prems" p have "replicationDrain circ (Suc n) w fd b1 = Ok (n', w', b', evs)"
      by (simp add: replicationDrain.simps [of circ n])
    from "1.IH"(2) [OF p refl refl v this] show ?thesis .
  next
    case False
    with "1.prems" show ?thesis
      by (subst (asm) replicationDrain.simps) (auto split: run.splits prod.splits resp_result.splits)
  qed
qed

lemma replicationDrain_skip:
  assumes "parseResp (zeroed (cmdEnv (circ n))) b = Ok (b1, RespOk m)"
  shows "replicationDrain circ n w fd b = replicationDrain circ (Suc n) w fd b1"
  using assms parsed_not_valid [OF assms] by (simp add: replicationDrain.simps [of circ n])

text \<open>The thread as a receiver of commands; by the above it does nothing with them.\<close>

fun replicaLoop ::
  "(nat \<Rightarrow> Circumstances) \<Rightarrow> int \<Rightarrow> nat \<times> World \<Rightarrow> RespBuffer \<Rightarrow> ((nat \<times> World) \<times> RespBuffer) run" where
  "replicaLoop circ fd (n, w) b =
     bind_run (replicationDrain circ n w fd b) (\<lambda>(n', w', b', ev). Ok ((n', w'), b'))"

fun replicaAct :: "nat \<times> World \<Rightarrow> RespValue \<Rightarrow> (nat \<times> World) run" where
  "replicaAct (n, w) m = Ok (Suc n, w)"

fun replicaFresh :: "(nat \<Rightarrow> Circumstances) \<Rightarrow> nat \<times> World \<Rightarrow> bool" where
  "replicaFresh circ (n, w) = zeroed (cmdEnv (circ n))"

interpretation replica: receive_loop replicaAct "replicaLoop circ fd" "replicaFresh circ" for circ fd
proof unfold_locales
  fix s :: "nat \<times> World" and b b' m
  obtain n w where s: "s = (n, w)" by (cases s)
  show "replicaLoop circ fd s b = Ok (s, b)" if "parseResp (replicaFresh circ s) b = Ok (b, RespIncomplete)"
    using that by (simp add: s replicationDrain.simps [of circ n])
  show "replicaLoop circ fd s b = bind_run (replicaAct s m) (\<lambda>s'. replicaLoop circ fd s' b')"
    if "parseResp (replicaFresh circ s) b = Ok (b', RespOk m)"
    using that replicationDrain_skip [of circ n b b' m w fd] by (simp add: s)
qed

lemma replica_acts: "replica.acts (n, w) cmds = Ok (n + length cmds, w)"
  by (induction cmds arbitrary: n) simp_all

lemma replicationLoop_feed:
  assumes "benign circ" and "list_all (\<lambda>s. s \<noteq> [] \<and> length s < READ_BUFFER_SIZE) ss"
    and "replica.feed circ fd (n, w) b ss = Ok ((n', w'), b')"
  shows "\<exists>evs. replicationLoop circ n w fd b (map Arrived ss) = Ok (w', evs, 0)"
  using assms(2,3)
proof (induction ss arbitrary: n w b)
  case (Cons s ss)
  have al: "appendRespBuffer (alloc (cmdEnv (circ n))) b s = (put b s, RespOk ())"
    using assms(1) by (simp add: benign_def put_def appendRespBuffer_def Let_def)
  from Cons.prems(2) obtain n1 w1 b1 ev where d: "replicationDrain circ n w fd (put b s) = Ok (n1, w1, b1, ev)"
    and f: "replica.feed circ fd (n1, w1) b1 ss = Ok ((n', w'), b')"
    by (auto simp: bind_run_Ok_iff)
  obtain evs where "replicationLoop circ n1 w1 fd b1 (map Arrived ss) = Ok (w', evs, 0)"
    using Cons.IH [OF _ f] Cons.prems(1) by auto
  with d al Cons.prems(1) show ?case by auto
qed simp

lemma replicationLoop_idle: "replicationLoop circ n w fd b as = Ok (w', evs, r) \<Longrightarrow> w' = w \<and> evs = []"
proof (induction circ n w fd b as arbitrary: evs rule: replicationLoop.induct)
  case (1 circ n w fd b s as)
  show ?case
  proof (cases "s = [] \<or> READ_BUFFER_SIZE \<le> length s \<or> snd (appendRespBuffer (alloc (cmdEnv (circ n))) b s) \<noteq> RespOk ()")
    case True
    with "1.prems" show ?thesis by (auto split: if_splits prod.splits resp_result.splits)
  next
    case False
    then obtain b' where ap: "appendRespBuffer (alloc (cmdEnv (circ n))) b s = (b', RespOk ())"
      by (cases "appendRespBuffer (alloc (cmdEnv (circ n))) b s") auto
    with False "1.prems" obtain n1 w1 b1 ev evs2 where d: "replicationDrain circ n w fd b' = Ok (n1, w1, b1, ev)"
      and l: "replicationLoop circ n1 w1 fd b1 as = Ok (w', evs2, r)" and e: "evs = ev @ evs2"
      by (auto simp: bind_run_Ok_iff)
    have ne: "s \<noteq> []" "\<not> READ_BUFFER_SIZE \<le> length s" using False by auto
    have "w' = w1 \<and> evs2 = []" using "1.IH" [OF ne ap [symmetric] refl l] .
    with replicationDrain_idle [OF d] e show ?thesis by simp
  qed
qed simp_all

text \<open>
  C38. A replica applies nothing of what its master sends: for every sequence of commands in the
  encoding of \<^verbatim>\<open>propagateCommand\<close>, cut into reads in any way, the replication thread parses
  all of them, executes none, sends nothing, and returns 0 with the state of the server
  (store, offset and all) unchanged. The cause is \<^verbatim>\<open>isValidCommand\<close>, which asks for a simple
  string where the parser delivers bulk strings; hence no byte sequence at all makes the thread
  change the server, under any circumstances.
\<close>

theorem replica_applies_nothing:
  assumes "benign circ" and "list_all sizes_ok argss"
    and "list_all (\<lambda>s. s \<noteq> [] \<and> length s < READ_BUFFER_SIZE) ss"
    and "concat ss = concat (map encodeCommand argss)"
  shows "handleReplicationCommands circ w fd (map Arrived ss) = Ok (w, [], 0) \<and>
    (\<forall>circ' as w' evs r. handleReplicationCommands circ' w fd as = Ok (w', evs, r) \<longrightarrow> w' = w \<and> evs = [])"
proof
  show "handleReplicationCommands circ w fd (map Arrived ss) = Ok (w, [], 0)"
  proof -
    have "replicaFresh circ s" for s
      using assms(1) by (cases s) (simp add: benign_def)
    from replica.feed_from_start [where circ = circ and fd = fd, OF this assms(2,4), of "(0, w)"]
    obtain b' where "replica.feed circ fd (0, w) createRespBuffer ss = Ok ((length argss, w), b')"
      by (auto simp: replica_acts)
    from replicationLoop_feed [OF assms(1,3) this] replicationLoop_idle
    show ?thesis unfolding handleReplicationCommands_def by blast
  qed
  show "\<forall>circ' as w' evs r. handleReplicationCommands circ' w fd as = Ok (w', evs, r) \<longrightarrow> w' = w \<and> evs = []"
    unfolding handleReplicationCommands_def using replicationLoop_idle by blast
qed

theorem replica_applies_nothing_witness:
  "handleReplicationCommands example_circ example_replica 3
     (map Arrived [take 9 (encodeCommand [''SET'', ''k'', ''41'']), drop 9 (encodeCommand [''SET'', ''k'', ''41'']) @ encodeCommand [''PING'']]) =
   Ok (example_replica, [], 0)"
proof -
  let ?s = "encodeCommand [''SET'', ''k'', ''41'']" and ?p = "encodeCommand [''PING'']"
  have "list_all (\<lambda>s. s \<noteq> [] \<and> length s < READ_BUFFER_SIZE) [take 9 ?s, drop 9 ?s @ ?p]" by code_simp
  moreover have "list_all sizes_ok [[''SET'', ''k'', ''41''], [''PING'']]" by (simp add: sizes_ok_def)
  moreover have "concat [take 9 ?s, drop 9 ?s @ ?p] = concat (map encodeCommand [[''SET'', ''k'', ''41''], [''PING'']])" by simp
  ultimately show ?thesis
    using replica_applies_nothing [OF example_circ_benign] by blast
qed

section \<open>Hazards of the replication thread\<close>

text \<open>
  The replication thread does not survive two inputs that a master can send: bytes that are
  not a command make its inner loop run for ever, and a read that fills the buffer of 4096 bytes
  writes the terminating NUL behind its end.
\<close>

theorem replication_thread_hazards:
  assumes "benign circ" and "s \<noteq> []"
  shows "(parseBytes True s = Ok RespErr \<and> length s < READ_BUFFER_SIZE \<longrightarrow>
      handleReplicationCommands circ w fd (Arrived s # as) = Fault Diverges) \<and>
    (length s = READ_BUFFER_SIZE \<longrightarrow> handleReplicationCommands circ w fd (Arrived s # as) = Fault OutOfBounds)"
proof (intro conjI impI)
  assume e: "parseBytes True s = Ok RespErr \<and> length s < READ_BUFFER_SIZE"
  have al: "appendRespBuffer (alloc (cmdEnv (circ 0))) createRespBuffer s = (put createRespBuffer s, RespOk ())"
    and z: "zeroed (cmdEnv (circ 0))"
    using assms(1) by (simp_all add: benign_def put_def appendRespBuffer_def Let_def)
  have "buffer (put createRespBuffer s) = s" by (simp add: resp_sink.bytes_first)
  with e z have "replicationDrain circ 0 w fd (put createRespBuffer s) = Fault Diverges"
    by (subst replicationDrain.simps) (simp add: parseResp_def)
  with e al assms(2) show "handleReplicationCommands circ w fd (Arrived s # as) = Fault Diverges"
    by (simp add: handleReplicationCommands_def)
qed (use assms(2) in \<open>simp add: handleReplicationCommands_def\<close>)

theorem replication_thread_hazards_witness:
  "handleReplicationCommands example_circ example_replica 3 [Arrived (''+PONG'' @ crlf)] = Fault Diverges"
proof -
  have "parseBytes True (''+PONG'' @ crlf) = Ok RespErr" "length (''+PONG'' @ crlf) < READ_BUFFER_SIZE" by code_simp+
  with replication_thread_hazards [OF example_circ_benign, of "''+PONG'' @ crlf"] show ?thesis by blast
qed

section \<open>Starting and releasing the server\<close>

text \<open>
  C33. Starting a replica: when both sockets can be set up, no write fails and the thread can be
  created, then for a master that answers the handshake, with any cut into chunks, \<^verbatim>\<open>initServer\<close>
  returns 0, keeps the listening socket and the connection open, changes nothing of the server
  but the stored descriptor, starts the thread on that descriptor, and leaves it exactly the
  bytes behind the snapshot. A master starts without any connection.
\<close>

theorem initServer_starts:
  assumes "initServerSocket lsys s = (ev, Some lfd)"
    and "\<And>mi. master_info (repl_info s) = Some mi \<Longrightarrow>
      connectToHost csys (mhost mi) (mport mi) = ([], Some fd) \<and> threadOk \<and> (\<forall>i k. 0 < ocs i k) \<and> chunks_ok cs \<and>
      replication_id ri = REPLICATION_ID \<and> 0 \<le> repl_offset ri \<and> repl_offset ri < 2 ^ 63 \<and>
      flat cs = (''+PONG'' @ crlf) @ (''+OK'' @ crlf) @ (''+OK'' @ crlf) @ psyncResponse ri @ t"
  shows "let st = initServer lsys csys ocs threadOk cs s in
    status st = 0 \<and> listenFd st = Some lfd \<and> Closed lfd \<notin> set (startEvents st) \<and>
    (case master_info (repl_info s) of
       None \<Rightarrow> startedServer st = s \<and> threadFd st = None \<and> startEvents st = []
     | Some mi \<Rightarrow>
         startedServer st = s\<lparr>repl_info := (repl_info s)\<lparr>master_info := Some (mi\<lparr>mfd := Some fd\<rparr>)\<rparr>\<rparr> \<and>
         threadFd st = Some fd \<and> flat (unread st) = t \<and> Closed fd \<notin> set (startEvents st))"
proof -
  have ev: "ev = []" using assms(1) by (auto simp: initServerSocket_def Let_def split: if_splits)
  show ?thesis
  proof (cases "master_info (repl_info s)")
    case None
    then show ?thesis using assms(1) ev by (simp add: initServer_def)
  next
    case (Some mi)
    note c = assms(2) [OF Some]
    have ri: "nul_free (replication_id ri)" "CR \<notin> set (replication_id ri)" "length (fullresync ri) \<le> 1020"
      using c fullresync_length [of ri] by (simp_all add: REPLICATION_ID_def)
    have "connectToHost csys (mhost mi) (mport mi) = ([], Some fd)" "\<And>i k. 0 < ocs i k" "chunks_ok cs"
      "flat cs = (''+PONG'' @ crlf) @ (''+OK'' @ crlf) @ (''+OK'' @ crlf) @ psyncResponse ri @ t" using c by blast+
    from startReplication_flat [where ocs = ocs and lp = "port s", OF this(1-3) ri this(4)]
    obtain cs' where "startReplication csys ocs cs mi (port s) =
        (map (\<lambda>(es, p). Wrote fd (createRespArray es)) (handshakeSteps (port s)), cs', mi\<lparr>mfd := Some fd\<rparr>, True)"
      "flat cs' = t" by blast
    then show ?thesis using assms(1) ev Some c by (auto simp: initServer_def Let_def)
  qed
qed

definition example_started :: Started where
  "example_started =
     initServer example_calls (example_calls\<lparr>socketR := 5\<rparr>) (\<lambda>_ _. 9) True
       [Bytes ((''+PONG'' @ crlf) @ (''+OK'' @ crlf) @ (''+OK'' @ crlf)),
        Bytes (psyncResponse (repl_info (server example_world)) @ ''*1'')]
       ((server example_replica)\<lparr>bindaddr := ''127.0.0.1''\<rparr>)"

lemma example_start:
  "initServerSocket example_calls ((server example_replica)\<lparr>bindaddr := ''127.0.0.1''\<rparr>) = ([], Some 4)"
  "master_info (repl_info ((server example_replica)\<lparr>bindaddr := ''127.0.0.1''\<rparr>)) =
     Some \<lparr>mhost = ''localhost'', mport = 6379, mfd = Some 3\<rparr>"
  "connectToHost (example_calls\<lparr>socketR := 5\<rparr>) ''localhost'' 6379 = ([], Some 5)"
  "replication_id (repl_info (server example_world)) = REPLICATION_ID"
  "0 \<le> repl_offset (repl_info (server example_world))" "repl_offset (repl_info (server example_world)) < 2 ^ 63"
  by (simp add: initServerSocket_def example_calls_def Let_def, simp add: example_replica_def,
      simp add: connectToHost_def example_calls_def Let_def)
    (simp_all add: example_world_def initialWorld_def example_master_def REPLICATION_ID_def)

theorem initServer_starts_witness:
  "status example_started = 0 \<and> threadFd example_started = Some 5 \<and> flat (unread example_started) = ''*1''"
proof -
  let ?ri = "repl_info (server example_world)"
  let ?cs = "[Bytes ((''+PONG'' @ crlf) @ (''+OK'' @ crlf) @ (''+OK'' @ crlf)), Bytes (psyncResponse ?ri @ ''*1'')]"
  have p: "connectToHost (example_calls\<lparr>socketR := 5\<rparr>) (mhost mi) (mport mi) = ([], Some 5) \<and> True \<and>
      (\<forall>i k. 0 < ((\<lambda>_ _. 9) :: nat \<Rightarrow> nat \<Rightarrow> int) i k) \<and> chunks_ok ?cs \<and> replication_id ?ri = REPLICATION_ID \<and>
      0 \<le> repl_offset ?ri \<and> repl_offset ?ri < 2 ^ 63 \<and>
      flat ?cs = (''+PONG'' @ crlf) @ (''+OK'' @ crlf) @ (''+OK'' @ crlf) @ psyncResponse ?ri @ ''*1''"
    if "master_info (repl_info ((server example_replica)\<lparr>bindaddr := ''127.0.0.1''\<rparr>)) = Some mi" for mi
  proof (intro conjI example_start(4-6) TrueI allI)
    have "mi = \<lparr>mhost = ''localhost'', mport = 6379, mfd = Some 3\<rparr>"
      using that unfolding example_start(2) by (rule option.inject [THEN iffD1, symmetric])
    then show "connectToHost (example_calls\<lparr>socketR := 5\<rparr>) (mhost mi) (mport mi) = ([], Some 5)"
      using example_start(3) by (simp only: MasterInfo.simps)
    show "chunks_ok ?cs" by (simp add: chunks_ok_def)
    show "flat ?cs = (''+PONG'' @ crlf) @ (''+OK'' @ crlf) @ (''+OK'' @ crlf) @ psyncResponse ?ri @ ''*1''"
      by (simp only: flat.simps append_assoc append_Nil2)
  qed (rule zero_less_numeral)
  show ?thesis
    using initServer_starts [OF example_start(1) p]
    unfolding Let_def example_start(2) option.case example_started_def [symmetric]
    by - (drule meta_mp, assumption, elim conjE, intro conjI)
qed

text \<open>
  Releasing a well-formed server closes the listening socket (unless it is descriptor 0) and
  every replica exactly once, in order, and nothing else; a replica's connection to its master
  stays open.
\<close>

theorem freeServer_closes:
  assumes "wf_server s"
  shows "freeServer lfd (Some s) =
    Ok ((if 0 < lfd then [Closed lfd] else []) @
        (case replicas (repl_info s) of None \<Rightarrow> [] | Some rs \<Rightarrow> map (\<lambda>r. Closed (rfd r)) (replicaList rs)))"
  using assms
  by (auto simp: freeServer_def freeReplicas_def withReplicas_def wf_server_def wf_repl_def Let_def split: option.splits)

theorem freeServer_closes_witness:
  "freeServer 4 (Some (server example_world)) = Ok [Closed 4, Closed 7]"
proof -
  have "wf_server (server example_world)" by code_simp
  from freeServer_closes [OF this, of 4] show ?thesis by (simp add: example_world_def initialWorld_def)
qed

end
