(* ===== verification/Thread_Pool.thy ===== *)
theory Thread_Pool
  imports Main "HOL-Library.Multiset"
begin

text \<open>
  The pool of worker threads, \<^verbatim>\<open>src/app/thread_pool.c\<close>, as a step relation between the worker
  threads and the main thread, which is the only one that adds tasks and destroys the pool.
  A critical section is one step; a thread that waits on a condition is a state of its own, and a
  signal wakes one waiting thread, any of them. A wait may also end without a signal.
\<close>

section \<open>The critical sections\<close>

text \<open>\<open>tasks\<close> are the used slots (\<^verbatim>\<open>task_count\<close> is their number), the last one being the top.\<close>

record 'a ThreadPool =
  tasks :: "'a list"
  task_capacity :: nat
  thread_count :: nat
  running :: bool

definition createThreadPool :: "nat \<Rightarrow> 'a ThreadPool" where
  "createThreadPool num_threads =
     \<lparr>tasks = [], task_capacity = num_threads * 2, thread_count = num_threads, running = True\<rparr>"

datatype 'a take_outcome = Stop | WaitEmpty | Take 'a "'a ThreadPool"

text \<open>The body of \<^verbatim>\<open>worker\<close> from the lock to the unlock, or to the wait.\<close>

definition workerTake :: "'a ThreadPool \<Rightarrow> 'a take_outcome" where
  "workerTake pool =
     (if tasks pool = [] \<and> running pool then WaitEmpty
      else if \<not> running pool then Stop
      else Take (last (tasks pool)) (pool\<lparr>tasks := butlast (tasks pool)\<rparr>))"

datatype 'a add_outcome = Rejected | Full | Added "'a ThreadPool"

text \<open>After the wait on \<^verbatim>\<open>not_full\<close> only the number of tasks is tested again.\<close>

definition resumeAdd :: "'a ThreadPool \<Rightarrow> 'a \<Rightarrow> 'a add_outcome" where
  "resumeAdd pool task =
     (if length (tasks pool) = task_capacity pool then Full else Added (pool\<lparr>tasks := tasks pool @ [task]\<rparr>))"

definition threadPoolAdd :: "'a ThreadPool \<Rightarrow> 'a \<Rightarrow> 'a add_outcome" where
  "threadPoolAdd pool task = (if \<not> running pool then Rejected else resumeAdd pool task)"

definition stopPool :: "'a ThreadPool \<Rightarrow> 'a ThreadPool" where
  "stopPool pool = pool\<lparr>running := False\<rparr>"

section \<open>The threads\<close>

datatype 'a worker =
    Top        \<comment> \<open>about to test \<^verbatim>\<open>pool->running\<close> without the lock\<close>
  | AtLock     \<comment> \<open>about to enter the critical section, or woken up in it\<close>
  | Waiting    \<comment> \<open>waiting on \<^verbatim>\<open>not_empty\<close>\<close>
  | Busy 'a
  | Exited

datatype 'a adder = Ready | Blocked 'a | Retry 'a | Joining | Joined

record 'a PoolState =
  pool :: "'a ThreadPool"
  workers :: "'a worker list"
  adder :: "'a adder"
  accepted :: "'a list"  \<comment> \<open>the tasks for which \<^verbatim>\<open>threadPoolAdd\<close> returned 0\<close>
  finished :: "'a list"

definition initialPool :: "nat \<Rightarrow> 'a PoolState" where
  "initialPool n =
     \<lparr>pool = createThreadPool n, workers = replicate n Top, adder = Ready, accepted = [], finished = []\<rparr>"

text \<open>\<^verbatim>\<open>pthread_cond_signal\<close> and \<^verbatim>\<open>pthread_cond_broadcast\<close> on \<^verbatim>\<open>not_empty\<close>.\<close>

definition signalled :: "'a worker list \<Rightarrow> 'a worker list \<Rightarrow> bool" where
  "signalled ws ws' =
     (if Waiting \<in> set ws then (\<exists>i < length ws. ws ! i = Waiting \<and> ws' = ws[i := AtLock]) else ws' = ws)"

definition broadcast :: "'a worker list \<Rightarrow> 'a worker list" where
  "broadcast ws = map (\<lambda>w. case w of Waiting \<Rightarrow> AtLock | _ \<Rightarrow> w) ws"

definition signalFull :: "'a adder \<Rightarrow> 'a adder" where
  "signalFull a = (case a of Blocked t \<Rightarrow> Retry t | _ \<Rightarrow> a)"

inductive pool_step :: "'a PoolState \<Rightarrow> 'a PoolState \<Rightarrow> bool" where
  enter: "i < length (workers s) \<Longrightarrow> workers s ! i = Top \<Longrightarrow> running (pool s) \<Longrightarrow>
    pool_step s (s\<lparr>workers := (workers s)[i := AtLock]\<rparr>)"
| leave: "i < length (workers s) \<Longrightarrow> workers s ! i = Top \<Longrightarrow> \<not> running (pool s) \<Longrightarrow>
    pool_step s (s\<lparr>workers := (workers s)[i := Exited]\<rparr>)"
| take_task: "i < length (workers s) \<Longrightarrow> workers s ! i = AtLock \<Longrightarrow> workerTake (pool s) = Take t p \<Longrightarrow>
    pool_step s (s\<lparr>pool := p, workers := (workers s)[i := Busy t], adder := signalFull (adder s)\<rparr>)"
| wait_task: "i < length (workers s) \<Longrightarrow> workers s ! i = AtLock \<Longrightarrow> workerTake (pool s) = WaitEmpty \<Longrightarrow>
    pool_step s (s\<lparr>workers := (workers s)[i := Waiting]\<rparr>)"
| stop: "i < length (workers s) \<Longrightarrow> workers s ! i = AtLock \<Longrightarrow> workerTake (pool s) = Stop \<Longrightarrow>
    pool_step s (s\<lparr>workers := (workers s)[i := Exited]\<rparr>)"
| spurious: "i < length (workers s) \<Longrightarrow> workers s ! i = Waiting \<Longrightarrow>
    pool_step s (s\<lparr>workers := (workers s)[i := AtLock]\<rparr>)"
| finish: "i < length (workers s) \<Longrightarrow> workers s ! i = Busy t \<Longrightarrow>
    pool_step s (s\<lparr>workers := (workers s)[i := Top], finished := finished s @ [t]\<rparr>)"
| add: "adder s = Ready \<Longrightarrow> threadPoolAdd (pool s) t = Added p \<Longrightarrow> signalled (workers s) ws \<Longrightarrow>
    pool_step s (s\<lparr>pool := p, workers := ws, accepted := accepted s @ [t]\<rparr>)"
| block: "adder s = Ready \<Longrightarrow> threadPoolAdd (pool s) t = Full \<Longrightarrow> pool_step s (s\<lparr>adder := Blocked t\<rparr>)"
| wake: "adder s = Blocked t \<Longrightarrow> pool_step s (s\<lparr>adder := Retry t\<rparr>)"
| retry: "adder s = Retry t \<Longrightarrow> resumeAdd (pool s) t = Added p \<Longrightarrow> signalled (workers s) ws \<Longrightarrow>
    pool_step s (s\<lparr>pool := p, workers := ws, adder := Ready, accepted := accepted s @ [t]\<rparr>)"
| block_again: "adder s = Retry t \<Longrightarrow> resumeAdd (pool s) t = Full \<Longrightarrow> pool_step s (s\<lparr>adder := Blocked t\<rparr>)"
| destroy: "adder s = Ready \<Longrightarrow>
    pool_step s (s\<lparr>pool := stopPool (pool s), workers := broadcast (workers s), adder := Joining\<rparr>)"
| join: "adder s = Joining \<Longrightarrow> set (workers s) \<subseteq> {Exited} \<Longrightarrow> pool_step s (s\<lparr>adder := Joined\<rparr>)"

section \<open>The invariant\<close>

definition awake :: "'a worker \<Rightarrow> nat" where
  "awake w = (case w of Top \<Rightarrow> 1 | AtLock \<Rightarrow> 1 | _ \<Rightarrow> 0)"

definition held :: "'a worker \<Rightarrow> 'a multiset" where
  "held w = (case w of Busy t \<Rightarrow> {#t#} | _ \<Rightarrow> {#})"

abbreviation awakes :: "'a worker list \<Rightarrow> nat" where
  "awakes ws \<equiv> sum_list (map awake ws)"

abbreviation helds :: "'a worker list \<Rightarrow> 'a multiset" where
  "helds ws \<equiv> sum_list (map held ws)"

text \<open>
  The tasks fit into the array; a task is queued, held by one worker or finished; while a worker
  waits, every queued task has a worker that is awake to take it; the main thread waits only
  while the queue is full; and a stopped pool has no waiting worker.
\<close>

definition pool_inv :: "'a PoolState \<Rightarrow> bool" where
  "pool_inv s =
     (length (tasks (pool s)) \<le> task_capacity (pool s) \<and>
      task_capacity (pool s) = 2 * length (workers s) \<and> thread_count (pool s) = length (workers s) \<and>
      mset (accepted s) = mset (tasks (pool s)) + helds (workers s) + mset (finished s) \<and>
      (Waiting \<in> set (workers s) \<longrightarrow> length (tasks (pool s)) \<le> awakes (workers s)) \<and>
      (\<forall>t. adder s = Blocked t \<longrightarrow> length (tasks (pool s)) = task_capacity (pool s)) \<and>
      (running (pool s) = (adder s \<notin> {Joining, Joined})) \<and>
      (\<not> running (pool s) \<longrightarrow> Waiting \<notin> set (workers s)))"

lemma sum_list_update_map:
  fixes f :: "'a \<Rightarrow> 'b :: comm_monoid_add"
  shows "i < length ws \<Longrightarrow> sum_list (map f (ws[i := w])) + f (ws ! i) = sum_list (map f ws) + f w"
proof (induction ws arbitrary: i)
  case (Cons a ws)
  show ?case
  proof (cases i)
    case (Suc j)
    with Cons have "sum_list (map f (ws[j := w])) + f (ws ! j) = sum_list (map f ws) + f w" by simp
    with Suc show ?thesis by (simp add: add.assoc)
  qed (simp add: ac_simps)
qed simp

lemmas awakes_update = sum_list_update_map [where f = awake]
lemmas helds_update = sum_list_update_map [where f = held]

lemma signalled_effect:
  assumes "signalled ws ws'"
  shows "length ws' = length ws" and "helds ws' = helds ws"
    and "Waiting \<in> set ws' \<Longrightarrow> Waiting \<in> set ws \<and> awakes ws' = Suc (awakes ws)"
    and "Waiting \<notin> set ws \<Longrightarrow> Waiting \<notin> set ws'"
proof -
  have "length ws' = length ws \<and> helds ws' = helds ws \<and>
    (Waiting \<in> set ws' \<longrightarrow> Waiting \<in> set ws \<and> awakes ws' = Suc (awakes ws)) \<and> (Waiting \<notin> set ws \<longrightarrow> Waiting \<notin> set ws')"
  proof (cases "Waiting \<in> set ws")
    case True
    with assms obtain i where "i < length ws" "ws ! i = Waiting" "ws' = ws[i := AtLock]"
      by (auto simp: signalled_def)
    with True show ?thesis
      using awakes_update [of i ws AtLock] helds_update [of i ws AtLock] by (simp add: awake_def held_def)
  qed (use assms in \<open>simp add: signalled_def\<close>)
  then show "length ws' = length ws" "helds ws' = helds ws"
    "Waiting \<in> set ws' \<Longrightarrow> Waiting \<in> set ws \<and> awakes ws' = Suc (awakes ws)" "Waiting \<notin> set ws \<Longrightarrow> Waiting \<notin> set ws'"
    by blast+
qed

lemma broadcast_effect:
  "length (broadcast ws) = length ws" "helds (broadcast ws) = helds ws" "Waiting \<notin> set (broadcast ws)"
proof -
  have "held (case w of Waiting \<Rightarrow> AtLock | _ \<Rightarrow> w) = held w" for w :: "'a worker"
    by (cases w) (simp_all add: held_def)
  then show "helds (broadcast ws) = helds ws" by (simp add: broadcast_def o_def)
qed (auto simp: broadcast_def split: worker.splits)

lemma initialPool_inv: "pool_inv (initialPool n)"
proof -
  have "helds (replicate n Top) = {#}" by (induction n) (simp_all add: held_def)
  then show ?thesis by (auto simp: pool_inv_def initialPool_def createThreadPool_def)
qed

lemma workerTake_simps:
  "workerTake p = WaitEmpty \<longleftrightarrow> tasks p = [] \<and> running p"
  "workerTake p = Stop \<longleftrightarrow> \<not> running p"
  "workerTake p = Take t p' \<longleftrightarrow> running p \<and> tasks p \<noteq> [] \<and> t = last (tasks p) \<and> p' = p\<lparr>tasks := butlast (tasks p)\<rparr>"
  by (auto simp: workerTake_def)

lemma add_simps:
  "resumeAdd p t = Added p' \<longleftrightarrow> length (tasks p) \<noteq> task_capacity p \<and> p' = p\<lparr>tasks := tasks p @ [t]\<rparr>"
  "resumeAdd p t = Full \<longleftrightarrow> length (tasks p) = task_capacity p"
  "threadPoolAdd p t = Added p' \<longleftrightarrow> running p \<and> length (tasks p) \<noteq> task_capacity p \<and> p' = p\<lparr>tasks := tasks p @ [t]\<rparr>"
  "threadPoolAdd p t = Full \<longleftrightarrow> running p \<and> length (tasks p) = task_capacity p"
  "threadPoolAdd p t = Rejected \<longleftrightarrow> \<not> running p"
  by (auto simp: resumeAdd_def threadPoolAdd_def)

lemma mset_last_butlast: "xs \<noteq> [] \<Longrightarrow> add_mset (last xs) (mset (butlast xs)) = mset xs"
  by (metis append_butlast_last_id mset_append mset_single_iff add_mset_add_single)

lemma worker_update:
  assumes "i < length ws" and "ws ! i = v"
  shows "awakes (ws[i := w]) + awake v = awakes ws + awake w" and "helds (ws[i := w]) + held v = helds ws + held w"
    and "Waiting \<in> set (ws[i := w]) \<Longrightarrow> w \<noteq> Waiting \<Longrightarrow> Waiting \<in> set ws"
  using awakes_update [OF assms(1), of w] helds_update [OF assms(1), of w] set_update_subset_insert [of ws i w]
  by (auto simp: assms(2))

lemmas worker_counts = awake_def held_def

lemma pool_step_inv:
  assumes "pool_step s s'" and "pool_inv s"
  shows "pool_inv s'"
  using assms
proof (cases rule: pool_step.cases)
  case (enter i)
  with assms(2) worker_update [OF enter(2,3), of AtLock] show ?thesis
    by (auto simp: pool_inv_def worker_counts)
next
  case (leave i)
  with assms(2) worker_update [OF leave(2,3), of Exited] show ?thesis
    by (auto simp: pool_inv_def worker_counts)
next
  case (take_task i t p)
  with assms(2) worker_update [OF take_task(2,3), of "Busy t"] mset_last_butlast [of "tasks (pool s)"] show ?thesis
    by (auto simp: pool_inv_def worker_counts workerTake_simps signalFull_def split: adder.splits)
next
  case (wait_task i)
  with assms(2) worker_update [OF wait_task(2,3), of Waiting] show ?thesis
    by (auto simp: pool_inv_def worker_counts workerTake_simps)
next
  case (stop i)
  with assms(2) worker_update [OF stop(2,3), of Exited] show ?thesis
    by (auto simp: pool_inv_def worker_counts workerTake_simps)
next
  case (spurious i)
  with assms(2) worker_update [OF spurious(2,3), of AtLock] show ?thesis
    by (auto simp: pool_inv_def worker_counts)
next
  case (finish i t)
  with assms(2) worker_update [OF finish(2,3), of Top] show ?thesis
    by (auto simp: pool_inv_def worker_counts)
next
  case (add t p ws)
  with assms(2) signalled_effect [OF add(4)] show ?thesis
    by (auto simp: pool_inv_def add_simps)
next
  case (retry t p ws)
  with assms(2) signalled_effect [OF retry(4)] show ?thesis
    by (auto simp: pool_inv_def add_simps)
next
  case destroy
  with assms(2) broadcast_effect [of "workers s"] show ?thesis
    by (auto simp: pool_inv_def stopPool_def)
qed (use assms(2) in \<open>auto simp: pool_inv_def add_simps\<close>)

section \<open>Properties\<close>

inductive_cases pool_stepE: "pool_step s s'"

lemma reachable_inv: "pool_step\<^sup>*\<^sup>* (initialPool n) s \<Longrightarrow> pool_inv s"
  by (induction rule: rtranclp_induct) (auto intro: initialPool_inv pool_step_inv)

lemma workers_length: "pool_step\<^sup>*\<^sup>* s s' \<Longrightarrow> length (workers s') = length (workers s)"
proof (induction rule: rtranclp_induct)
  case (step s1 s2)
  from step.hyps(2) have "length (workers s2) = length (workers s1)"
    by (cases rule: pool_step.cases) (simp_all add: signalled_effect(1) broadcast_effect(1))
  with step.IH show ?case by simp
qed simp

lemma some_awake: "0 < awakes ws \<Longrightarrow> \<exists>w \<in> set ws. w = Top \<or> w = AtLock"
  by (induction ws) (auto simp: awake_def split: worker.splits if_splits)

lemma awakes_le: "awakes ws \<le> length ws"
  by (induction ws) (auto simp: awake_def split: worker.splits)

text \<open>
  C23. Safety of the thread pool, in every reachable state and for every schedule: the task array
  is never overrun, and every task that was accepted is in exactly one place, waiting in the
  array, in the hands of one worker, or finished; none is lost and none is run twice.
\<close>

theorem thread_pool_safety:
  assumes "pool_step\<^sup>*\<^sup>* (initialPool n) s"
  shows "length (tasks (pool s)) \<le> 2 * n \<and> task_capacity (pool s) = 2 * n \<and>
    mset (accepted s) = mset (tasks (pool s)) + helds (workers s) + mset (finished s)"
  using reachable_inv [OF assms] workers_length [OF assms] by (simp add: pool_inv_def initialPool_def)

text \<open>
  C24. No wake-up is lost: in every reachable state of a running pool, a queued task while some
  worker waits has a worker that is awake and about to look for it; and while the main thread
  waits for room, the array is full and no worker waits at all, so each of them is awake or busy
  with a task.
\<close>

theorem thread_pool_no_lost_wakeup:
  assumes "pool_step\<^sup>*\<^sup>* (initialPool n) s"
  shows "(tasks (pool s) \<noteq> [] \<and> Waiting \<in> set (workers s) \<longrightarrow> (\<exists>w \<in> set (workers s). w = Top \<or> w = AtLock)) \<and>
    (\<forall>t. adder s = Blocked t \<longrightarrow> length (tasks (pool s)) = 2 * n \<and> (0 < n \<longrightarrow> Waiting \<notin> set (workers s)))"
proof (intro conjI allI impI)
  note inv = reachable_inv [OF assms]
  have len: "length (workers s) = n" using workers_length [OF assms] by (simp add: initialPool_def)
  show "\<exists>w \<in> set (workers s). w = Top \<or> w = AtLock" if "tasks (pool s) \<noteq> [] \<and> Waiting \<in> set (workers s)"
  proof (rule some_awake)
    have "length (tasks (pool s)) \<le> awakes (workers s)" using inv that by (simp add: pool_inv_def)
    moreover have "0 < length (tasks (pool s))" using that by simp
    ultimately show "0 < awakes (workers s)" by (rule order.strict_trans2 [rotated])
  qed
  show full: "length (tasks (pool s)) = 2 * n" if "adder s = Blocked t" for t
    using inv that len by (simp add: pool_inv_def)
  show "Waiting \<notin> set (workers s)" if "adder s = Blocked t" "0 < n" for t
  proof
    assume "Waiting \<in> set (workers s)"
    then have "2 * n \<le> awakes (workers s)" using inv full [OF that(1)] by (auto simp: pool_inv_def)
    with awakes_le [of "workers s"] len that(2) show False by simp
  qed
qed

text \<open>The steps that are left in a pool that is being destroyed.\<close>

definition shutdownWork :: "'a PoolState \<Rightarrow> nat" where
  "shutdownWork s =
     sum_list (map (\<lambda>w. case w of Busy _ \<Rightarrow> 2 | Top \<Rightarrow> 1 | AtLock \<Rightarrow> 1 | _ \<Rightarrow> 0) (workers s)) +
     (if adder s = Joining then 1 else 0)"

lemmas work_update = sum_list_update_map [where f = "\<lambda>w. case w of Busy _ \<Rightarrow> (2 :: nat) | Top \<Rightarrow> 1 | AtLock \<Rightarrow> 1 | _ \<Rightarrow> 0"]

lemma shutdown_step:
  assumes "pool_inv s" and "\<not> running (pool s)" and "pool_step s s'"
  shows "shutdownWork s' < shutdownWork s \<and> pool s' = pool s \<and> accepted s' = accepted s"
  using assms(3)
proof (cases rule: pool_step.cases)
  case (leave i)
  with work_update [OF leave(2), of Exited] show ?thesis by (simp add: shutdownWork_def)
next
  case (stop i)
  with work_update [OF stop(2), of Exited] show ?thesis by (simp add: shutdownWork_def)
next
  case (finish i t)
  with work_update [OF finish(2), of Top] show ?thesis by (simp add: shutdownWork_def)
next
  case (spurious i)
  with assms(1,2) show ?thesis by (auto simp: pool_inv_def dest: nth_mem)
qed (use assms in \<open>auto simp: pool_inv_def workerTake_simps shutdownWork_def\<close>)

lemma shutdown_progress:
  assumes "pool_inv s" and "\<not> running (pool s)" and "adder s \<noteq> Joined"
  shows "\<exists>s'. pool_step s s'"
proof (cases "set (workers s) \<subseteq> {Exited}")
  case True
  then show ?thesis using assms by (auto simp: pool_inv_def intro: pool_step.join)
next
  case False
  then obtain w where "w \<in> set (workers s)" "w \<noteq> Exited" by blast
  then obtain i where i: "i < length (workers s)" "workers s ! i \<noteq> Exited" by (auto simp: in_set_conv_nth)
  have "workers s ! i \<noteq> Waiting" using assms(1,2) i(1) by (auto simp: pool_inv_def dest: nth_mem)
  moreover have "workerTake (pool s) = Stop" using assms(2) by (simp add: workerTake_simps)
  ultimately show ?thesis
    using i assms(2) by (cases "workers s ! i") (blast intro: pool_step.leave pool_step.stop pool_step.finish)+
qed

text \<open>
  C25. Destroying the pool terminates under every schedule, provided the tasks in the hands of
  the workers return: from every reachable state of a stopped pool, each step makes a measure
  smaller and, until the main thread has joined all workers, some step is possible. No task that is
  still queued is ever started: the array stays as it was when the pool was stopped.
\<close>

theorem thread_pool_shutdown:
  assumes "pool_step\<^sup>*\<^sup>* (initialPool n) s" and "\<not> running (pool s)"
  shows "(adder s \<noteq> Joined \<longrightarrow> (\<exists>s'. pool_step s s')) \<and>
    (\<forall>s'. pool_step s s' \<longrightarrow> shutdownWork s' < shutdownWork s \<and> tasks (pool s') = tasks (pool s) \<and> \<not> running (pool s'))"
  using shutdown_progress [OF reachable_inv [OF assms(1)] assms(2)]
    shutdown_step [OF reachable_inv [OF assms(1)] assms(2)] assms(2) by auto

text \<open>
  The pool is a stack: the task that was added last is taken first, and taking it gives back
  the pool before the addition, so an older connection can be overtaken without bound.
\<close>

theorem thread_pool_lifo:
  assumes "threadPoolAdd p t = Added p'"
  shows "workerTake p' = Take t p"
  using assms by (auto simp: add_simps workerTake_def)

section \<open>A run\<close>

text \<open>Two workers wait, a task is added and wakes one of them, and the pool is destroyed.\<close>

definition example_pool :: "int worker list \<Rightarrow> int PoolState" where
  "example_pool ws = (initialPool 2)\<lparr>workers := ws\<rparr>"

definition example_queued :: "int PoolState" where
  "example_queued =
     (example_pool [AtLock, Waiting])\<lparr>pool := (createThreadPool 2)\<lparr>tasks := [7]\<rparr>, accepted := [7]\<rparr>"

definition example_stopped :: "int PoolState" where
  "example_stopped = example_queued\<lparr>pool := stopPool (pool example_queued), workers := [AtLock, AtLock], adder := Joining\<rparr>"

lemmas example_pool_defs = example_pool_def initialPool_def createThreadPool_def

lemma example_waits:
  "pool_step (initialPool 2) (example_pool [AtLock, Top])" "pool_step (example_pool [AtLock, Top]) (example_pool [Waiting, Top])"
  "pool_step (example_pool [Waiting, Top]) (example_pool [Waiting, AtLock])"
  "pool_step (example_pool [Waiting, AtLock]) (example_pool [Waiting, Waiting])"
  using pool_step.enter [of 0 "initialPool 2 :: int PoolState"] pool_step.wait_task [of 0 "example_pool [AtLock, Top]"]
    pool_step.enter [of 1 "example_pool [Waiting, Top]"] pool_step.wait_task [of 1 "example_pool [Waiting, AtLock]"]
  by (simp_all add: example_pool_defs workerTake_simps numeral_2_eq_2)

lemma example_steps_on:
  "pool_step (example_pool [Waiting, Waiting]) example_queued" "pool_step example_queued example_stopped"
proof -
  have "signalled [Waiting, Waiting] [AtLock, Waiting :: int worker]"
    by (auto simp: signalled_def intro: exI [of _ 0])
  then show "pool_step (example_pool [Waiting, Waiting]) example_queued"
    using pool_step.add [of "example_pool [Waiting, Waiting]" 7 "(createThreadPool 2)\<lparr>tasks := [7]\<rparr>" "[AtLock, Waiting]"]
    by (simp add: example_pool_defs example_queued_def add_simps)
  show "pool_step example_queued example_stopped"
    using pool_step.destroy [of example_queued]
    by (simp add: example_pool_defs example_queued_def example_stopped_def broadcast_def)
qed

lemma example_reach:
  "pool_step\<^sup>*\<^sup>* (initialPool 2) example_queued" "pool_step\<^sup>*\<^sup>* (initialPool 2) example_stopped"
  using example_waits example_steps_on by (meson converse_rtranclp_into_rtranclp rtranclp.rtrancl_refl)+

theorem thread_pool_safety_witness:
  "mset (accepted example_queued) =
     mset (tasks (pool example_queued)) + helds (workers example_queued) + mset (finished example_queued)"
  using thread_pool_safety [OF example_reach(1)] by blast

theorem thread_pool_no_lost_wakeup_witness:
  "\<exists>w \<in> set (workers example_queued). w = Top \<or> w = AtLock"
proof -
  have "tasks (pool example_queued) \<noteq> [] \<and> Waiting \<in> set (workers example_queued)"
    by (simp add: example_queued_def example_pool_def)
  with thread_pool_no_lost_wakeup [OF example_reach(1)] show ?thesis by blast
qed

theorem thread_pool_shutdown_witness:
  "\<exists>s'. pool_step example_stopped s'"
proof -
  have "\<not> running (pool example_stopped)" "adder example_stopped \<noteq> Joined"
    by (simp_all add: example_stopped_def stopPool_def)
  with thread_pool_shutdown [OF example_reach(2)] show ?thesis by blast
qed

theorem thread_pool_lifo_witness:
  "workerTake \<lparr>tasks = [1, 2 :: int], task_capacity = 4, thread_count = 2, running = True\<rparr> =
     Take 2 \<lparr>tasks = [1], task_capacity = 4, thread_count = 2, running = True\<rparr>"
  by (rule thread_pool_lifo) (simp add: threadPoolAdd_def resumeAdd_def)

end
