(* ===== verification/Logger.thy ===== *)
theory Logger
  imports CPrelude
begin

text \<open>
  The logger, \<^verbatim>\<open>src/app/logger.c\<close>. Its state is the static \<^verbatim>\<open>current_level\<close> and whether the log
  file is open. The result of a call is what it writes to standard output and to the file; the
  time stamp and the formatted message are arguments.
\<close>

datatype LogLevel = LOG_TRACE | LOG_DEBUG | LOG_INFO | LOG_WARN | LOG_ERROR | LOG_FATAL

definition levels :: "LogLevel list" where
  "levels = [LOG_TRACE, LOG_DEBUG, LOG_INFO, LOG_WARN, LOG_ERROR, LOG_FATAL]"

text \<open>The value of the enumeration constant, by which levels are compared and tables indexed.\<close>

fun level_index :: "LogLevel \<Rightarrow> nat" where
  "level_index LOG_TRACE = 0"
| "level_index LOG_DEBUG = 1"
| "level_index LOG_INFO = 2"
| "level_index LOG_WARN = 3"
| "level_index LOG_ERROR = 4"
| "level_index LOG_FATAL = 5"

lemma level_index_inj [simp]: "level_index a = level_index b \<longleftrightarrow> a = b"
  by (cases a; cases b) simp_all

instantiation LogLevel :: linorder
begin

definition less_eq_LogLevel :: "LogLevel \<Rightarrow> LogLevel \<Rightarrow> bool" where
  "less_eq_LogLevel a b = (level_index a \<le> level_index b)"

definition less_LogLevel :: "LogLevel \<Rightarrow> LogLevel \<Rightarrow> bool" where
  "less_LogLevel a b = (level_index a < level_index b)"

instance
  by standard (auto simp: less_eq_LogLevel_def less_LogLevel_def)

end

record Logger =
  log_file :: bool
  current_level :: LogLevel

definition initialLogger :: Logger where
  "initialLogger = \<lparr>log_file = False, current_level = LOG_INFO\<rparr>"

text \<open>\<open>opens\<close> is whether \<^verbatim>\<open>fopen\<close> succeeds; when it does not, the level stays as it was.\<close>

definition logger_init :: "bool \<Rightarrow> string option \<Rightarrow> LogLevel \<Rightarrow> Logger \<Rightarrow> Logger" where
  "logger_init opens file level lg =
     (case file of
        None \<Rightarrow> lg\<lparr>current_level := level\<rparr>
      | Some _ \<Rightarrow>
          if opens then \<lparr>log_file = True, current_level = level\<rparr> else lg\<lparr>log_file := False\<rparr>)"

definition logger_set_level :: "LogLevel \<Rightarrow> Logger \<Rightarrow> Logger" where
  "logger_set_level level lg = lg\<lparr>current_level := level\<rparr>"

definition logger_close :: "Logger \<Rightarrow> Logger" where
  "logger_close lg = lg\<lparr>log_file := False\<rparr>"

definition ESC :: string where
  "ESC = [CHR 0x1B]"

definition level_strings :: "string list" where
  "level_strings = [''TRACE'', ''DEBUG'', ''INFO'', ''WARN'', ''ERROR'', ''FATAL'']"

definition level_colors :: "string list" where
  "level_colors = map (\<lambda>n. ESC @ ''['' @ n @ ''m'') [''94'', ''36'', ''32'', ''33'', ''31'', ''35'']"

text \<open>\<^verbatim>\<open>%-5s\<close>.\<close>

definition pad5 :: "string \<Rightarrow> string" where
  "pad5 s = s @ replicate (5 - length s) (CHR '' '')"

definition stdoutLine :: "LogLevel \<Rightarrow> string \<Rightarrow> string \<Rightarrow> nat \<Rightarrow> string \<Rightarrow> string" where
  "stdoutLine level timestamp file line msg =
     level_colors ! level_index level @ timestamp @ '' '' @ pad5 (level_strings ! level_index level) @
     ESC @ ''[0m '' @ ESC @ ''[90m'' @ file @ '':'' @ show_nat line @ '':'' @ ESC @ ''[0m '' @ msg @ [LF]"

definition fileLine :: "LogLevel \<Rightarrow> string \<Rightarrow> string \<Rightarrow> nat \<Rightarrow> string \<Rightarrow> string" where
  "fileLine level timestamp file line msg =
     timestamp @ '' '' @ pad5 (level_strings ! level_index level) @ '' '' @ file @ '':'' @ show_nat line @ '': '' @
     msg @ [LF]"

definition logger_log ::
  "Logger \<Rightarrow> LogLevel \<Rightarrow> string \<Rightarrow> string \<Rightarrow> nat \<Rightarrow> string \<Rightarrow> string \<times> string" where
  "logger_log lg level timestamp file line msg =
     (if level < current_level lg then ([], [])
      else (stdoutLine level timestamp file line msg,
            if log_file lg then fileLine level timestamp file line msg else []))"

section \<open>Properties\<close>

lemma level_tables: "length level_strings = length levels" "length level_colors = length levels"
  "level_index level < length levels" "levels ! level_index level = level"
  by (simp_all add: level_strings_def level_colors_def levels_def, (cases level; simp)+)

lemma pad5_level: "length (pad5 (level_strings ! level_index level)) = 5"
  by (cases level) (simp_all add: pad5_def level_strings_def)

text \<open>
  The level filter: with the level set to \<open>l\<close>, a message of a level below \<open>l\<close> writes nothing,
  one of a level from \<open>l\<close> on writes exactly one line to standard output, and the same message to
  the file when it is open; the tables are never indexed past their end; a log file that cannot be
  opened leaves the level as it was.
\<close>

theorem logger_filter:
  "(logger_log (logger_set_level l lg) level ts file line msg = ([], []) \<longleftrightarrow> level < l) \<and>
   (l \<le> level \<longrightarrow> logger_log (logger_set_level l lg) level ts file line msg =
     (stdoutLine level ts file line msg, if log_file lg then fileLine level ts file line msg else [])) \<and>
   level_index level < length level_strings \<and> level_index level < length level_colors \<and>
   current_level (logger_init False (Some name) l lg) = current_level lg"
proof -
  have "stdoutLine level ts file line msg \<noteq> []" by (simp add: stdoutLine_def)
  then show ?thesis
    using level_tables by (auto simp: logger_log_def logger_set_level_def logger_init_def not_less)
qed

theorem logger_filter_witness:
  "logger_log (logger_set_level LOG_WARN initialLogger) LOG_ERROR ''t'' ''f.c'' 1 ''m'' =
     (stdoutLine LOG_ERROR ''t'' ''f.c'' 1 ''m'', [])"
proof -
  have "LOG_WARN \<le> LOG_ERROR" by (simp add: less_eq_LogLevel_def)
  with logger_filter [of LOG_WARN initialLogger LOG_ERROR "''t''" "''f.c''" 1 "''m''" "''a''"] show ?thesis
    by (simp add: initialLogger_def)
qed

end
