(* ===== verification/Program.thy ===== *)
theory Program
  imports Replication Thread_Pool Logger
begin

text \<open>
  The main program, \<^verbatim>\<open>src/app/main.c\<close>: start-up, the loop that accepts connections, and the
  release of everything at the end. The strings of the configuration are shared with the server
  (\<^verbatim>\<open>createServer\<close> copies the pointers), so memory is modelled here as the list of the blocks
  that are allocated.
\<close>

section \<open>Blocks\<close>

datatype block =
    ConfigB | DirB | FilenameB | BindB | HostB
  | ServerB | StoreB | ReplInfoB | ReplIdB | MasterInfoB | MasterHostB | ReplicaListB

definition freeBlock :: "block \<Rightarrow> block list \<Rightarrow> block list run" where
  "freeBlock b heap = (if b \<in> set heap then Ok (remove1 b heap) else Fault UseAfterFree)"

fun freeBlocks :: "block list \<Rightarrow> block list \<Rightarrow> block list run" where
  "freeBlocks [] heap = Ok heap"
| "freeBlocks (b # bs) heap = bind_run (freeBlock b heap) (freeBlocks bs)"

text \<open>What \<^verbatim>\<open>freeConfig\<close> and \<^verbatim>\<open>freeServer\<close> pass to \<^verbatim>\<open>free\<close>, in order.\<close>

definition freeConfig :: "ServerConfig \<Rightarrow> block list" where
  "freeConfig config =
     [DirB, FilenameB, BindB] @ (case master_host config of None \<Rightarrow> [] | Some _ \<Rightarrow> [HostB]) @ [ConfigB]"

definition freeServerMemory :: "RedisServer \<Rightarrow> block list" where
  "freeServerMemory s =
     [BindB, StoreB, DirB, FilenameB] @
     (case master_info (repl_info s) of None \<Rightarrow> [ReplicaListB] | Some _ \<Rightarrow> [MasterHostB, MasterInfoB]) @
     [ReplIdB, ReplInfoB, ServerB]"

text \<open>The blocks that \<^verbatim>\<open>parseConfig\<close> allocates, and those that \<^verbatim>\<open>createServer\<close> adds to them.\<close>

definition configHeap :: "ServerConfig \<Rightarrow> block list" where
  "configHeap config = ConfigB # DirB # FilenameB # BindB # (case master_host config of None \<Rightarrow> [] | Some _ \<Rightarrow> [HostB])"

definition serverHeap :: "RedisServer \<Rightarrow> block list" where
  "serverHeap s =
     [ServerB, ReplInfoB, ReplIdB] @
     (case master_info (repl_info s) of None \<Rightarrow> [ReplicaListB] | Some _ \<Rightarrow> [MasterInfoB, MasterHostB]) @ [StoreB]"

text \<open>\<^verbatim>\<open>freeServer\<close> with its listening descriptor: the descriptors and the memory it releases.\<close>

definition releaseServer :: "int \<Rightarrow> RedisServer \<Rightarrow> block list \<Rightarrow> (block list \<times> io_event list) run" where
  "releaseServer lfd s heap =
     bind_run (freeServer lfd (Some s)) (\<lambda>ev.
     bind_run (freeBlocks (freeServerMemory s) heap) (\<lambda>heap'. Ok (heap', ev)))"

text \<open>
  The static variables of \<^verbatim>\<open>main.c\<close>, the heap and the logger. \<^verbatim>\<open>threadPoolDestroy\<close> returns
  when all workers have ended (\<open>thread_pool_shutdown\<close>), and the pool is gone then.
\<close>

record Globals =
  g_pool :: "int ThreadPool option"
  g_server :: "(int \<times> RedisServer) option"
  g_config :: "ServerConfig option"
  g_heap :: "block list"
  g_logger :: Logger

definition cleanup_resources :: "Globals \<Rightarrow> (Globals \<times> io_event list) run" where
  "cleanup_resources g =
     (let g1 = g\<lparr>g_pool := None\<rparr> in
      bind_run
        (case g_server g1 of
           None \<Rightarrow> Ok (g1, [])
         | Some (lfd, s) \<Rightarrow>
             bind_run (releaseServer lfd s (g_heap g1)) (\<lambda>(heap, ev). Ok (g1\<lparr>g_server := None, g_heap := heap\<rparr>, ev)))
        (\<lambda>(g2, ev).
      bind_run
        (case g_config g2 of
           None \<Rightarrow> Ok g2
         | Some config \<Rightarrow>
             bind_run (freeBlocks (freeConfig config) (g_heap g2)) (\<lambda>heap. Ok (g2\<lparr>g_config := None, g_heap := heap\<rparr>)))
        (\<lambda>g3. Ok (g3\<lparr>g_logger := logger_close (g_logger g3)\<rparr>, ev))))"

section \<open>Start-up and the accept loop\<close>

datatype boot = Exit int | Serving Started

text \<open>
  \<^verbatim>\<open>main\<close> up to the accept loop. When \<^verbatim>\<open>createServer\<close> fails after its first allocation, it
  has released the strings of the configuration, which \<^verbatim>\<open>freeConfig\<close> then releases again.
\<close>

definition bootstrap ::
  "allocator \<Rightarrow> SocketCalls \<Rightarrow> SocketCalls \<Rightarrow> (nat \<Rightarrow> nat \<Rightarrow> int) \<Rightarrow> bool \<Rightarrow> chunk list \<Rightarrow> string list \<Rightarrow> boot run" where
  "bootstrap al lsys csys ocs threadOk cs argv =
     (let config = parseConfig argv in
      bind_run (createServer al config) (\<lambda>r.
        case r of
          None \<Rightarrow> if \<not> al 88 then Ok (Exit 1) else Fault UseAfterFree
        | Some s \<Rightarrow>
            let st = initServer lsys csys ocs threadOk cs s in
            if status st \<noteq> 0 then
              bind_run (releaseServer (case listenFd st of None \<Rightarrow> 0 | Some fd \<Rightarrow> fd) (startedServer st)
                  (configHeap config @ serverHeap s)) (\<lambda>(heap, ev).
              bind_run (freeBlocks (freeConfig config) heap) (\<lambda>heap'. Ok (Exit 1)))
            else Ok (Serving st)))"

text \<open>
  One turn of the accept loop: what \<^verbatim>\<open>accept\<close> does, whether the argument can be allocated,
  and whether \<^verbatim>\<open>threadPoolAdd\<close> returns 0. The result is the events and the descriptor that was
  handed to the pool.
\<close>

record Turn =
  acceptCalls :: SocketCalls
  argOk :: bool
  addOk :: bool

definition acceptTurn :: "Turn \<Rightarrow> io_event list \<times> int option" where
  "acceptTurn t =
     (case acceptClient (acceptCalls t) of
        (ev, None) \<Rightarrow> (ev, None)
      | (ev, Some fd) \<Rightarrow>
          if \<not> argOk t then (ev @ [Closed fd], None)
          else if \<not> addOk t then (ev @ [Closed fd], None)
          else (ev, Some fd))"

fun acceptLoop :: "Turn list \<Rightarrow> io_event list \<times> int list" where
  "acceptLoop [] = ([], [])"
| "acceptLoop (t # ts) =
     (case acceptTurn t of
        (ev, r) \<Rightarrow> (case acceptLoop ts of (evs, fds) \<Rightarrow> (ev @ evs, (case r of None \<Rightarrow> [] | Some fd \<Rightarrow> [fd]) @ fds)))"

section \<open>The whole program\<close>

text \<open>
  The assignments to the static variables up to the accept loop, each with the state after it: the
  configuration is parsed, the server is created and initialised, the log is opened, and the pool of
  eight threads is created.
\<close>

definition initialGlobals :: Globals where
  "initialGlobals = \<lparr>g_pool = None, g_server = None, g_config = None, g_heap = [], g_logger = initialLogger\<rparr>"

definition configured :: "ServerConfig \<Rightarrow> Globals \<Rightarrow> Globals" where
  "configured config g = g\<lparr>g_config := Some config, g_heap := configHeap config\<rparr>"

definition served :: "int \<Rightarrow> RedisServer \<Rightarrow> Globals \<Rightarrow> Globals" where
  "served lfd s g = g\<lparr>g_server := Some (lfd, s), g_heap := g_heap g @ serverHeap s\<rparr>"

definition logged :: "bool \<Rightarrow> Globals \<Rightarrow> Globals" where
  "logged opens g = g\<lparr>g_logger := logger_init opens (Some ''app.log'') LOG_TRACE (g_logger g)\<rparr>"

definition pooled :: "Globals \<Rightarrow> Globals" where
  "pooled g = g\<lparr>g_pool := Some (createThreadPool 8)\<rparr>"

text \<open>
  \<^verbatim>\<open>main\<close>. \<open>poolOk\<close> is whether the first \<^verbatim>\<open>malloc\<close> of \<^verbatim>\<open>createThreadPool\<close> succeeds, whose result
  is used unchecked, so that the branch of \<^verbatim>\<open>main\<close> for a missing pool is never taken. The accept loop
  ends after the turns \<open>ts\<close>, when \<^verbatim>\<open>g_running\<close> has become 0. The result is the exit status, what
  was done to descriptors, and the descriptors handed to the pool.
\<close>

definition main ::
  "allocator \<Rightarrow> SocketCalls \<Rightarrow> SocketCalls \<Rightarrow> (nat \<Rightarrow> nat \<Rightarrow> int) \<Rightarrow> bool \<Rightarrow> chunk list \<Rightarrow> bool \<Rightarrow> bool \<Rightarrow> Turn list \<Rightarrow> string list
     \<Rightarrow> (int \<times> io_event list \<times> int list) run" where
  "main al lsys csys ocs threadOk cs opens poolOk ts argv =
     bind_run (bootstrap al lsys csys ocs threadOk cs argv) (\<lambda>b.
       case b of
         Exit n \<Rightarrow> Ok (n, [], [])
       | Serving st \<Rightarrow>
           let g = logged opens (served (case listenFd st of None \<Rightarrow> 0 | Some fd \<Rightarrow> fd) (startedServer st)
                     (configured (parseConfig argv) initialGlobals)) in
           if \<not> poolOk then Fault NullDeref
           else
             case acceptLoop ts of (evs, fds) \<Rightarrow>
               bind_run (cleanup_resources (pooled g)) (\<lambda>(g', ev). Ok (0, startEvents st @ evs @ ev, fds)))"

text \<open>
  The handler of \<^verbatim>\<open>SIGINT\<close> and \<^verbatim>\<open>SIGTERM\<close> interrupts the main thread between two assignments:
  it runs \<^verbatim>\<open>cleanup_resources\<close> on the static variables as they are and exits with status 0.
\<close>

definition signal_handler :: "Globals \<Rightarrow> (int \<times> io_event list) run" where
  "signal_handler g = bind_run (cleanup_resources g) (\<lambda>(g', ev). Ok (0, ev))"

text \<open>The moments of a start that succeeds, in order.\<close>

definition mainMoments :: "ServerConfig \<Rightarrow> int \<Rightarrow> RedisServer \<Rightarrow> RedisServer \<Rightarrow> bool \<Rightarrow> Globals list" where
  "mainMoments config lfd created s opens =
     (let g1 = configured config initialGlobals; g2 = served 0 created g1; g3 = served lfd s g1; g4 = logged opens g3
      in [initialGlobals, g1, g2, g3, g4, pooled g4])"

section \<open>Properties\<close>

text \<open>The descriptors that \<^verbatim>\<open>accept\<close> returned.\<close>

definition acceptedFds :: "Turn list \<Rightarrow> int list" where
  "acceptedFds ts = filter (\<lambda>fd. 0 \<le> fd) (map (\<lambda>t. acceptR (acceptCalls t)) ts)"

text \<open>
  The accept loop leaks no connection: of the descriptors that \<^verbatim>\<open>accept\<close> returns, each is
  either handed to the thread pool or closed, exactly once, whatever calls fail on the way.
\<close>

theorem acceptLoop_no_leak:
  assumes "acceptLoop ts = (evs, fds)"
  shows "mset (acceptedFds ts) = mset fds + mset (map (\<lambda>e. case e of Closed fd \<Rightarrow> fd | Wrote fd _ \<Rightarrow> fd) evs) \<and>
    (\<forall>e \<in> set evs. \<exists>fd. e = Closed fd)"
  using assms
proof (induction ts arbitrary: evs fds)
  case (Cons t ts)
  obtain evs2 fds2 where l: "acceptLoop ts = (evs2, fds2)" by (cases "acceptLoop ts")
  obtain ev r where a: "acceptTurn t = (ev, r)" by (cases "acceptTurn t")
  from Cons.prems l a have e: "evs = ev @ evs2" "fds = (case r of None \<Rightarrow> [] | Some fd \<Rightarrow> [fd]) @ fds2" by auto
  let ?fd = "acceptR (acceptCalls t)"
  have "(?fd < 0 \<and> ev = [] \<and> r = None) \<or> (0 \<le> ?fd \<and> ((ev = [Closed ?fd] \<and> r = None) \<or> (ev = [] \<and> r = Some ?fd)))"
    using a by (auto simp: acceptTurn_def acceptClient_def Let_def split: if_splits)
  with Cons.IH [OF l] show ?case by (auto simp: e acceptedFds_def)
qed (simp add: acceptedFds_def)

definition example_turns :: "Turn list" where
  "example_turns =
     [\<lparr>acceptCalls = example_calls, argOk = True, addOk = True\<rparr>,
      \<lparr>acceptCalls = example_calls\<lparr>acceptR := - 1\<rparr>, argOk = True, addOk = True\<rparr>,
      \<lparr>acceptCalls = example_calls\<lparr>acceptR := 8\<rparr>, argOk = True, addOk = False\<rparr>]"

theorem acceptLoop_no_leak_witness:
  "acceptLoop example_turns = ([Closed 8], [6]) \<and> mset (acceptedFds example_turns) = {#6, 8#}"
proof -
  have l: "acceptLoop example_turns = ([Closed 8], [6])" by code_simp
  from acceptLoop_no_leak [OF l] l show ?thesis by simp
qed

lemma release_twice:
  assumes "serverHeap s' = serverHeap s"
  obtains heap where "freeBlocks (freeServerMemory s') (configHeap config @ serverHeap s) = Ok heap"
    and "freeBlocks (freeConfig config) heap = Fault UseAfterFree"
  using that unfolding assms [symmetric]
  by (cases "master_host config"; cases "master_info (repl_info s')")
    (simp_all add: freeServerMemory_def freeConfig_def configHeap_def serverHeap_def freeBlock_def)

lemma freeServer_Ok:
  "replicas (repl_info s) = None \<longrightarrow> master_info (repl_info s) \<noteq> None \<Longrightarrow> \<exists>ev. freeServer lfd (Some s) = Ok ev"
  by (auto simp: freeServer_def freeReplicas_def withReplicas_def Let_def split: option.splits)

lemma wf_server_role: "wf_server s \<Longrightarrow> replicas (repl_info s) = None \<longrightarrow> master_info (repl_info s) \<noteq> None"
  by (auto simp: wf_server_def wf_repl_def split: option.splits)

lemma freeConfig_alone: "freeBlocks (freeConfig config) (configHeap config) = Ok []"
  by (cases "master_host config") (simp_all add: freeConfig_def configHeap_def freeBlock_def)

text \<open>\<^verbatim>\<open>initServer\<close> changes neither the role of the server nor its blocks.\<close>

lemma startedServer_same:
  assumes "wf_server s" and "st = initServer lsys csys ocs threadOk cs s"
  shows "serverHeap (startedServer st) = serverHeap s"
    and "replicas (repl_info (startedServer st)) = None \<longrightarrow> master_info (repl_info (startedServer st)) \<noteq> None"
proof -
  have role: "(master_info (repl_info (startedServer st)) = None) = (master_info (repl_info s) = None)"
    and reps: "replicas (repl_info (startedServer st)) = replicas (repl_info s)"
    by (auto simp: assms(2) initServer_def Let_def split: prod.splits option.splits)
  then show "serverHeap (startedServer st) = serverHeap s" by (auto simp: serverHeap_def split: option.splits)
  show "replicas (repl_info (startedServer st)) = None \<longrightarrow> master_info (repl_info (startedServer st)) \<noteq> None"
    using role reps wf_server_role [OF assms(1)] by simp
qed

text \<open>
  With a server and its configuration in place, \<^verbatim>\<open>cleanup_resources\<close> always frees the strings that
  the two share a second time; it is right when there is only a configuration, or nothing.
\<close>

lemma cleanup_double_free:
  assumes "g_server g = Some (lfd, s)" and "replicas (repl_info s) = None \<longrightarrow> master_info (repl_info s) \<noteq> None"
    and "g_config g = Some config" and "g_heap g = configHeap config @ serverHeap s"
  shows "cleanup_resources g = Fault UseAfterFree"
proof -
  obtain heap where "freeBlocks (freeServerMemory s) (configHeap config @ serverHeap s) = Ok heap"
    "freeBlocks (freeConfig config) heap = Fault UseAfterFree" using release_twice [OF refl] .
  moreover obtain ev where "freeServer lfd (Some s) = Ok ev" using freeServer_Ok [OF assms(2)] by blast
  ultimately show ?thesis using assms by (simp add: cleanup_resources_def releaseServer_def Let_def)
qed

lemma cleanup_early:
  "signal_handler initialGlobals = Ok (0, [])" "signal_handler (configured config initialGlobals) = Ok (0, [])"
  by (simp_all add: signal_handler_def cleanup_resources_def initialGlobals_def configured_def Let_def freeConfig_alone)

lemmas globals_defs = initialGlobals_def configured_def served_def logged_def pooled_def

text \<open>
  C40. Terminating the server with a signal works only while there is no server yet: at every moment
  of a start that succeeds, \<^verbatim>\<open>SIGINT\<close> or \<^verbatim>\<open>SIGTERM\<close> exits with status 0 before \<^verbatim>\<open>createServer\<close> has
  returned, and runs into a double release of the strings shared by the configuration and the server
  at every moment after it, up to the first turn of the accept loop.
\<close>

theorem signal_outcome:
  assumes "wf_server created" and "s = startedServer (initServer lsys csys ocs threadOk cs created)" and "i < 6"
  shows "signal_handler (mainMoments config lfd created s opens ! i) = (if i < 2 then Ok (0, []) else Fault UseAfterFree)"
proof -
  have heap: "serverHeap s = serverHeap created" and role: "replicas (repl_info s) = None \<longrightarrow> master_info (repl_info s) \<noteq> None"
    using startedServer_same [OF assms(1) refl] by (simp_all add: assms(2))
  have "cleanup_resources (served l t (configured config initialGlobals)) = Fault UseAfterFree"
    "cleanup_resources (logged opens (served l t (configured config initialGlobals))) = Fault UseAfterFree"
    "cleanup_resources (pooled (logged opens (served l t (configured config initialGlobals)))) = Fault UseAfterFree"
    if "replicas (repl_info t) = None \<longrightarrow> master_info (repl_info t) \<noteq> None" for l t
    using that by (auto intro!: cleanup_double_free [of _ l t config] simp: globals_defs)
  with role wf_server_role [OF assms(1)] assms(3) show ?thesis
    by (auto simp: mainMoments_def Let_def less_Suc_eq numeral_nat cleanup_early signal_handler_def [of "served _ _ _"]
        signal_handler_def [of "logged _ _"] signal_handler_def [of "pooled _"])
qed

text \<open>
  C39. The program never ends as \<^verbatim>\<open>main\<close> means it to: once the server object has been created, every
  path to the end of \<^verbatim>\<open>main\<close>, a failed \<^verbatim>\<open>initServer\<close> (the port is in use, the master cannot be
  reached) or the end of the accept loop, releases the strings that the server and the
  configuration share twice; and a thread pool that cannot be allocated is dereferenced.
\<close>

theorem main_double_free:
  assumes "createServer al (parseConfig argv) = Ok (Some s)" and "wf_server s"
  shows "main al lsys csys ocs threadOk cs opens poolOk ts argv =
    Fault (if status (initServer lsys csys ocs threadOk cs s) = 0 \<and> \<not> poolOk then NullDeref else UseAfterFree)"
proof -
  let ?st = "initServer lsys csys ocs threadOk cs s" and ?c = "parseConfig argv"
  let ?fd = "case listenFd ?st of None \<Rightarrow> 0 | Some fd \<Rightarrow> fd"
  note same = startedServer_same [OF assms(2) refl, of lsys csys ocs threadOk cs]
  obtain ev where ev: "freeServer ?fd (Some (startedServer ?st)) = Ok ev" using freeServer_Ok [OF same(2)] by blast
  obtain h where h: "freeBlocks (freeServerMemory (startedServer ?st)) (configHeap ?c @ serverHeap s) = Ok h"
    "freeBlocks (freeConfig ?c) h = Fault UseAfterFree" using release_twice [OF same(1)] .
  have "cleanup_resources (pooled (logged opens (served ?fd (startedServer ?st) (configured ?c initialGlobals)))) = Fault UseAfterFree"
    by (rule cleanup_double_free [OF _ same(2)]) (simp_all add: globals_defs)
  then show ?thesis using assms(1) ev h by (auto simp: main_def bootstrap_def releaseServer_def Let_def split: prod.split)
qed

lemma example_server:
  obtains s where "createServer always (parseConfig [''fastkey'']) = Ok (Some s)" and "wf_server s"
    and "status (initServer (example_calls\<lparr>bindR := - 1\<rparr>) example_calls (\<lambda>_ _. 1) True [] s) \<noteq> 0"
proof -
  have "(case createServer always (parseConfig [''fastkey'']) of Ok (Some s) \<Rightarrow> wf_server s \<and>
      status (initServer (example_calls\<lparr>bindR := - 1\<rparr>) example_calls (\<lambda>_ _. 1) True [] s) \<noteq> 0 | _ \<Rightarrow> False)"
    by code_simp
  then show ?thesis using that by (auto split: run.splits option.splits)
qed

theorem main_double_free_witness:
  "main always (example_calls\<lparr>bindR := - 1\<rparr>) example_calls (\<lambda>_ _. 1) True [] True True [] [''fastkey''] = Fault UseAfterFree"
proof -
  obtain s where s: "createServer always (parseConfig [''fastkey'']) = Ok (Some s)" "wf_server s" using example_server .
  from main_double_free [OF s] show ?thesis by simp
qed

theorem signal_outcome_witness:
  "\<exists>s. signal_handler (mainMoments defaultConfig 4 s (startedServer (initServer example_calls example_calls (\<lambda>_ _. 1) True [] s)) True ! 5) = Fault UseAfterFree"
proof -
  obtain s where s: "createServer always (parseConfig [''fastkey'']) = Ok (Some s)" "wf_server s" using example_server .
  show ?thesis by (rule exI [of _ s]) (simp add: signal_outcome [OF s(2) refl])
qed

end
