(* ===== verification/Memory.thy ===== *)
theory Memory
  imports Redis_Store
begin

text \<open>
  The heap that the code manages by hand with \<^verbatim>\<open>malloc\<close> and \<^verbatim>\<open>free\<close>. The other theories treat
  a structure as a value; this one and those named after it (\<open>Resp_Memory\<close>, \<open>Stream_Memory\<close>, \<open>Store_Memory\<close>,
  \<open>Store_Update\<close>, \<open>Store_Lifetime\<close>, \<open>Xread_Memory\<close>) model
  the pointers below it, to show that the functions which copy and release structures neither
  leak, nor free a block twice, nor touch a block that is gone.

  \<^item> A block is an \<open>object\<close> at an address; address 0 is NULL. An address is never handed out
    twice, so every access to a block that was freed is noticed (\<open>UseAfterFree\<close>).
  \<^item> A pointer that was never written is \<open>None\<close> in an array of pointers, and \<open>UnsetD\<close> in a union;
    \<open>UnsetO\<close> is a structure none of whose members was written.
  \<^item> Whether the next \<^verbatim>\<open>malloc\<close> succeeds is decided by an oracle on the addresses, so any
    pattern of failing allocations can occur.
  \<^item> A predicate such as \<open>rep c a v f\<close> says that the blocks \<open>f\<close> of the heap \<open>c\<close> hold the
    value \<open>v\<close> at address \<open>a\<close>; \<open>f\<close>, the footprint, lists the blocks in the order in which the code
    frees them. A structure is owned by its holder when its footprint has no duplicates.
\<close>

named_theorems mem_simps \<open>evaluation rules of the heap\<close>

section \<open>Objects and the heap\<close>

type_synonym addr = nat

text \<open>\<^verbatim>\<open>RespType\<close> and the union \<^verbatim>\<open>data\<close> of \<^verbatim>\<open>RespValue\<close>; the union \<^verbatim>\<open>value\<close> of \<^verbatim>\<open>StoreEntry\<close>.\<close>

datatype RespType = RespTypeString | RespTypeError | RespTypeInteger | RespTypeBulk | RespTypeArray

datatype RespData = UnsetD | StringD addr nat | IntegerD int | ArrayD addr nat

datatype StoreData = StringS addr nat | StreamS addr

datatype object =
    UnsetO                                           \<comment> \<open>a structure that was not written yet\<close>
  | CharsO string                                    \<comment> \<open>\<^verbatim>\<open>char *\<close>, the terminating NUL included\<close>
  | PointersO "addr option list"                     \<comment> \<open>an array of pointers\<close>
  | ValueO RespType RespData                         \<comment> \<open>\<^verbatim>\<open>RespValue\<close>\<close>
  | QueueO addr nat nat                              \<comment> \<open>\<^verbatim>\<open>CommandQueue\<close>: commands, size, capacity\<close>
  | EntryO addr addr addr nat addr                   \<comment> \<open>\<^verbatim>\<open>StreamEntry\<close>: id, fields, values, numFields, next\<close>
  | StreamO addr addr                                \<comment> \<open>\<^verbatim>\<open>Stream\<close>: head, tail\<close>
  | InfosO "(addr \<times> addr \<times> nat option) list"        \<comment> \<open>the written part of an array of \<^verbatim>\<open>StreamInfo\<close>: key, entries, count\<close>
  | StoreEntryO addr ValueType StoreData addr int    \<comment> \<open>\<^verbatim>\<open>StoreEntry\<close>: key, type, value, next, expiry\<close>
  | StoreO addr nat nat                              \<comment> \<open>\<^verbatim>\<open>RedisStore\<close>: table, size, used\<close>

type_synonym cells = "addr \<rightharpoonup> object"

record Memory =
  cells :: cells
  brk :: addr

definition wf_memory :: "Memory \<Rightarrow> bool" where
  "wf_memory m = (0 < brk m \<and> dom (cells m) \<subseteq> {0<..<brk m})"

definition emptyMemory :: Memory where
  "emptyMemory = \<lparr>cells = Map.empty, brk = 1\<rparr>"

definition readCell :: "addr \<Rightarrow> Memory \<Rightarrow> object run" where
  "readCell a m =
     (if a = 0 then Fault NullDeref
      else case cells m a of None \<Rightarrow> Fault UseAfterFree | Some x \<Rightarrow> Ok x)"

definition writeCell :: "addr \<Rightarrow> object \<Rightarrow> Memory \<Rightarrow> Memory run" where
  "writeCell a x m =
     bind_run (readCell a m) (\<lambda>_. Ok (m\<lparr>cells := (cells m)(a \<mapsto> x)\<rparr>))"

text \<open>\<^verbatim>\<open>free (NULL)\<close> does nothing; \<^verbatim>\<open>free\<close> of a block that is gone is a double free.\<close>

definition c_free :: "addr \<Rightarrow> Memory \<Rightarrow> Memory run" where
  "c_free a m =
     (if a = 0 then Ok m
      else case cells m a of
        None \<Rightarrow> Fault UseAfterFree
      | Some _ \<Rightarrow> Ok (m\<lparr>cells := (cells m)(a := None)\<rparr>))"

definition c_malloc :: "(addr \<Rightarrow> bool) \<Rightarrow> object \<Rightarrow> Memory \<Rightarrow> addr \<times> Memory" where
  "c_malloc ok x m =
     (if ok (brk m) then (brk m, m\<lparr>cells := (cells m)(brk m \<mapsto> x), brk := Suc (brk m)\<rparr>)
      else (0, m\<lparr>brk := Suc (brk m)\<rparr>))"

text \<open>Reading a C string, an element of an array of pointers, and writing one.\<close>

definition loadString :: "addr \<Rightarrow> Memory \<Rightarrow> string run" where
  "loadString p m =
     bind_run (readCell p m) (\<lambda>x. case x of
       CharsO s \<Rightarrow> if NUL \<in> set s then Ok (cstr s) else Fault OutOfBounds
     | _ \<Rightarrow> Fault TypeConfusion)"

definition readSlot :: "addr \<Rightarrow> nat \<Rightarrow> Memory \<Rightarrow> addr run" where
  "readSlot p i m =
     bind_run (readCell p m) (\<lambda>x. case x of
       PointersO ps \<Rightarrow>
         if i < length ps then (case ps ! i of None \<Rightarrow> Fault UninitRead | Some q \<Rightarrow> Ok q)
         else Fault OutOfBounds
     | _ \<Rightarrow> Fault TypeConfusion)"

definition writeSlot :: "addr \<Rightarrow> nat \<Rightarrow> addr \<Rightarrow> Memory \<Rightarrow> Memory run" where
  "writeSlot p i q m =
     bind_run (readCell p m) (\<lambda>x. case x of
       PointersO ps \<Rightarrow>
         if i < length ps then writeCell p (PointersO (ps[i := Some q])) m else Fault OutOfBounds
     | _ \<Rightarrow> Fault TypeConfusion)"

definition c_strdup :: "(addr \<Rightarrow> bool) \<Rightarrow> addr \<Rightarrow> Memory \<Rightarrow> (addr \<times> Memory) run" where
  "c_strdup ok p m = bind_run (loadString p m) (\<lambda>s. Ok (c_malloc ok (CharsO (s @ [NUL])) m))"

text \<open>
  The two loops that release elements: over the slots of an array that stays allocated, and
  along the \<^verbatim>\<open>next\<close> pointers of a list, where \<^verbatim>\<open>next\<close> is read before the entry is freed. The
  number of turns of the second loop is bounded by the first argument.
\<close>

primrec freeSlots :: "(addr \<Rightarrow> Memory \<Rightarrow> Memory run) \<Rightarrow> addr \<Rightarrow> nat \<Rightarrow> nat \<Rightarrow> Memory \<Rightarrow> Memory run" where
  "freeSlots release e i 0 m = Ok m"
| "freeSlots release e i (Suc k) m =
     bind_run (readSlot e i m) (\<lambda>p. bind_run (release p m) (freeSlots release e (Suc i) k))"

primrec freeChain ::
  "(addr \<Rightarrow> Memory \<Rightarrow> addr run) \<Rightarrow> (addr \<Rightarrow> Memory \<Rightarrow> Memory run) \<Rightarrow> nat \<Rightarrow> addr \<Rightarrow> Memory \<Rightarrow> Memory run" where
  "freeChain nextOf release 0 a m = (if a = 0 then Ok m else Fault Diverges)"
| "freeChain nextOf release (Suc k) a m =
     (if a = 0 then Ok m
      else bind_run (nextOf a m) (\<lambda>nx. bind_run (release a m) (freeChain nextOf release k nx)))"

section \<open>Footprints\<close>

text \<open>The heap without the blocks of a footprint.\<close>

definition discard :: "addr list \<Rightarrow> Memory \<Rightarrow> Memory" where
  "discard f m = m\<lparr>cells := cells m |` (- set f)\<rparr>"

text \<open>Two heaps agree on the blocks of a footprint.\<close>

definition agree :: "addr list \<Rightarrow> cells \<Rightarrow> cells \<Rightarrow> bool" where
  "agree f c c' = (\<forall>x \<in> set f. c' x = c x)"

lemma brk_discard [simp]: "brk (discard f m) = brk m"
  by (simp add: discard_def)

lemma cells_discard [simp]: "cells (discard f m) x = (if x \<in> set f then None else cells m x)"
  by (simp add: discard_def restrict_map_def)

lemma Memory_eqI: "cells m = cells m' \<Longrightarrow> brk m = brk m' \<Longrightarrow> (m :: Memory) = m'"
  by simp

lemma discard_Nil [simp]: "discard [] m = m"
  by (rule Memory_eqI) auto

lemma discard_discard [simp]: "discard g (discard f m) = discard (f @ g) m"
  by (rule Memory_eqI) auto

lemma agree_append [simp]: "agree (f @ g) c c' \<longleftrightarrow> agree f c c' \<and> agree g c c'"
  by (auto simp: agree_def)

lemma agree_Nil [simp]: "agree [] c c'"
  by (simp add: agree_def)

lemma agree_refl [simp]: "agree f c c"
  by (simp add: agree_def)

lemma agree_Cons [simp]: "agree (x # f) c c' \<longleftrightarrow> c' x = c x \<and> agree f c c'"
  by (auto simp: agree_def)

lemma agree_trans: "agree f c c' \<Longrightarrow> agree f c' c'' \<Longrightarrow> agree f c c''"
  by (simp add: agree_def)

lemma agree_sym: "agree f c c' \<Longrightarrow> agree f c' c"
  by (simp add: agree_def)

lemma agree_discard: "agree g c (cells m) \<Longrightarrow> set f \<inter> set g = {} \<Longrightarrow> agree g c (cells (discard f m))"
  by (auto simp: agree_def)

lemma wf_memory_iff: "wf_memory m \<longleftrightarrow> 0 < brk m \<and> (\<forall>a x. cells m a = Some x \<longrightarrow> 0 < a \<and> a < brk m)"
  unfolding wf_memory_def by (auto simp: dom_def subset_iff)

lemma wf_memory_empty [simp]: "wf_memory emptyMemory"
  by (simp add: wf_memory_def emptyMemory_def)

lemma wf_memory_discard [simp]: "wf_memory m \<Longrightarrow> wf_memory (discard f m)"
  by (auto simp: wf_memory_def subset_iff dom_def split: if_splits)

lemma wf_memory_fresh: "wf_memory m \<Longrightarrow> brk m \<le> x \<Longrightarrow> cells m x = None"
  unfolding wf_memory_def by (metis domIff greaterThanLessThan_iff leD subset_iff)

lemma wf_memory_null: "wf_memory m \<Longrightarrow> cells m 0 = None"
  unfolding wf_memory_def by (metis domIff greaterThanLessThan_iff less_irrefl subset_iff)

text \<open>No structure has more blocks than there are addresses: this bounds every loop over one.\<close>

lemma footprint_bound:
  assumes "wf_memory m" and "set f \<subseteq> dom (cells m)" and "distinct f"
  shows "length f \<le> brk m"
proof -
  have "set f \<subseteq> {0<..<brk m}" using assms(1,2) by (auto simp: wf_memory_def)
  then have "card (set f) \<le> card {0<..<brk m}" by (rule card_mono [rotated]) simp
  with assms(3) show ?thesis by (simp add: distinct_card)
qed

lemma readCell_Some [mem_simps]: "a \<noteq> 0 \<Longrightarrow> cells m a = Some x \<Longrightarrow> readCell a m = Ok x"
  by (simp add: readCell_def)

lemma readCell_discard [mem_simps]: "a \<notin> set f \<Longrightarrow> readCell a (discard f m) = readCell a m"
  by (simp add: readCell_def)

lemma c_free_Some [mem_simps]: "a \<noteq> 0 \<Longrightarrow> cells m a = Some x \<Longrightarrow> c_free a m = Ok (discard [a] m)"
  by (auto simp: c_free_def intro!: Memory_eqI)

lemma c_free_null [simp]: "c_free 0 m = Ok m"
  by (simp add: c_free_def)

section \<open>Releasing the elements of a structure\<close>

text \<open>
  \<open>releasable n release c a v f\<close>: on every heap that agrees with \<open>c\<close> on the blocks \<open>f\<close>, the function
  called with \<open>a\<close> frees exactly these blocks, provided that they are distinct and at most \<open>n\<close>.
\<close>

definition releasable ::
  "nat \<Rightarrow> (addr \<Rightarrow> Memory \<Rightarrow> Memory run) \<Rightarrow> cells \<Rightarrow> addr \<Rightarrow> 'v \<Rightarrow> addr list \<Rightarrow> bool" where
  "releasable n release c a v f =
     (\<forall>m. agree f c (cells m) \<longrightarrow> distinct f \<longrightarrow> length f \<le> n \<longrightarrow> release a m = Ok (discard f m))"

text \<open>The values at the addresses of an array, and along a list.\<close>

inductive slotsAt ::
  "(cells \<Rightarrow> addr \<Rightarrow> 'v \<Rightarrow> addr list \<Rightarrow> bool) \<Rightarrow> cells \<Rightarrow> addr list \<Rightarrow> 'v list \<Rightarrow> addr list \<Rightarrow> bool"
  for rep c where
  slots_Nil: "slotsAt rep c [] [] []"
| slots_Cons: "rep c p v f \<Longrightarrow> slotsAt rep c ps vs g \<Longrightarrow> slotsAt rep c (p # ps) (v # vs) (f @ g)"

inductive chainAt ::
  "(cells \<Rightarrow> addr \<Rightarrow> addr \<times> 'v \<Rightarrow> addr list \<Rightarrow> bool) \<Rightarrow> cells \<Rightarrow> addr \<Rightarrow> 'v list \<Rightarrow> addr list \<Rightarrow> bool"
  for rep c where
  chain_Nil: "chainAt rep c 0 [] []"
| chain_Cons: "rep c a (nx, v) f \<Longrightarrow> chainAt rep c nx vs g \<Longrightarrow> chainAt rep c a (v # vs) (f @ g)"

inductive_simps slotsAt_Nil [simp]: "slotsAt rep c [] vs f"
inductive_cases slotsAt_ConsE: "slotsAt rep c (p # ps) vs f"
inductive_cases slotsAt_valuesE: "slotsAt rep c ps (v # vs) f"
inductive_cases chainAt_ConsE: "chainAt rep c a (v # vs) f"
inductive_cases chainAt_NilE: "chainAt rep c a [] f"

lemma slotsAt_mono [mono]:
  "(\<And>c p v f. rep c p v f \<longrightarrow> rep' c p v f) \<Longrightarrow> slotsAt rep c ps vs f \<longrightarrow> slotsAt rep' c ps vs f"
proof
  assume r: "\<And>c p v f. rep c p v f \<longrightarrow> rep' c p v f" and "slotsAt rep c ps vs f"
  from this(2) show "slotsAt rep' c ps vs f"
    by induction (use r in \<open>auto intro: slotsAt.intros\<close>)
qed

lemma slotsAt_weaken:
  assumes "slotsAt rep c ps vs f" and "\<And>p v g. rep c p v g \<Longrightarrow> set g \<subseteq> set f \<Longrightarrow> rep' c' p v g"
  shows "slotsAt rep' c' ps vs f"
  using assms
proof induction
  case (slots_Cons p v f ps vs g)
  have "rep' c' p v f" using slots_Cons.prems slots_Cons.hyps(1) by simp
  moreover have "slotsAt rep' c' ps vs g" using slots_Cons by (simp add: le_supI2)
  ultimately show ?case by (rule slotsAt.slots_Cons)
qed (simp add: slotsAt.intros)

lemma slotsAt_length: "slotsAt rep c ps vs f \<Longrightarrow> length vs = length ps"
  by (induction rule: slotsAt.induct) auto

lemma slotsAt_append:
  "slotsAt rep c ps vs f \<Longrightarrow> slotsAt rep c qs ws g \<Longrightarrow> slotsAt rep c (ps @ qs) (vs @ ws) (f @ g)"
  by (induction rule: slotsAt.induct) (auto intro: slotsAt.intros)

lemma freeSlots_exact:
  assumes "slotsAt (releasable n release) c ps vs f" and "agree f c (cells m)" and "distinct f" and "length f \<le> n"
    and "e \<noteq> 0" and "e \<notin> set f" and "cells m e = Some (PointersO qs)" and "drop i qs = map Some ps @ r"
  shows "freeSlots release e i (length ps) m = Ok (discard f m)"
  using assms
proof (induction arbitrary: i m rule: slotsAt.induct)
  case (slots_Cons p v f ps vs g)
  have i: "i < length qs" using slots_Cons.prems(7) by (cases "i < length qs") auto
  with slots_Cons.prems(7) have q: "qs ! i = Some p" "drop (Suc i) qs = map Some ps @ r"
    by (auto simp flip: Cons_nth_drop_Suc)
  have "readSlot e i m = Ok p" using slots_Cons.prems i q by (simp add: readSlot_def mem_simps)
  moreover have "release p m = Ok (discard f m)" using slots_Cons by (simp add: releasable_def)
  moreover have "freeSlots release e (Suc i) (length ps) (discard f m) = Ok (discard g (discard f m))"
    using slots_Cons.prems q(2) by (intro slots_Cons.IH agree_discard) auto
  ultimately show ?case by simp
qed simp

text \<open>
  What a function that releases a structure promises its callers, and the two loops over such a
  function. The structures that are linked to a list add the pointer to the next one.
\<close>

locale destructor =
  fixes rep :: "cells \<Rightarrow> addr \<Rightarrow> 'v \<Rightarrow> addr list \<Rightarrow> bool"
    and release :: "nat \<Rightarrow> addr \<Rightarrow> Memory \<Rightarrow> Memory run"
  assumes rep_frame: "rep c a v f \<Longrightarrow> agree f c c' \<Longrightarrow> rep c' a v f"
    and rep_live: "rep c a v f \<Longrightarrow> set f \<subseteq> dom c"
    and rep_releasable: "rep c a v f \<Longrightarrow> releasable n (release n) c a v f"
begin

lemma release_exact:
  "rep (cells m) a v f \<Longrightarrow> distinct f \<Longrightarrow> length f \<le> n \<Longrightarrow> release n a m = Ok (discard f m)"
  using rep_releasable unfolding releasable_def by fastforce

lemma release_all:
  assumes "wf_memory m" and "rep (cells m) a v f" and "distinct f"
  shows "release (brk m) a m = Ok (discard f m)"
  using assms footprint_bound rep_live by (intro release_exact) auto

text \<open>Of two structures that share no block, releasing one leaves the other as it was.\<close>

lemma release_frame:
  assumes "rep c a v f" and "agree f c (cells m)" and "set f \<inter> set g = {}"
  shows "rep (cells (discard g m)) a v f"
  using assms agree_discard by (intro rep_frame [OF assms(1)]) (auto simp: Int_commute)

lemma slots_frame: "slotsAt rep c ps vs f \<Longrightarrow> agree f c c' \<Longrightarrow> slotsAt rep c' ps vs f"
proof (erule slotsAt_weaken)
  fix p v g assume "agree f c c'" and rep: "rep c p v g" and "set g \<subseteq> set f"
  then have "agree g c c'" by (auto simp: agree_def)
  then show "rep c' p v g" by (rule rep_frame [OF rep])
qed

lemma slots_live: "slotsAt rep c ps vs f \<Longrightarrow> set f \<subseteq> dom c"
  by (induction rule: slotsAt.induct) (use rep_live in fastforce)+

text \<open>The value of one slot can be exchanged without looking at the others.\<close>

lemma slots_focus:
  assumes "slotsAt rep c ps vs g" and "i < length ps"
  obtains g1 f g2 where "g = g1 @ f @ g2" and "rep c (ps ! i) (vs ! i) f"
    and "\<And>c' b v f'. agree (g1 @ g2) c c' \<Longrightarrow> rep c' b v f' \<Longrightarrow> slotsAt rep c' (ps[i := b]) (vs[i := v]) (g1 @ f' @ g2)"
  using assms
proof (induction arbitrary: i thesis rule: slotsAt.induct)
  case (slots_Cons p v f ps vs g)
  show ?case
  proof (cases i)
    case 0
    show thesis
    proof (rule slots_Cons.prems(1) [of "[]" f g])
      show "f @ g = [] @ f @ g" "rep c ((p # ps) ! i) ((v # vs) ! i) f" using 0 slots_Cons.hyps(1) by simp_all
      show "slotsAt rep c' ((p # ps)[i := b]) ((v # vs)[i := u]) ([] @ f' @ g)" if "agree ([] @ g) c c'" "rep c' b u f'" for c' b u f'
        using that 0 slots_frame [OF slots_Cons.hyps(2)] by (auto intro: slotsAt.slots_Cons)
    qed
  next
    case (Suc j)
    then have "j < length ps" using slots_Cons.prems(2) by simp
    then obtain g1 h g2 where r: "g = g1 @ h @ g2" "rep c (ps ! j) (vs ! j) h"
      "\<And>c' b v f'. agree (g1 @ g2) c c' \<Longrightarrow> rep c' b v f' \<Longrightarrow> slotsAt rep c' (ps[j := b]) (vs[j := v]) (g1 @ f' @ g2)"
      using slots_Cons.IH by blast
    show thesis
    proof (rule slots_Cons.prems(1) [of "f @ g1" h g2])
      show "f @ g = (f @ g1) @ h @ g2" "rep c ((p # ps) ! i) ((v # vs) ! i) h" using r Suc by simp_all
      show "slotsAt rep c' ((p # ps)[i := b]) ((v # vs)[i := u]) ((f @ g1) @ f' @ g2)" if "agree ((f @ g1) @ g2) c c'" "rep c' b u f'" for c' b u f'
        using that Suc slotsAt.slots_Cons [where rep = rep, OF rep_frame [OF slots_Cons.hyps(1)] r(3)] by simp
    qed
  qed
qed simp

lemma slots_exact:
  assumes "slotsAt rep (cells m) ps vs f" and "distinct f" and "length f \<le> n"
    and "e \<noteq> 0" and "e \<notin> set f" and "cells m e = Some (PointersO (map Some ps @ r))"
  shows "freeSlots (release n) e 0 (length ps) m = Ok (discard f m)"
proof (rule freeSlots_exact [where c = "cells m" and n = n])
  show "slotsAt (releasable n (release n)) (cells m) ps vs f"
    using assms(1) by (rule slotsAt_weaken) (rule rep_releasable)
qed (use assms in auto)

end

locale linked_destructor = destructor rep release
  for rep :: "cells \<Rightarrow> addr \<Rightarrow> addr \<times> 'v \<Rightarrow> addr list \<Rightarrow> bool" and release +
  fixes nextOf :: "addr \<Rightarrow> Memory \<Rightarrow> addr run"
  assumes rep_next: "rep (cells m) a (nx, v) f \<Longrightarrow> nextOf a m = Ok nx"
    and rep_head: "rep c a (nx, v) f \<Longrightarrow> a \<noteq> 0 \<and> a \<in> set f"
begin

lemma chain_frame: "chainAt rep c a vs f \<Longrightarrow> agree f c c' \<Longrightarrow> chainAt rep c' a vs f"
  by (induction rule: chainAt.induct) (auto intro: chainAt.intros rep_frame)

lemma chain_live: "chainAt rep c a vs f \<Longrightarrow> set f \<subseteq> dom c"
  by (induction rule: chainAt.induct) (use rep_live in fastforce)+

lemma chain_null: "chainAt rep c a vs f \<Longrightarrow> a = 0 \<longleftrightarrow> vs = []"
  by (induction rule: chainAt.induct) (auto dest: rep_head)

lemma chain_exact:
  assumes "chainAt rep c a vs f" and "agree f c (cells m)" and "distinct f" and "length f \<le> n" and "length f \<le> k"
  shows "freeChain nextOf (release n) k a m = Ok (discard f m)"
  using assms
proof (induction arbitrary: m k rule: chainAt.induct)
  case chain_Nil
  then show ?case by (cases k) auto
next
  case (chain_Cons a nx v f vs g)
  have head: "a \<noteq> 0" "a \<in> set f" using rep_head [OF chain_Cons.hyps(1)] by auto
  then have "Suc 0 \<le> length f" by (cases f) auto
  with chain_Cons.prems(4) obtain k' where k: "k = Suc k'" "length g \<le> k'" by (cases k) auto
  have rep: "rep (cells m) a (nx, v) f" using chain_Cons.hyps(1) chain_Cons.prems(1) rep_frame by auto
  have "release n a m = Ok (discard f m)" using chain_Cons.prems by (intro release_exact [OF rep]) auto
  moreover have "freeChain nextOf (release n) k' nx (discard f m) = Ok (discard g (discard f m))"
    using chain_Cons.prems k by (intro chain_Cons.IH agree_discard) auto
  ultimately show ?case using head k rep_next [OF rep] by simp
qed

lemma chain_releasable: "chainAt rep c a vs f \<Longrightarrow> releasable n (freeChain nextOf (release n) n) c a vs f"
  unfolding releasable_def using chain_exact by blast

end

section \<open>Allocation\<close>

text \<open>
  \<open>grows m m' G\<close>: a run from \<open>m\<close> to \<open>m'\<close> changed at most the blocks \<open>G\<close>; \<open>fresh m m' g\<close>: the blocks
  \<open>g\<close> are distinct and were allocated by that run.
\<close>

definition grows :: "Memory \<Rightarrow> Memory \<Rightarrow> addr set \<Rightarrow> bool" where
  "grows m m' G = (wf_memory m' \<and> brk m \<le> brk m' \<and> (\<forall>x. x \<notin> G \<longrightarrow> cells m' x = cells m x))"

definition fresh :: "Memory \<Rightarrow> Memory \<Rightarrow> addr list \<Rightarrow> bool" where
  "fresh m m' g = (distinct g \<and> set g \<subseteq> {brk m..<brk m'})"

lemma grows_refl [simp]: "wf_memory m \<Longrightarrow> grows m m G"
  by (simp add: grows_def)

lemma grows_wf: "grows m m' G \<Longrightarrow> wf_memory m'"
  by (simp add: grows_def)

lemma grows_trans: "grows m m1 G \<Longrightarrow> grows m1 m2 H \<Longrightarrow> G \<subseteq> K \<Longrightarrow> H \<subseteq> K \<Longrightarrow> grows m m2 K"
  unfolding grows_def by (metis order_trans subsetD)

lemma grows_mono: "grows m m' G \<Longrightarrow> G \<subseteq> H \<Longrightarrow> grows m m' H"
  by (auto simp: grows_def)

lemma grows_malloc:
  "wf_memory m \<Longrightarrow> c_malloc ok x m = (a, m') \<Longrightarrow>
   grows m m' {brk m} \<and> brk m' = Suc (brk m) \<and> a = (if ok (brk m) then brk m else 0) \<and>
   cells m' = (if ok (brk m) then (cells m)(brk m \<mapsto> x) else cells m)"
  by (auto simp: c_malloc_def grows_def wf_memory_iff less_Suc_eq split: if_splits)

lemma writeCell_Some:
  "a \<noteq> 0 \<Longrightarrow> cells m a = Some y \<Longrightarrow> writeCell a x m = Ok (m\<lparr>cells := (cells m)(a \<mapsto> x)\<rparr>)"
  by (simp add: writeCell_def mem_simps)

lemma grows_write:
  "wf_memory m \<Longrightarrow> cells m a = Some y \<Longrightarrow> grows m (m\<lparr>cells := (cells m)(a \<mapsto> x)\<rparr>) {a}"
  by (auto simp: grows_def wf_memory_def)

lemma grows_agree: "grows m m' G \<Longrightarrow> set f \<inter> G = {} \<Longrightarrow> agree f (cells m) (cells m')"
  by (auto simp: grows_def agree_def)

lemma live_below: "wf_memory m \<Longrightarrow> cells m a = Some x \<Longrightarrow> 0 < a \<and> a < brk m"
  unfolding wf_memory_def by (metis domI greaterThanLessThan_iff subsetD)

lemma live_below_set: "wf_memory m \<Longrightarrow> set f \<subseteq> dom (cells m) \<Longrightarrow> x \<in> set f \<Longrightarrow> 0 < x \<and> x < brk m"
  by (meson domD live_below subsetD)

lemma fresh_append:
  "fresh m m1 f \<Longrightarrow> fresh m1 m2 g \<Longrightarrow> brk m \<le> brk m1 \<Longrightarrow> brk m1 \<le> brk m2 \<Longrightarrow> fresh m m2 (f @ g)"
  by (auto simp: fresh_def) (meson atLeastLessThan_iff disjoint_iff leD subset_iff)

text \<open>Releasing what a run allocated brings back the heap that it started from.\<close>

lemma discard_fresh:
  assumes "wf_memory m" and "grows m m' (set g)" and "fresh m m' g"
  shows "cells (discard g m') = cells m"
proof
  fix x
  show "cells (discard g m') x = cells m x"
    using assms wf_memory_fresh [OF assms(1), of x] by (auto simp: grows_def fresh_def)
qed

lemma malloc_always:
  "c_malloc always x m = (brk m, m\<lparr>cells := (cells m)(brk m \<mapsto> x), brk := Suc (brk m)\<rparr>)"
  by (simp add: c_malloc_def)

lemma readSlot_Some:
  "e \<noteq> 0 \<Longrightarrow> cells m e = Some (PointersO qs) \<Longrightarrow> drop i qs = Some p # r \<Longrightarrow> readSlot e i m = Ok p \<and> drop (Suc i) qs = r"
  by (cases "i < length qs") (auto simp: readSlot_def mem_simps simp flip: Cons_nth_drop_Suc)

lemma writeSlot_next:
  assumes "e \<noteq> 0" and "cells m e = Some (PointersO (map Some rs @ x # r))"
  shows "writeSlot e (length rs) q m = Ok (m\<lparr>cells := (cells m)(e \<mapsto> PointersO (map Some (rs @ [q]) @ r))\<rparr>)"
  using assms by (simp add: writeSlot_def mem_simps writeCell_Some list_update_append)

lemma fresh_not_old: "fresh m m' g \<Longrightarrow> x < brk m \<Longrightarrow> x \<notin> set g"
  by (auto simp: fresh_def)

lemma fresh_disjoint: "fresh m m1 g \<Longrightarrow> fresh m1 m2 h \<Longrightarrow> set g \<inter> set h = {}"
  unfolding fresh_def by (meson atLeastLessThan_iff disjoint_iff leD subsetD)

text \<open>
  \<open>replaces m m' f f'\<close>: a run changed the structure with the blocks \<open>f\<close> into one with the blocks
  \<open>f'\<close>: the blocks of \<open>f\<close> that it no longer uses are freed, and no other block of the heap changed.
\<close>

definition replaces :: "Memory \<Rightarrow> Memory \<Rightarrow> addr list \<Rightarrow> addr list \<Rightarrow> bool" where
  "replaces m m' f f' =
     (wf_memory m' \<and> brk m \<le> brk m' \<and> distinct f' \<and> set f' \<subseteq> set f \<union> {brk m..<brk m'} \<and>
      (\<forall>x. x \<notin> set f' \<longrightarrow> cells m' x = (if x \<in> set f then None else cells m x)))"

lemma replaces_agree:
  "replaces m m' f f' \<Longrightarrow> set g \<subseteq> dom (cells m) \<Longrightarrow> set g \<inter> set f = {} \<Longrightarrow> wf_memory m \<Longrightarrow> agree g (cells m) (cells m')"
  unfolding replaces_def agree_def
  by (auto dest!: live_below_set [of m g]) (meson atLeastLessThan_iff disjoint_iff leD subsetD Un_iff)

lemma replaces_disjoint:
  assumes "replaces m m' f f'" and "wf_memory m" and "set h \<subseteq> dom (cells m)" and "set f \<inter> set h = {}"
  shows "set f' \<inter> set h = {}"
proof -
  have "x \<notin> set f'" if "x \<in> set h" for x
  proof
    assume "x \<in> set f'"
    with assms(1) have "x \<in> set f \<or> brk m \<le> x" unfolding replaces_def by auto
    then show False using that assms(4) live_below_set [OF assms(2,3) that] by auto
  qed
  then show ?thesis by blast
qed

lemma replaces_discard:
  assumes "wf_memory m" and "replaces m m' f f'"
  shows "cells (discard f' m') = cells (discard f m)"
proof
  fix x
  show "cells (discard f' m') x = cells (discard f m) x"
    using assms wf_memory_fresh [OF assms(1), of x] by (auto simp: replaces_def)
qed

lemma replaces_extend:
  assumes "replaces m m1 f f1" and "fresh m1 m2 k" and "grows m1 m2 (set f1 \<union> set k)"
    and "set f1 \<subseteq> dom (cells m1)" and "distinct f' \<longleftrightarrow> distinct (f1 @ k)" and "set f' = set f1 \<union> set k"
  shows "replaces m m2 f f'"
proof -
  have wf: "wf_memory m1" using assms(1) by (simp add: replaces_def)
  have "set f1 \<inter> set k = {}"
    using live_below_set [OF wf assms(4)] fresh_not_old [OF assms(2)] by blast
  then have "distinct f'" using assms(1,2,5) by (simp add: replaces_def fresh_def)
  moreover have "set f' \<subseteq> set f \<union> {brk m..<brk m2}"
    using assms(1-3) unfolding assms(6) replaces_def fresh_def grows_def by fastforce
  ultimately show ?thesis using assms(1,3,6) unfolding replaces_def grows_def by (metis UnCI order_trans)
qed

lemma write_then_free:
  assumes "q \<noteq> 0" and "cells m q = Some y"
  shows "bind_run (writeCell q x m) (c_free q) = Ok (discard [q] m)"
  using assms by (simp add: writeCell_Some c_free_def discard_def restrict_map_def fun_upd_def fun_eq_iff)

lemma bind_run_assoc: "bind_run (bind_run r f) g = bind_run r (\<lambda>x. bind_run (f x) g)"
  by (cases r) auto

lemma wf_memory_mono: "wf_memory m \<Longrightarrow> cells m' = cells m \<Longrightarrow> brk m \<le> brk m' \<Longrightarrow> wf_memory m'"
  unfolding wf_memory_iff by (metis order_less_le_trans)

text \<open>
  What every run of the code does to the heap as a whole: addresses only grow, and an address that
  is dead stays dead. With it, a run that accounts for all blocks replaces one footprint by another.
\<close>

named_theorems advancing \<open>operations that keep the heap well-formed\<close>

definition advances :: "Memory \<Rightarrow> Memory \<Rightarrow> bool" where
  "advances m m' = (brk m \<le> brk m' \<and> (wf_memory m \<longrightarrow> wf_memory m') \<and> (\<forall>y < brk m. cells m y = None \<longrightarrow> cells m' y = None))"

lemma advances_refl [simp]: "advances m m"
  by (simp add: advances_def)

lemma advances_trans: "advances m m1 \<Longrightarrow> advances m1 m2 \<Longrightarrow> advances m m2"
  by (auto simp: advances_def)

lemma advances_malloc [advancing]: "c_malloc ok x m = (a, m') \<Longrightarrow> advances m m'"
  by (auto simp: c_malloc_def advances_def wf_memory_iff less_Suc_eq split: if_splits)

lemma advances_write [advancing]: "writeCell a x m = Ok m' \<Longrightarrow> advances m m'"
  by (auto simp: writeCell_def readCell_def advances_def wf_memory_iff bind_run_Ok_iff split: if_splits option.splits)

lemma advances_free [advancing]: "c_free a m = Ok m' \<Longrightarrow> advances m m'"
  by (auto simp: c_free_def advances_def wf_memory_iff split: if_splits option.splits)

text \<open>The same for a run whose result holds a heap.\<close>

definition advRun :: "('a \<Rightarrow> Memory) \<Rightarrow> Memory \<Rightarrow> 'a run \<Rightarrow> bool" where
  "advRun heap m r = (\<forall>x. r = Ok x \<longrightarrow> advances m (heap x))"

lemma advRun_simps [simp]: "advRun heap m (Fault e)" "advRun heap m (Ok x) \<longleftrightarrow> advances m (heap x)"
  by (simp_all add: advRun_def)

lemma advRun_bind: "(\<And>x. r = Ok x \<Longrightarrow> advRun heap m (f x)) \<Longrightarrow> advRun heap m (bind_run r f)"
  by (cases r) simp_all

lemma advRun_step: "advRun heap m r \<Longrightarrow> (\<And>x. advances m (heap x) \<Longrightarrow> advRun heap' m (f x)) \<Longrightarrow> advRun heap' m (bind_run r f)"
  by (cases r) simp_all

lemma advRun_from: "advances m m1 \<Longrightarrow> advRun heap m1 r \<Longrightarrow> advRun heap m r"
  by (auto simp: advRun_def intro: advances_trans)

lemma advances_writeSlot [advancing]: "writeSlot p i q m = Ok m' \<Longrightarrow> advances m m'"
  by (cases "readCell p m") (auto simp: writeSlot_def dest: advancing split: object.splits if_splits)

lemma advances_strdup [advancing]: "c_strdup ok p m = Ok (x, m') \<Longrightarrow> advances m m'"
  by (auto simp: c_strdup_def bind_run_Ok_iff dest: advancing)

lemma replaces_accounted:
  assumes "advances m m'" and "wf_memory m" and "distinct f'" and "set f' \<subseteq> dom (cells m')" and "cells (discard f' m') = cells (discard f m)"
  shows "replaces m m' f f'"
proof -
  have wf: "wf_memory m'" "brk m \<le> brk m'" using assms(1,2) by (auto simp: advances_def)
  have out: "cells m' x = (if x \<in> set f then None else cells m x)" if "x \<notin> set f'" for x
    using fun_cong [OF assms(5), of x] that by auto
  have "x \<in> set f \<union> {brk m..<brk m'}" if "x \<in> set f'" for x
  proof (rule ccontr)
    assume x: "x \<notin> set f \<union> {brk m..<brk m'}"
    have "0 < x \<and> x < brk m'" using live_below_set [OF wf(1) assms(4) that] .
    moreover have "cells m x = None" using fun_cong [OF assms(5), of x] that x by auto
    ultimately show False using assms(1,4) that x by (auto simp: advances_def)
  qed
  then have "set f' \<subseteq> set f \<union> {brk m..<brk m'}" by blast
  then show ?thesis using wf out assms(3) unfolding replaces_def by blast
qed

end
