(* ===== verification/Stream_Memory.thy ===== *)
theory Stream_Memory
  imports Memory "HOL-Library.Sublist"
begin

text \<open>
  The streams of \<^verbatim>\<open>src/app/stream.c\<close> on the heap: entries with their arrays of fields and values,
  linked through \<^verbatim>\<open>next\<close> from \<^verbatim>\<open>head\<close> to \<^verbatim>\<open>tail\<close>. Appending, copying and releasing entries is
  modelled for every pattern of failing allocations, with the cleanup code of each failure.
\<close>

section \<open>Releasing\<close>

text \<open>A sequence of \<^verbatim>\<open>free\<close> calls.\<close>

primrec frees :: "addr list \<Rightarrow> Memory \<Rightarrow> Memory run" where
  "frees [] m = Ok m"
| "frees (a # as) m = bind_run (c_free a m) (frees as)"

text \<open>The loop that frees \<^verbatim>\<open>fields[i]\<close> and \<^verbatim>\<open>values[i]\<close> for \<open>k\<close> indices from \<open>i\<close> on.\<close>

primrec freePairs :: "addr \<Rightarrow> addr \<Rightarrow> nat \<Rightarrow> nat \<Rightarrow> Memory \<Rightarrow> Memory run" where
  "freePairs fs vs i 0 m = Ok m"
| "freePairs fs vs i (Suc k) m =
     bind_run (readSlot fs i m) (\<lambda>p. bind_run (c_free p m) (\<lambda>m1.
     bind_run (readSlot vs i m1) (\<lambda>q. bind_run (c_free q m1) (freePairs fs vs (Suc i) k))))"

definition withEntry :: "addr \<Rightarrow> Memory \<Rightarrow> (addr \<Rightarrow> addr \<Rightarrow> addr \<Rightarrow> nat \<Rightarrow> addr \<Rightarrow> 'a run) \<Rightarrow> 'a run" where
  "withEntry a m body =
     bind_run (readCell a m) (\<lambda>x. case x of
       EntryO i fs vs n nx \<Rightarrow> body i fs vs n nx | UnsetO \<Rightarrow> Fault UninitRead | _ \<Rightarrow> Fault TypeConfusion)"

definition freeStreamEntry :: "addr \<Rightarrow> Memory \<Rightarrow> Memory run" where
  "freeStreamEntry a m =
     (if a = 0 then Ok m
      else withEntry a m (\<lambda>i fs vs n nx.
        bind_run (c_free i m) (\<lambda>m1.
        bind_run (if fs \<noteq> 0 \<and> vs \<noteq> 0 then freePairs fs vs 0 n m1 else Ok m1) (frees [fs, vs, a]))))"

definition entryNext :: "addr \<Rightarrow> Memory \<Rightarrow> addr run" where
  "entryNext a m = withEntry a m (\<lambda>i fs vs n nx. Ok nx)"

text \<open>The loop over the entries from \<open>a\<close> on, as it stands in \<^verbatim>\<open>freeStream\<close> and \<^verbatim>\<open>freeStreamInfo\<close>.\<close>

definition freeEntries :: "nat \<Rightarrow> addr \<Rightarrow> Memory \<Rightarrow> Memory run" where
  "freeEntries n a m = freeChain entryNext freeStreamEntry n a m"

definition withStream :: "addr \<Rightarrow> Memory \<Rightarrow> (addr \<Rightarrow> addr \<Rightarrow> 'a run) \<Rightarrow> 'a run" where
  "withStream s m body =
     bind_run (readCell s m) (\<lambda>x. case x of StreamO h t \<Rightarrow> body h t | _ \<Rightarrow> Fault TypeConfusion)"

definition freeStreamWith :: "nat \<Rightarrow> addr \<Rightarrow> Memory \<Rightarrow> Memory run" where
  "freeStreamWith n s m =
     (if s = 0 then Ok m
      else withStream s m (\<lambda>h t. bind_run (freeEntries n h m) (c_free s)))"

definition freeStream :: "addr \<Rightarrow> Memory \<Rightarrow> Memory run" where
  "freeStream s m = freeStreamWith (brk m) s m"

primrec freeInfos :: "nat \<Rightarrow> addr \<Rightarrow> nat \<Rightarrow> nat \<Rightarrow> Memory \<Rightarrow> Memory run" where
  "freeInfos n p i 0 m = Ok m"
| "freeInfos n p i (Suc k) m =
     bind_run (readCell p m) (\<lambda>x. case x of
       InfosO xs \<Rightarrow>
         if i < length xs then
           (case xs ! i of (key, es, cnt) \<Rightarrow>
              bind_run (c_free key m) (\<lambda>m1. bind_run (freeEntries n es m1) (freeInfos n p (Suc i) k)))
         else Fault OutOfBounds
     | _ \<Rightarrow> Fault TypeConfusion)"

definition freeStreamInfo :: "addr \<Rightarrow> nat \<Rightarrow> Memory \<Rightarrow> Memory run" where
  "freeStreamInfo p numStreams m = bind_run (freeInfos (brk m) p 0 numStreams m) (c_free p)"

section \<open>Building entries\<close>

text \<open>\<^verbatim>\<open>fs[i] = strdup (sf[i])\<close>.\<close>

definition dupSlot :: "(addr \<Rightarrow> bool) \<Rightarrow> addr \<Rightarrow> addr \<Rightarrow> nat \<Rightarrow> Memory \<Rightarrow> (addr \<times> Memory) run" where
  "dupSlot ok sf fs i m =
     bind_run (readSlot sf i m) (\<lambda>p.
     bind_run (c_strdup ok p m) (\<lambda>(x, m1).
     bind_run (writeSlot fs i x m1) (\<lambda>m2. Ok (x, m2))))"

text \<open>
  The loop that duplicates the fields and values, from index \<open>i\<close> on. A \<^verbatim>\<open>strdup\<close> that fails makes
  it free what is in the two arrays up to index \<open>i\<close>; \<open>False\<close> is that case.
\<close>

primrec copyPairs ::
  "(addr \<Rightarrow> bool) \<Rightarrow> addr \<Rightarrow> addr \<Rightarrow> addr \<Rightarrow> addr \<Rightarrow> nat \<Rightarrow> nat \<Rightarrow> Memory \<Rightarrow> (bool \<times> Memory) run" where
  "copyPairs ok sf sv fs vs i 0 m = Ok (True, m)"
| "copyPairs ok sf sv fs vs i (Suc k) m =
     bind_run (dupSlot ok sf fs i m) (\<lambda>(x, m1).
     bind_run (dupSlot ok sv vs i m1) (\<lambda>(y, m2).
       if x = 0 \<or> y = 0 then bind_run (freePairs fs vs 0 (Suc i) m2) (\<lambda>m3. Ok (False, m3))
       else copyPairs ok sf sv fs vs (Suc i) k m2))"

text \<open>
  What \<^verbatim>\<open>copyStreamEntry\<close> and \<^verbatim>\<open>streamAdd\<close> do with the new entry \<open>a\<close> and its identifier \<open>i\<close>; they
  differ in when they free the identifier after a failed allocation of the arrays.
\<close>

definition fillEntry ::
  "(addr \<Rightarrow> bool) \<Rightarrow> bool \<Rightarrow> addr \<Rightarrow> addr \<Rightarrow> addr \<Rightarrow> addr \<Rightarrow> nat \<Rightarrow> Memory \<Rightarrow> (addr \<times> Memory) run" where
  "fillEntry ok idFirst a i sf sv n m =
     (case c_malloc ok (PointersO (replicate n None)) m of (fs, m1) \<Rightarrow>
      case c_malloc ok (PointersO (replicate n None)) m1 of (vs, m2) \<Rightarrow>
      bind_run (writeCell a (EntryO i fs vs n 0) m2) (\<lambda>m3.
      if fs = 0 \<or> vs = 0 then
        bind_run (frees (if idFirst then [i, fs, vs, a] else [fs, vs, i, a]) m3) (\<lambda>m4. Ok (0, m4))
      else bind_run (copyPairs ok sf sv fs vs 0 n m3) (\<lambda>(finished, m4).
        if finished then Ok (a, m4)
        else bind_run (frees [fs, vs, i, a] m4) (\<lambda>m5. Ok (0, m5)))))"

definition copyStreamEntryM :: "(addr \<Rightarrow> bool) \<Rightarrow> addr \<Rightarrow> Memory \<Rightarrow> (addr \<times> Memory) run" where
  "copyStreamEntryM ok src m =
     (if src = 0 then Ok (0, m)
      else
        case c_malloc ok UnsetO m of (a, m1) \<Rightarrow>
        if a = 0 then Ok (0, m1)
        else withEntry src m1 (\<lambda>sid sf sv n nx.
          bind_run (c_strdup ok sid m1) (\<lambda>(i, m2).
          if i = 0 then bind_run (c_free a m2) (\<lambda>m3. Ok (0, m3))
          else fillEntry ok True a i sf sv n m2)))"

text \<open>The part of \<^verbatim>\<open>streamAdd\<close> that builds the entry: 0 when an allocation failed.\<close>

definition newEntry ::
  "(addr \<Rightarrow> bool) \<Rightarrow> string \<Rightarrow> addr \<Rightarrow> addr \<Rightarrow> nat \<Rightarrow> Memory \<Rightarrow> (addr \<times> Memory) run" where
  "newEntry ok finalId sf sv n m =
     (case c_malloc ok (CharsO (finalId @ [NUL])) m of (i, m1) \<Rightarrow>
      if i = 0 then Ok (0, m1)
      else
        case c_malloc ok UnsetO m1 of (a, m2) \<Rightarrow>
        if a = 0 then bind_run (c_free i m2) (\<lambda>m3. Ok (0, m3))
        else fillEntry ok False a i sf sv n m2)"

text \<open>\<^verbatim>\<open>tail->next = entry\<close>.\<close>

definition setNext :: "addr \<Rightarrow> addr \<Rightarrow> Memory \<Rightarrow> Memory run" where
  "setNext t a m = withEntry t m (\<lambda>i fs vs n nx. writeCell t (EntryO i fs vs n a) m)"

definition linkEntry :: "addr \<Rightarrow> addr \<Rightarrow> Memory \<Rightarrow> Memory run" where
  "linkEntry s a m =
     withStream s m (\<lambda>h t.
       if h = 0 then writeCell s (StreamO a a) m
       else bind_run (setNext t a m) (writeCell s (StreamO h a)))"

section \<open>Streams\<close>

definition createStreamM :: "(addr \<Rightarrow> bool) \<Rightarrow> Memory \<Rightarrow> addr \<times> Memory" where
  "createStreamM ok m = c_malloc ok (StreamO 0 0) m"

text \<open>
  What the checks of \<^verbatim>\<open>streamAdd\<close> see of a stream: at most its last entry, of which they read the
  identifier.
\<close>

definition tailView :: "addr \<Rightarrow> Memory \<Rightarrow> Stream run" where
  "tailView s m =
     withStream s m (\<lambda>h t.
       if t = 0 then Ok \<lparr>entries = []\<rparr>
       else withEntry t m (\<lambda>i fs vs n nx.
         bind_run (loadString i m) (\<lambda>x. Ok \<lparr>entries = [\<lparr>entryId = x, fieldValues = []\<rparr>]\<rparr>)))"

text \<open>
  \<^verbatim>\<open>streamAdd\<close>: the returned string (0 for NULL), whether the flag of the waiting readers was
  set, and the heap.
\<close>

definition streamAddM ::
  "(addr \<Rightarrow> bool) \<Rightarrow> 64 word \<Rightarrow> bool \<Rightarrow> addr \<Rightarrow> string \<Rightarrow> addr \<Rightarrow> addr \<Rightarrow> nat \<Rightarrow> Memory \<Rightarrow> (addr \<times> bool \<times> Memory) run" where
  "streamAddM ok now has_new s i sf sv n m =
     bind_run (tailView s m) (\<lambda>T.
     bind_run (resolveID now T i) (\<lambda>r.
       case r of
         None \<Rightarrow> Ok (0, has_new, m)
       | Some p \<Rightarrow>
           if \<not> isValidNextID now T p then
             (case c_malloc ok (CharsO ((if ms p = 0 \<and> seq p = 0 then err_zero_id else err_small_id) @ [NUL])) m of
                (x, m1) \<Rightarrow> Ok (x, has_new, m1))
           else
             let finalId = generateStreamID (ms p) (seq p) in
             bind_run (newEntry ok finalId sf sv n m) (\<lambda>(a, m1).
               if a = 0 then Ok (0, has_new, m1)
               else bind_run (linkEntry s a m1) (\<lambda>m2.
                 case c_malloc ok (CharsO (finalId @ [NUL])) m2 of (x, m3) \<Rightarrow> Ok (x, True, m3)))))"

text \<open>
  The loop of \<^verbatim>\<open>streamRange\<close> and \<^verbatim>\<open>streamRead\<close>: \<open>res\<close> and \<open>t\<close> are the first and the last copy so
  far, and \<open>cnt\<close> is their number.
\<close>

primrec collectM ::
  "(addr \<Rightarrow> bool) \<Rightarrow> 64 word \<Rightarrow> (StreamID \<Rightarrow> bool) \<Rightarrow> nat \<Rightarrow> addr \<Rightarrow> addr \<Rightarrow> addr \<Rightarrow> nat \<Rightarrow> Memory \<Rightarrow> (addr \<times> nat \<times> Memory) run" where
  "collectM ok now P 0 cur res t cnt m = (if cur = 0 then Ok (res, cnt, m) else Fault Diverges)"
| "collectM ok now P (Suc k) cur res t cnt m =
     (if cur = 0 then Ok (res, cnt, m)
      else withEntry cur m (\<lambda>i fs vs n nx.
        bind_run (loadString i m) (\<lambda>x.
          case parseStreamID now x of
            None \<Rightarrow> collectM ok now P k nx res t cnt m
          | Some j \<Rightarrow>
              if P j then
                bind_run (copyStreamEntryM ok cur m) (\<lambda>(a, m1).
                  if a = 0 then Ok (res, cnt, m1)
                  else bind_run (if res = 0 then Ok m1 else setNext t a m1)
                         (collectM ok now P k nx (if res = 0 then a else res) a (Suc cnt)))
              else collectM ok now P k nx res t cnt m)))"

definition collectStream ::
  "(addr \<Rightarrow> bool) \<Rightarrow> 64 word \<Rightarrow> (StreamID \<Rightarrow> bool) \<Rightarrow> addr \<Rightarrow> Memory \<Rightarrow> (addr \<times> nat option \<times> Memory) run" where
  "collectStream ok now P s m =
     withStream s m (\<lambda>h t. bind_run (collectM ok now P (brk m) h 0 0 0 m) (\<lambda>(res, cnt, m'). Ok (res, Some cnt, m')))"

definition streamRangeM ::
  "(addr \<Rightarrow> bool) \<Rightarrow> 64 word \<Rightarrow> addr \<Rightarrow> string \<Rightarrow> string \<Rightarrow> Memory \<Rightarrow> (addr \<times> nat option \<times> Memory) run" where
  "streamRangeM ok now s start end m =
     (case (if start = ''-'' then Some (StreamID 0 0) else parseStreamID now start) of
        None \<Rightarrow> Ok (0, None, m)
      | Some startId \<Rightarrow>
          (case (if end = ''+'' then Some (StreamID UINT64_MAX UINT64_MAX) else parseStreamID now end) of
             None \<Rightarrow> Ok (0, None, m)
           | Some endId \<Rightarrow> collectStream ok now (\<lambda>i. isIdInRange i startId endId) s m))"

definition streamReadM ::
  "(addr \<Rightarrow> bool) \<Rightarrow> 64 word \<Rightarrow> addr \<Rightarrow> string \<Rightarrow> Memory \<Rightarrow> (addr \<times> nat option \<times> Memory) run" where
  "streamReadM ok now s i m =
     (case parseStreamID now i of
        None \<Rightarrow> Ok (0, None, m)
      | Some startId \<Rightarrow> collectStream ok now (\<lambda>j. 0 < compareStreamIDs j startId) s m)"

section \<open>Entries on the heap\<close>

definition nz :: "addr list \<Rightarrow> addr list" where
  "nz as = filter (\<lambda>a. a \<noteq> 0) as"

definition live :: "cells \<Rightarrow> addr list \<Rightarrow> bool" where
  "live c as = (\<forall>a \<in> set as. a \<noteq> 0 \<longrightarrow> c a \<noteq> None)"

fun interleave :: "'a list \<Rightarrow> 'a list \<Rightarrow> 'a list" where
  "interleave (p # ps) (q # qs) = p # q # interleave ps qs"
| "interleave _ _ = []"

lemma nz_simps [simp]: "nz [] = []" "nz (a # as) = (if a = 0 then nz as else a # nz as)" "nz (as @ bs) = nz as @ nz bs"
    "set (nz as) = set as - {0}"
  by (auto simp: nz_def)

lemma nz_id: "0 \<notin> set as \<Longrightarrow> nz as = as"
  by (induction as) (auto simp: nz_def)

lemma live_simps [simp]: "live c []" "live c (a # as) \<longleftrightarrow> (a \<noteq> 0 \<longrightarrow> c a \<noteq> None) \<and> live c as"
    "live c (as @ bs) \<longleftrightarrow> live c as \<and> live c bs"
  by (auto simp: live_def)

lemma set_interleave: "length qs = length ps \<Longrightarrow> set (interleave ps qs) = set ps \<union> set qs"
  by (induction ps qs rule: interleave.induct) auto

lemma interleave_append:
  "length qs = length ps \<Longrightarrow> interleave (ps @ ps') (qs @ qs') = interleave ps qs @ interleave ps' qs'"
  by (induction ps qs rule: interleave.induct) auto

lemma live_discard: "live (cells m) as \<Longrightarrow> set as \<inter> set f \<subseteq> {0} \<Longrightarrow> live (cells (discard f m)) as"
  by (auto simp: live_def)

lemma c_free_nz: "(a \<noteq> 0 \<longrightarrow> cells m a \<noteq> None) \<Longrightarrow> c_free a m = Ok (discard (nz [a]) m)"
  by (auto simp: c_free_Some)

lemma frees_exact: "distinct (nz as) \<Longrightarrow> live (cells m) as \<Longrightarrow> frees as m = Ok (discard (nz as) m)"
proof (induction as arbitrary: m)
  case (Cons a as)
  have "frees as (discard (nz [a]) m) = Ok (discard (nz as) (discard (nz [a]) m))"
    using Cons.prems by (intro Cons.IH live_discard) (auto split: if_splits)
  moreover have "c_free a m = Ok (discard (nz [a]) m)" using Cons.prems by (intro c_free_nz) simp
  ultimately show ?case by simp
qed simp

lemma freePairs_exact:
  assumes "length qs = length ps" and "distinct (nz (interleave ps qs))" and "live (cells m) (ps @ qs)"
    and "fs \<noteq> 0" and "vs \<noteq> 0" and "fs \<notin> set (ps @ qs)" and "vs \<notin> set (ps @ qs)"
    and "cells m fs = Some (PointersO xs)" and "drop i xs = map Some ps @ r"
    and "cells m vs = Some (PointersO ys)" and "drop i ys = map Some qs @ r'"
  shows "freePairs fs vs i (length ps) m = Ok (discard (nz (interleave ps qs)) m)"
  using assms
proof (induction ps qs arbitrary: i m rule: interleave.induct)
  case (1 p ps q qs)
  note prems = 1(2-)
  have r1: "readSlot fs i m = Ok p" "drop (Suc i) xs = map Some ps @ r"
    using readSlot_Some [OF prems(4,8)] prems(9) by auto
  let ?m1 = "discard (nz [p]) m" and ?m2 = "discard (nz [p, q]) m"
  have "cells ?m1 vs = Some (PointersO ys)" using prems(7,10) by auto
  then have r2: "readSlot vs i ?m1 = Ok q" "drop (Suc i) ys = map Some qs @ r'"
    using readSlot_Some [OF prems(5), of ?m1 ys i q] prems(11) by simp_all
  have f1: "c_free p m = Ok ?m1" using prems(3) by (intro c_free_nz) simp
  have q: "q \<noteq> 0 \<longrightarrow> q \<noteq> p" using prems(2) by (auto split: if_splits)
  then have "c_free q ?m1 = Ok (discard (nz [q]) ?m1)" using prems(3) by (intro c_free_nz) (auto split: if_splits)
  then have f2: "c_free q ?m1 = Ok ?m2" by (cases "p = 0") (auto split: if_splits)
  have sub: "set ps \<union> set qs \<subseteq> set (interleave ps qs)" using prems(1) by (simp add: set_interleave)
  have "freePairs fs vs (Suc i) (length ps) ?m2 = Ok (discard (nz (interleave ps qs)) ?m2)"
    using prems(1-8,10) r1(2) r2(2) sub by (intro 1(1) live_discard) (auto split: if_splits)
  moreover have "discard (nz (interleave ps qs)) ?m2 = discard (nz (interleave (p # ps) (q # qs))) m"
    unfolding discard_discard by simp
  ultimately show ?case using r1 r2 f1 f2 by simp
qed simp_all

definition strAt :: "cells \<Rightarrow> addr \<Rightarrow> string \<Rightarrow> bool" where
  "strAt c p x = (p \<noteq> 0 \<and> c p = Some (CharsO (x @ [NUL])) \<and> nul_free x)"

text \<open>
  An entry: its identifier, the two arrays and the strings in them. The pair holds the pointer to the
  next entry and the entry itself.
\<close>

inductive entryAt :: "cells \<Rightarrow> addr \<Rightarrow> addr \<times> StreamEntry \<Rightarrow> addr list \<Rightarrow> bool" where
  entry: "a \<noteq> 0 \<Longrightarrow> fs \<noteq> 0 \<Longrightarrow> vs \<noteq> 0 \<Longrightarrow> c a = Some (EntryO i fs vs (length ps) nx) \<Longrightarrow> strAt c i (entryId e) \<Longrightarrow>
    c fs = Some (PointersO (map Some ps)) \<Longrightarrow> c vs = Some (PointersO (map Some qs)) \<Longrightarrow>
    list_all2 (strAt c) ps (map fst (fieldValues e)) \<Longrightarrow> list_all2 (strAt c) qs (map snd (fieldValues e)) \<Longrightarrow>
    entryAt c a (nx, e) (i # interleave ps qs @ [fs, vs, a])"

lemma strAt_frame: "strAt c p x \<Longrightarrow> c' p = c p \<Longrightarrow> strAt c' p x"
  by (simp add: strAt_def)

lemma strs_frame: "list_all2 (strAt c) ps xs \<Longrightarrow> agree ps c c' \<Longrightarrow> list_all2 (strAt c') ps xs"
  by (auto simp: list_all2_conv_all_nth strAt_def agree_def)

lemma strs_live: "list_all2 (strAt c) ps xs \<Longrightarrow> set ps \<subseteq> dom c \<and> 0 \<notin> set ps \<and> live c ps"
  by (induction rule: list_all2_induct) (auto simp: strAt_def)

lemma pairs_length:
  "list_all2 (strAt c) ps (map fst fvs) \<Longrightarrow> list_all2 (strAt c) qs (map snd fvs) \<Longrightarrow> length qs = length ps"
  by (auto dest!: list_all2_lengthD)

lemma agree_interleave: "length qs = length ps \<Longrightarrow> agree (interleave ps qs) c c' \<longleftrightarrow> agree ps c c' \<and> agree qs c c'"
  by (auto simp: agree_def set_interleave)

lemma entryAt_frame: "entryAt c a v f \<Longrightarrow> agree f c c' \<Longrightarrow> entryAt c' a v f"
proof (induction rule: entryAt.induct)
  case (entry a fs vs c i ps nx e qs)
  note l = pairs_length [OF entry.hyps(8,9)]
  show ?case
    using entry strs_frame [OF entry.hyps(8)] strs_frame [OF entry.hyps(9)] strAt_frame [OF entry.hyps(5)] agree_interleave [OF l]
    by (intro entryAt.entry) auto
qed

lemma entryAt_live: "entryAt c a v f \<Longrightarrow> set f \<subseteq> dom c"
proof (induction rule: entryAt.induct)
  case (entry a fs vs c i ps nx e qs)
  then show ?case
    using strs_live [OF entry.hyps(8)] strs_live [OF entry.hyps(9)] pairs_length [OF entry.hyps(8,9)]
    by (auto simp: set_interleave strAt_def)
qed

lemma freeStreamEntry_releasable: "entryAt c a v f \<Longrightarrow> releasable n (\<lambda>a m. freeStreamEntry a m) c a v f"
proof (induction rule: entryAt.induct)
  case (entry a fs vs c i ps nx e qs)
  note l = pairs_length [OF entry.hyps(8,9)]
  let ?g = "interleave ps qs"
  show ?case unfolding releasable_def
  proof (intro allI impI)
    fix m :: Memory assume ag: "agree (i # ?g @ [fs, vs, a]) c (cells m)" and d: "distinct (i # ?g @ [fs, vs, a])"
    then have pq: "list_all2 (strAt (cells m)) ps (map fst (fieldValues e))" "list_all2 (strAt (cells m)) qs (map snd (fieldValues e))"
      using strs_frame [OF entry.hyps(8)] strs_frame [OF entry.hyps(9)] agree_interleave [OF l] by auto
    then have z: "0 \<notin> set ?g" "nz ?g = ?g" using strs_live by (auto simp: set_interleave [OF l] intro!: nz_id)
    have i: "c_free i m = Ok (discard [i] m)" using entry.hyps(5) ag by (auto simp: strAt_def c_free_Some)
    have "freePairs fs vs 0 (length ps) (discard [i] m) = Ok (discard (nz ?g) (discard [i] m))"
      by (rule freePairs_exact [where r = "[]" and r' = "[]"])
        (use l d ag z entry.hyps strs_live [OF pq(1)] strs_live [OF pq(2)] in \<open>auto simp: set_interleave live_def\<close>)
    moreover have "frees [fs, vs, a] (discard (i # ?g) m) = Ok (discard (nz [fs, vs, a]) (discard (i # ?g) m))"
      by (rule frees_exact) (use d ag entry.hyps in auto)
    ultimately show "freeStreamEntry a m = Ok (discard (i # ?g @ [fs, vs, a]) m)"
      using entry.hyps ag i z(2) by (simp add: freeStreamEntry_def withEntry_def mem_simps del: frees.simps)
  qed
qed

interpretation entry_mem: linked_destructor entryAt "\<lambda>n. freeStreamEntry" entryNext
proof unfold_locales
  fix m :: Memory and a nx v f
  show "entryAt (cells m) a (nx, v) f \<Longrightarrow> entryNext a m = Ok nx"
    by (erule entryAt.cases) (auto simp: entryNext_def withEntry_def mem_simps)
next
  fix c a nx v f
  show "entryAt c a (nx, v) f \<Longrightarrow> a \<noteq> 0 \<and> a \<in> set f"
    by (erule entryAt.cases) auto
qed (fact entryAt_frame entryAt_live freeStreamEntry_releasable)+

section \<open>Copying fields and values\<close>

text \<open>The strings of an array from index \<open>i\<close> on, as the source of a copy.\<close>

definition srcAt :: "cells \<Rightarrow> addr \<Rightarrow> nat \<Rightarrow> string list \<Rightarrow> bool" where
  "srcAt c e i xs = (e \<noteq> 0 \<and> (\<exists>S ps. c e = Some (PointersO S) \<and> drop i S = map Some ps \<and> list_all2 (strAt c) ps xs))"

lemma srcAt_Cons:
  assumes "srcAt c e i (x # xs)"
  obtains S p r where "e \<noteq> 0" and "c e = Some (PointersO S)" and "drop i S = Some p # r" and "strAt c p x" and "srcAt c e (Suc i) xs"
proof -
  from assms obtain S p ps where "e \<noteq> 0" "c e = Some (PointersO S)" "drop i S = Some p # map Some ps" "strAt c p x" "list_all2 (strAt c) ps xs"
    by (auto simp: srcAt_def list_all2_Cons2)
  moreover from this(3) have "drop (Suc i) S = map Some ps" by (cases "i < length S") (auto simp flip: Cons_nth_drop_Suc)
  ultimately show ?thesis by (intro that [of S p "map Some ps"]) (auto simp: srcAt_def)
qed

lemma srcAt_frame:
  assumes "srcAt c e i xs" and "c' e = c e" and "\<And>p s. c p = Some (CharsO s) \<Longrightarrow> c' p = c p"
  shows "srcAt c' e i xs"
proof -
  from assms(1) obtain S ps where s: "e \<noteq> 0" "c e = Some (PointersO S)" "drop i S = map Some ps" "list_all2 (strAt c) ps xs"
    by (auto simp: srcAt_def)
  have "list_all2 (strAt c') ps xs" using s(4) by (rule list_all2_mono) (auto simp: strAt_def assms(3))
  with s assms(2) show ?thesis by (auto simp: srcAt_def)
qed

lemma loadString_strAt: "strAt (cells m) p x \<Longrightarrow> loadString p m = Ok x"
  by (auto simp: loadString_def strAt_def mem_simps cstr_def nul_free_def list_all_iff takeWhile_append2)

lemma dupSlot_result:
  assumes "wf_memory m" and "srcAt (cells m) sf (length ps) (x # xs)" and "fs \<noteq> 0"
    and "cells m fs = Some (PointersO (map Some ps @ z # r))"
  obtains y m' where "dupSlot ok sf fs (length ps) m = Ok (y, m')" and "y = 0 \<and> \<not> ok (brk m) \<or> y = brk m \<and> strAt (cells m') y x"
    and "brk m' = Suc (brk m)" and "grows m m' {fs, y}" and "cells m' fs = Some (PointersO (map Some (ps @ [y]) @ r))"
proof -
  obtain S p q where s: "sf \<noteq> 0" "cells m sf = Some (PointersO S)" "drop (length ps) S = Some p # q" "strAt (cells m) p x"
    using assms(2) by (rule srcAt_Cons)
  obtain y m1 where y: "c_malloc ok (CharsO (x @ [NUL])) m = (y, m1)" by (cases "c_malloc ok (CharsO (x @ [NUL])) m")
  note ma = grows_malloc [OF assms(1) y]
  have b: "0 < brk m" "fs < brk m" using live_below [OF assms(1) assms(4)] by auto
  define m' where "m' = m1\<lparr>cells := (cells m1)(fs \<mapsto> PointersO (map Some (ps @ [y]) @ r))\<rparr>"
  have fs: "cells m1 fs = Some (PointersO (map Some ps @ z # r))" using ma b assms(4) by auto
  have run: "dupSlot ok sf fs (length ps) m = Ok (y, m')"
    using readSlot_Some [OF s(1-3)] loadString_strAt [OF s(4)] y writeSlot_next [OF assms(3) fs, of y]
    by (simp add: dupSlot_def c_strdup_def m'_def)
  have "strAt (cells m') y x" if "y = brk m" using ma b that s(4) by (auto simp: strAt_def m'_def split: if_splits)
  moreover have "y = 0 \<and> \<not> ok (brk m) \<or> y = brk m" using ma by (auto split: if_splits)
  moreover have "grows m m' {fs, y}"
    using ma b assms(3) by (auto simp: grows_def m'_def wf_memory_iff split: if_splits)
  ultimately show ?thesis using that [OF run] ma by (auto simp: m'_def)
qed

text \<open>The arrays under construction: \<open>ps\<close> and \<open>qs\<close> are written, \<open>k\<close> slots of each are not.\<close>

definition tablesAt :: "cells \<Rightarrow> addr \<Rightarrow> addr \<Rightarrow> addr list \<Rightarrow> addr list \<Rightarrow> nat \<Rightarrow> bool" where
  "tablesAt c fs vs ps qs k =
     (fs \<noteq> 0 \<and> vs \<noteq> 0 \<and> fs \<noteq> vs \<and> length qs = length ps \<and>
      c fs = Some (PointersO (map Some ps @ replicate k None)) \<and> c vs = Some (PointersO (map Some qs @ replicate k None)) \<and>
      distinct (nz (interleave ps qs)) \<and> live c (ps @ qs) \<and> {fs, vs} \<inter> set (ps @ qs) = {})"

lemma free_tables:
  assumes "tablesAt (cells m) fs vs ps qs k"
  shows "freePairs fs vs 0 (length ps) m = Ok (discard (nz (interleave ps qs)) m)"
  using assms by (intro freePairs_exact) (auto simp: tablesAt_def)

text \<open>One turn of the loop: the next field and the next value are duplicated, or one of them is NULL.\<close>

lemma copyPair_step:
  assumes "wf_memory m" and "srcAt (cells m) sf (length ps) (x # xs)" and "srcAt (cells m) sv (length ps) (y # ys)"
    and "tablesAt (cells m) fs vs ps qs (Suc k)" and "{sf, sv} \<inter> {fs, vs} = {}"
  obtains p q m1 m2 where "dupSlot ok sf fs (length ps) m = Ok (p, m1)" and "dupSlot ok sv vs (length ps) m1 = Ok (q, m2)"
    and "tablesAt (cells m2) fs vs (ps @ [p]) (qs @ [q]) k" and "srcAt (cells m2) sf (Suc (length ps)) xs"
    and "srcAt (cells m2) sv (Suc (length ps)) ys" and "grows m m2 {fs, vs, p, q}" and "brk m \<le> brk m2"
    and "p \<noteq> 0 \<Longrightarrow> strAt (cells m2) p x" and "q \<noteq> 0 \<Longrightarrow> strAt (cells m2) q y"
    and "set (nz [p, q]) \<subseteq> {brk m..<brk m2}" and "distinct (nz [p, q])" and "p = 0 \<or> q = 0 \<Longrightarrow> \<exists>a. \<not> ok a"
proof -
  have t: "fs \<noteq> 0" "vs \<noteq> 0" "fs \<noteq> vs" "length qs = length ps" "cells m fs = Some (PointersO (map Some ps @ None # replicate k None))"
    "cells m vs = Some (PointersO (map Some qs @ None # replicate k None))" using assms(4) by (auto simp: tablesAt_def)
  obtain p m1 where p: "dupSlot ok sf fs (length ps) m = Ok (p, m1)" "p = 0 \<and> \<not> ok (brk m) \<or> p = brk m \<and> strAt (cells m1) p x"
      "brk m1 = Suc (brk m)" "grows m m1 {fs, p}" "cells m1 fs = Some (PointersO (map Some (ps @ [p]) @ replicate k None))"
    using dupSlot_result [OF assms(1,2) t(1,5)] .
  have b: "0 < brk m" "fs < brk m" "vs < brk m" using live_below [OF assms(1) t(5)] live_below [OF assms(1) t(6)] by auto
  have z: "cells m 0 = None" "cells m (brk m) = None" using wf_memory_null wf_memory_fresh assms(1) by auto
  have same1: "cells m1 a = cells m a" if "cells m a \<noteq> None" "a \<noteq> fs" for a
    using p(2,4) that z unfolding grows_def by (metis insertE singletonD)
  have vs1: "cells m1 vs = Some (PointersO (map Some qs @ None # replicate k None))" using same1 [of vs] t by simp
  have "srcAt (cells m1) sv (length ps) (y # ys)"
  proof (rule srcAt_frame [OF assms(3)])
    show "cells m1 sv = cells m sv" using assms(3,5) by (intro same1) (auto simp: srcAt_def)
    show "cells m1 a = cells m a" if "cells m a = Some (CharsO s)" for a s using that t(5) by (intro same1) auto
  qed
  then obtain q m2 where q: "dupSlot ok sv vs (length ps) m1 = Ok (q, m2)" "q = 0 \<and> \<not> ok (brk m1) \<or> q = brk m1 \<and> strAt (cells m2) q y"
      "brk m2 = Suc (brk m1)" "grows m1 m2 {vs, q}" "cells m2 vs = Some (PointersO (map Some (qs @ [q]) @ replicate k None))"
    using dupSlot_result [OF grows_wf [OF p(4)], of sv qs y ys vs None "replicate k None" ok] t(2,4) vs1 by metis
  have z1: "cells m1 0 = None" "cells m1 (brk m1) = None" using wf_memory_null wf_memory_fresh grows_wf [OF p(4)] by auto
  have same2: "cells m2 a = cells m1 a" if "cells m1 a \<noteq> None" "a \<noteq> vs" for a
    using q(2,4) that z1 unfolding grows_def by (metis insertE singletonD)
  have same: "cells m2 a = cells m a" if "cells m a \<noteq> None" "a \<noteq> fs" "a \<noteq> vs" for a
    using same1 [of a] same2 [of a] that by simp
  have new: "a \<noteq> brk m \<and> a \<noteq> Suc (brk m)" if "cells m a \<noteq> None" for a
    using that live_below [OF assms(1), of a] by auto
  have pm2: "strAt (cells m2) p x" if "p \<noteq> 0" using p(2) that b same2 [of p] by (auto simp: strAt_def)
  have "live (cells m) (ps @ qs)" using assms(4) by (simp add: tablesAt_def)
  then have old: "a \<noteq> brk m \<and> a \<noteq> Suc (brk m)" if "a \<in> set (ps @ qs)" for a
    using that new b(1) unfolding live_def by (metis less_irrefl_nat nat.distinct(1))
  have lv: "live (cells m2) (ps @ qs)" unfolding live_def
  proof (intro ballI impI)
    fix a assume "a \<in> set (ps @ qs)" and "a \<noteq> 0"
    then have "cells m a \<noteq> None" "a \<noteq> fs" "a \<noteq> vs" using assms(4) by (auto simp: tablesAt_def live_def)
    then show "cells m2 a \<noteq> None" using same [of a] by simp
  qed
  have "tablesAt (cells m2) fs vs (ps @ [p]) (qs @ [q]) k"
    using assms(4) t p(2,3,5) q(2,5) same2 [of fs] pm2 lv b old
    by (auto simp: tablesAt_def interleave_append set_interleave strAt_def)
  moreover have src: "srcAt (cells m2) e (Suc (length ps)) us" if "srcAt (cells m) e (length ps) (u # us)" "e \<noteq> fs" "e \<noteq> vs" for e u us
    using that(1)
  proof (rule srcAt_Cons)
    fix S assume "cells m e = Some (PointersO S)" and src: "srcAt (cells m) e (Suc (length ps)) us"
    then have "cells m2 e = cells m e" using that(2,3) by (intro same) auto
    with src show ?thesis by (rule srcAt_frame) (use t(5,6) in \<open>intro same, auto\<close>)
  qed
  moreover have "srcAt (cells m2) sf (Suc (length ps)) xs" "srcAt (cells m2) sv (Suc (length ps)) ys"
    using src [OF assms(2)] src [OF assms(3)] assms(5) by auto
  moreover have "grows m m2 {fs, vs, p, q}" by (rule grows_trans [OF p(4) q(4)]) auto
  moreover have "\<exists>a. \<not> ok a" if "p = 0 \<or> q = 0" using that p(2,3) q(2) b by auto
  ultimately show ?thesis using that [OF p(1) q(1)] pm2 p(2,3) q(2,3) b by (auto split: if_splits)
qed

text \<open>
  The loop either duplicates everything into new blocks, or an allocation failed and it freed all
  strings of the two arrays again.
\<close>

lemma copyPairs_result:
  assumes "wf_memory m" and "srcAt (cells m) sf (length ps) xs" and "srcAt (cells m) sv (length ps) ys" and "length ys = length xs"
    and "tablesAt (cells m) fs vs ps qs (length xs)" and "{sf, sv} \<inter> {fs, vs} = {}" and "0 \<notin> set (ps @ qs)"
  shows "(\<exists>m' ps' qs'. copyPairs ok sf sv fs vs (length ps) (length xs) m = Ok (True, m') \<and>
      tablesAt (cells m') fs vs (ps @ ps') (qs @ qs') 0 \<and> list_all2 (strAt (cells m')) ps' xs \<and> list_all2 (strAt (cells m')) qs' ys \<and>
      fresh m m' (interleave ps' qs') \<and> grows m m' ({fs, vs} \<union> set (interleave ps' qs'))) \<or>
    (\<exists>m' S S'. copyPairs ok sf sv fs vs (length ps) (length xs) m = Ok (False, m') \<and> (\<exists>a. \<not> ok a) \<and> wf_memory m' \<and> brk m \<le> brk m' \<and>
      cells m' fs = Some S \<and> cells m' vs = Some S' \<and>
      (\<forall>a. a \<noteq> fs \<longrightarrow> a \<noteq> vs \<longrightarrow> cells m' a = cells (discard (interleave ps qs) m) a))"
  using assms
proof (induction xs arbitrary: m ps qs ys)
  case Nil
  then show ?case by (intro disjI1) (auto simp: fresh_def intro!: exI [of _ m] exI [of _ "[]"])
next
  case (Cons x xs)
  note prems = Cons.prems
  from prems(4) obtain y ys' where ys: "ys = y # ys'" "length ys' = length xs" by (cases ys) auto
  obtain p q m1 m2 where st: "dupSlot ok sf fs (length ps) m = Ok (p, m1)" "dupSlot ok sv vs (length ps) m1 = Ok (q, m2)"
    and t: "tablesAt (cells m2) fs vs (ps @ [p]) (qs @ [q]) (length xs)"
    and src: "srcAt (cells m2) sf (Suc (length ps)) xs" "srcAt (cells m2) sv (Suc (length ps)) ys'"
    and g: "grows m m2 {fs, vs, p, q}" and le: "brk m \<le> brk m2"
    and str: "p \<noteq> 0 \<Longrightarrow> strAt (cells m2) p x" "q \<noteq> 0 \<Longrightarrow> strAt (cells m2) q y"
    and new: "set (nz [p, q]) \<subseteq> {brk m..<brk m2}" "distinct (nz [p, q])" and fail: "p = 0 \<or> q = 0 \<Longrightarrow> \<exists>a. \<not> ok a"
    by (rule copyPair_step [where ok = ok, OF prems(1,2) prems(3) [unfolded ys(1)] prems(5) [unfolded length_Cons] prems(6)]) (rule that)
  note lq = tablesAt_def [THEN iffD1, OF prems(5)]
  show ?case
  proof (cases "p = 0 \<or> q = 0")
    case True
    let ?f = "nz (interleave (ps @ [p]) (qs @ [q]))"
    have "copyPairs ok sf sv fs vs (length ps) (length (x # xs)) m = Ok (False, discard ?f m2)"
      using st True free_tables [OF t] by simp
    moreover have "cells (discard ?f m2) a = cells (discard (interleave ps qs) m) a" if "a \<noteq> fs" "a \<noteq> vs" for a
      using that g new(1) prems(7) lq wf_memory_null [OF prems(1)] wf_memory_fresh [OF prems(1), of a] wf_memory_null [OF grows_wf [OF g]]
      by (cases "a = 0") (auto simp: grows_def interleave_append nz_id set_interleave split: if_splits)
    moreover have "cells (discard ?f m2) fs = cells m2 fs" "cells (discard ?f m2) vs = cells m2 vs"
      using t lq by (auto simp: tablesAt_def interleave_append set_interleave)
    ultimately show ?thesis using fail [OF True] grows_wf [OF g] le t by (intro disjI2) (auto simp: tablesAt_def)
  next
    case False
    then have pq: "p \<noteq> 0" "q \<noteq> 0" "p \<noteq> q" "p \<in> {brk m..<brk m2}" "q \<in> {brk m..<brk m2}" using new by auto
    have run: "copyPairs ok sf sv fs vs (length ps) (length (x # xs)) m = copyPairs ok sf sv fs vs (length (ps @ [p])) (length xs) m2"
      using st False by simp
    have nz: "0 \<notin> set ((ps @ [p]) @ (qs @ [q]))" using prems(7) pq by simp
    from Cons.IH [OF grows_wf [OF g], of "ps @ [p]" ys' "qs @ [q]"] src ys(2) t prems(6) nz
    consider (ok) m' ps' qs' where "copyPairs ok sf sv fs vs (length (ps @ [p])) (length xs) m2 = Ok (True, m')"
        "tablesAt (cells m') fs vs ((ps @ [p]) @ ps') ((qs @ [q]) @ qs') 0" "list_all2 (strAt (cells m')) ps' xs"
        "list_all2 (strAt (cells m')) qs' ys'" "fresh m2 m' (interleave ps' qs')" "grows m2 m' ({fs, vs} \<union> set (interleave ps' qs'))"
      | (bad) m' S S' where "copyPairs ok sf sv fs vs (length (ps @ [p])) (length xs) m2 = Ok (False, m')" "\<exists>a. \<not> ok a" "wf_memory m'"
        "brk m2 \<le> brk m'" "cells m' fs = Some S" "cells m' vs = Some S'"
        "\<forall>a. a \<noteq> fs \<longrightarrow> a \<noteq> vs \<longrightarrow> cells m' a = cells (discard (interleave (ps @ [p]) (qs @ [q])) m2) a"
      by auto blast
    then show ?thesis
    proof cases
      case ok
      have keep: "strAt (cells m') r u" if "strAt (cells m2) r u" "r \<in> {brk m..<brk m2}" for r u
      proof (rule strAt_frame [OF that(1)])
        have "r \<notin> {fs, vs}" using that(1) t by (auto simp: strAt_def tablesAt_def)
        moreover have "r \<notin> set (interleave ps' qs')" using that(2) ok(5) by (auto simp: fresh_def)
        ultimately show "cells m' r = cells m2 r" using ok(6) by (simp add: grows_def)
      qed
      have "fresh m m' ([p, q] @ interleave ps' qs')"
        using pq le ok(5,6) by (intro fresh_append [OF _ ok(5)]) (auto simp: fresh_def grows_def)
      moreover have "grows m m' ({fs, vs} \<union> set (interleave (p # ps') (q # qs')))" by (rule grows_trans [OF g ok(6)]) auto
      ultimately show ?thesis using run ok keep [OF str(1)] keep [OF str(2)] pq ys
        by (intro disjI1 exI [of _ m'] exI [of _ "p # ps'"] exI [of _ "q # qs'"]) auto
    next
      case bad
      have "cells m' a = cells (discard (interleave ps qs) m) a" if "a \<noteq> fs" "a \<noteq> vs" for a
        using that g pq bad(7) lq wf_memory_fresh [OF prems(1), of a] by (auto simp: grows_def interleave_append set_interleave)
      then show ?thesis using run bad le by (intro disjI2) (auto intro: order_trans)
    qed
  qed
qed

section \<open>Building an entry\<close>

text \<open>Both arrays are allocated and the entry points to them, or an allocation failed.\<close>

lemma discard_cong: "set f = set g \<Longrightarrow> discard f m = discard g m"
  by (simp add: discard_def)

lemma alloc_tables:
  assumes "wf_memory m" and "a \<noteq> 0" and "cells m a = Some UnsetO"
  obtains fs vs m3 where
    "\<And>idFirst sf sv. fillEntry ok idFirst a i sf sv n m =
       (if fs = 0 \<or> vs = 0 then bind_run (frees (if idFirst then [i, fs, vs, a] else [fs, vs, i, a]) m3) (\<lambda>m4. Ok (0, m4))
        else bind_run (copyPairs ok sf sv fs vs 0 n m3) (\<lambda>(finished, m4).
          if finished then Ok (a, m4) else bind_run (frees [fs, vs, i, a] m4) (\<lambda>m5. Ok (0, m5))))"
    and "grows m m3 {a, fs, vs}" and "cells m3 a = Some (EntryO i fs vs n 0)" and "fresh m m3 (nz [fs, vs])"
    and "fs \<noteq> 0 \<Longrightarrow> cells m3 fs = Some (PointersO (replicate n None))" and "vs \<noteq> 0 \<Longrightarrow> cells m3 vs = Some (PointersO (replicate n None))"
    and "fs = 0 \<or> vs = 0 \<Longrightarrow> \<exists>x. \<not> ok x"
proof -
  obtain fs m1 where f: "c_malloc ok (PointersO (replicate n None)) m = (fs, m1)" by (cases "c_malloc ok (PointersO (replicate n None)) m")
  note g1 = grows_malloc [OF assms(1) f]
  obtain vs m2 where v: "c_malloc ok (PointersO (replicate n None)) m1 = (vs, m2)" by (cases "c_malloc ok (PointersO (replicate n None)) m1")
  note g2 = grows_malloc [OF grows_wf [OF g1 [THEN conjunct1]] v]
  have b: "0 < a" "a < brk m" using live_below [OF assms(1,3)] by auto
  have a2: "cells m2 a = Some UnsetO" using g1 g2 b assms(3) by auto
  define m3 where "m3 = m2\<lparr>cells := (cells m2)(a \<mapsto> EntryO i fs vs n 0)\<rparr>"
  have run: "fillEntry ok idFirst a i sf sv n m =
       (if fs = 0 \<or> vs = 0 then bind_run (frees (if idFirst then [i, fs, vs, a] else [fs, vs, i, a]) m3) (\<lambda>m4. Ok (0, m4))
        else bind_run (copyPairs ok sf sv fs vs 0 n m3) (\<lambda>(finished, m4).
          if finished then Ok (a, m4) else bind_run (frees [fs, vs, i, a] m4) (\<lambda>m5. Ok (0, m5))))" for idFirst sf sv
    by (simp add: fillEntry_def f v writeCell_Some [OF assms(2) a2] m3_def)
  have "grows m2 m3 {a}" unfolding m3_def using grows_wf [OF g2 [THEN conjunct1]] a2 by (rule grows_write)
  moreover have "cells m1 x = cells m x" if "x \<notin> {fs}" for x using g1 that by (auto split: if_splits)
  moreover have "cells m2 x = cells m1 x" if "x \<notin> {vs}" for x using g2 that by (auto split: if_splits)
  ultimately have "grows m m3 {a, fs, vs}" using g1 g2 by (simp add: grows_def)
  then show ?thesis using that [OF run] g1 g2 b by (auto simp: m3_def fresh_def split: if_splits)
qed

lemma fillEntry_result:
  assumes "wf_memory m" and "a \<noteq> 0" and "cells m a = Some UnsetO" and "strAt (cells m) i (entryId e)" and "i \<noteq> a"
    and "srcAt (cells m) sf 0 (map fst (fieldValues e))" and "srcAt (cells m) sv 0 (map snd (fieldValues e))"
  shows "(\<exists>m' g. fillEntry ok idFirst a i sf sv (length (fieldValues e)) m = Ok (a, m') \<and> entryAt (cells m') a (0, e) (i # g @ [a]) \<and>
      fresh m m' g \<and> grows m m' (insert a (set g))) \<or>
    (\<exists>m'. fillEntry ok idFirst a i sf sv (length (fieldValues e)) m = Ok (0, m') \<and> (\<exists>x. \<not> ok x) \<and> wf_memory m' \<and> brk m \<le> brk m' \<and>
      cells m' = cells (discard [i, a] m))"
proof -
  let ?n = "length (fieldValues e)"
  obtain fs vs m3 where run: "\<And>idFirst sf sv. fillEntry ok idFirst a i sf sv ?n m =
       (if fs = 0 \<or> vs = 0 then bind_run (frees (if idFirst then [i, fs, vs, a] else [fs, vs, i, a]) m3) (\<lambda>m4. Ok (0, m4))
        else bind_run (copyPairs ok sf sv fs vs 0 ?n m3) (\<lambda>(finished, m4).
          if finished then Ok (a, m4) else bind_run (frees [fs, vs, i, a] m4) (\<lambda>m5. Ok (0, m5))))"
    and g: "grows m m3 {a, fs, vs}" and a3: "cells m3 a = Some (EntryO i fs vs ?n 0)" and fr: "fresh m m3 (nz [fs, vs])"
    and tb: "fs \<noteq> 0 \<Longrightarrow> cells m3 fs = Some (PointersO (replicate ?n None))" "vs \<noteq> 0 \<Longrightarrow> cells m3 vs = Some (PointersO (replicate ?n None))"
    and fail: "fs = 0 \<or> vs = 0 \<Longrightarrow> \<exists>x. \<not> ok x"
    by (rule alloc_tables [where ok = ok and i = i and n = ?n, OF assms(1-3)]) (rule that)
  have i: "i \<noteq> 0" "cells m i = Some (CharsO (entryId e @ [NUL]))" using assms(4) by (auto simp: strAt_def)
  have below: "i < brk m" "a < brk m" using live_below [OF assms(1)] i(2) assms(3) by blast+
  have new: "x \<notin> {fs, vs}" if "cells m x \<noteq> None" for x
    using that fr live_below [OF assms(1), of x] by (auto simp: fresh_def split: if_splits)
  have old: "cells m3 x = cells m x" if "cells m x \<noteq> None" "x \<noteq> a" for x
    using g new [OF that(1)] that(2) by (auto simp: grows_def)
  have fresh3: "cells m x = None" if "x \<in> {fs, vs}" for x using new [of x] that by blast
  have rest3: "cells m3 x = cells m x" if "x \<noteq> a" "x \<in> {fs, vs} \<Longrightarrow> x = 0" for x
    using g that wf_memory_null [OF grows_wf [OF g]] wf_memory_null [OF assms(1)] by (cases "x \<in> {fs, vs}") (auto simp: grows_def)
  have d: "distinct (nz [i, fs, vs, a])" using fr below assms(2,5) by (auto simp: fresh_def split: if_splits)
  show ?thesis
  proof (cases "fs = 0 \<or> vs = 0")
    case True
    have lv: "live (cells m3) [i, fs, vs, a]" using tb a3 old [of i] i assms(5) by (auto split: if_splits)
    have "frees [i, fs, vs, a] m3 = Ok (discard (nz [i, fs, vs, a]) m3)" using d lv by (rule frees_exact)
    moreover have "frees [fs, vs, i, a] m3 = Ok (discard (nz [fs, vs, i, a]) m3)" using d lv by (intro frees_exact) auto
    moreover have "discard (nz [fs, vs, i, a]) m3 = discard (nz [i, fs, vs, a]) m3" by (rule discard_cong) auto
    ultimately have "frees (if idFirst then [i, fs, vs, a] else [fs, vs, i, a]) m3 = Ok (discard (nz [i, fs, vs, a]) m3)"
      by (simp del: frees.simps nz_simps)
    moreover have "cells (discard (nz [i, fs, vs, a]) m3) x = cells (discard [i, a] m) x" for x
      using fresh3 [of x] rest3 [of x] assms(2) i(1) by (auto split: if_splits)
    ultimately show ?thesis using run True fail g grows_wf [OF g] by (intro disjI2) (auto simp: grows_def fun_eq_iff)
  next
    case False
    then have ft: "fs \<noteq> 0" "vs \<noteq> 0" "fs \<noteq> vs" using fr by (auto simp: fresh_def)
    then have t: "tablesAt (cells m3) fs vs [] [] ?n" using tb by (simp add: tablesAt_def)
    have src: "srcAt (cells m3) e' 0 xs" if "srcAt (cells m) e' 0 xs" for e' xs
    proof (rule srcAt_frame [OF that])
      show "cells m3 e' = cells m e'" using that assms(3) by (intro old) (auto simp: srcAt_def)
      show "cells m3 p = cells m p" if "cells m p = Some (CharsO s)" for p s using that assms(3) by (intro old) auto
    qed
    have disj: "{sf, sv} \<inter> {fs, vs} = {}" using assms(6,7) new by (auto simp: srcAt_def)
    have wf3: "wf_memory m3" "brk m \<le> brk m3" using g by (auto simp: grows_def)
    have a': "a \<noteq> fs" "a \<noteq> vs" "i \<noteq> fs" "i \<noteq> vs" "i \<noteq> a" using new [of a] new [of i] assms(3,5) i by auto
    from copyPairs_result [OF wf3(1), of sf "[]" "map fst (fieldValues e)" sv "map snd (fieldValues e)" fs vs "[]" ok]
      src [OF assms(6)] src [OF assms(7)] t disj
    consider (ok) m' ps qs where "copyPairs ok sf sv fs vs 0 ?n m3 = Ok (True, m')" "tablesAt (cells m') fs vs ps qs 0"
        "list_all2 (strAt (cells m')) ps (map fst (fieldValues e))" "list_all2 (strAt (cells m')) qs (map snd (fieldValues e))"
        "fresh m3 m' (interleave ps qs)" "grows m3 m' ({fs, vs} \<union> set (interleave ps qs))"
      | (bad) m' S S' where "copyPairs ok sf sv fs vs 0 ?n m3 = Ok (False, m')" "\<exists>x. \<not> ok x" "wf_memory m'" "brk m3 \<le> brk m'"
        "cells m' fs = Some S" "cells m' vs = Some S'" "\<forall>x. x \<noteq> fs \<longrightarrow> x \<noteq> vs \<longrightarrow> cells m' x = cells m3 x"
      by auto blast
    then show ?thesis
    proof cases
      case ok
      let ?g = "interleave ps qs @ [fs, vs]"
      have keep: "cells m' x = cells m3 x" if "x < brk m" "x \<notin> {fs, vs}" for x
        using ok(5,6) that wf3(2) by (auto simp: grows_def fresh_def)
      have "entryAt (cells m') a (0, e) (i # interleave ps qs @ [fs, vs, a])"
      proof (rule entryAt.entry [OF assms(2) ft(1,2) _ _ _ _ ok(3,4)])
        show "cells m' a = Some (EntryO i fs vs (length ps) 0)" using keep [of a] a' below a3 list_all2_lengthD [OF ok(3)] by simp
        show "strAt (cells m') i (entryId e)" using keep [of i] old [of i] a' below i assms(4) by (simp add: strAt_def)
      qed (use ok(2) in \<open>auto simp: tablesAt_def\<close>)
      moreover have "fresh m m' ([fs, vs] @ interleave ps qs)"
        using fr ft wf3(2) ok(6) by (intro fresh_append [OF _ ok(5)]) (auto simp: fresh_def grows_def)
      then have "fresh m m' ?g" by (auto simp: fresh_def)
      moreover have "grows m m' (insert a (set ?g))" by (rule grows_trans [OF g ok(6)]) auto
      ultimately show ?thesis using run ft ok(1) by (intro disjI1 exI [of _ m'] exI [of _ ?g]) simp
    next
      case bad
      have "live (cells m') [fs, vs, i, a]" using bad(5-7) a' a3 old [of i] i by auto
      then have "frees [fs, vs, i, a] m' = Ok (discard (nz [fs, vs, i, a]) m')" using d by (intro frees_exact) auto
      moreover have "cells (discard (nz [fs, vs, i, a]) m') x = cells (discard [i, a] m) x" for x
        using fresh3 [of x] rest3 [of x] bad(7) [THEN spec, of x] ft i assms(2) by (auto split: if_splits)
      ultimately show ?thesis using run ft bad wf3(2) by (intro disjI2) (auto simp: fun_eq_iff simp del: frees.simps)
    qed
  qed
qed

text \<open>
  What building an entry may do: the entry lies in new blocks and nothing else changed, or some
  allocation failed, the result is NULL and the heap is as before.
\<close>

definition entryBuilt :: "(addr \<Rightarrow> bool) \<Rightarrow> Memory \<Rightarrow> StreamEntry \<Rightarrow> (addr \<times> Memory) run \<Rightarrow> bool" where
  "entryBuilt ok m e r \<longleftrightarrow>
     (\<exists>a m' g. r = Ok (a, m') \<and> entryAt (cells m') a (0, e) g \<and> fresh m m' g \<and> grows m m' (set g)) \<or>
     (\<exists>m'. r = Ok (0, m') \<and> (\<exists>x. \<not> ok x) \<and> wf_memory m' \<and> brk m \<le> brk m' \<and> cells m' = cells m)"

lemma fillEntry_built:
  assumes "grows m m2 {a, i}" and "fresh m m2 [i, a]" and "wf_memory m"
    and "a \<noteq> 0" and "cells m2 a = Some UnsetO" and "strAt (cells m2) i (entryId e)"
    and "srcAt (cells m2) sf 0 (map fst (fieldValues e))" and "srcAt (cells m2) sv 0 (map snd (fieldValues e))"
  shows "entryBuilt ok m e (fillEntry ok idFirst a i sf sv (length (fieldValues e)) m2)"
proof -
  have ia: "i \<noteq> a" "brk m \<le> brk m2" using assms(1,2) by (auto simp: fresh_def grows_def)
  consider (ok) m' g where "fillEntry ok idFirst a i sf sv (length (fieldValues e)) m2 = Ok (a, m')"
      "entryAt (cells m') a (0, e) (i # g @ [a])" "fresh m2 m' g" "grows m2 m' (insert a (set g))"
    | (bad) m' where "fillEntry ok idFirst a i sf sv (length (fieldValues e)) m2 = Ok (0, m')" "\<exists>x. \<not> ok x" "wf_memory m'" "brk m2 \<le> brk m'"
      "cells m' = cells (discard [i, a] m2)"
    using fillEntry_result [OF grows_wf [OF assms(1)] assms(4-6) ia(1) assms(7,8), of ok idFirst] by blast
  then show ?thesis
  proof cases
    case ok
    have "fresh m m' ([i, a] @ g)" using ok(4) ia by (intro fresh_append [OF assms(2) ok(3)]) (auto simp: grows_def)
    then have "fresh m m' (i # g @ [a])" by (auto simp: fresh_def)
    moreover have "grows m m' (set (i # g @ [a]))" by (rule grows_trans [OF assms(1) ok(4)]) auto
    ultimately show ?thesis using ok(1,2) unfolding entryBuilt_def by blast
  next
    case bad
    have "cells m' = cells m" using bad(5) discard_fresh [OF assms(3) _ assms(2)] assms(1) by (simp add: insert_commute)
    with bad ia show ?thesis unfolding entryBuilt_def by (metis order_trans)
  qed
qed

lemma srcAt_grows:
  assumes "srcAt (cells m) e i xs" and "wf_memory m" and "grows m m' G" and "\<And>x. x \<in> G \<Longrightarrow> cells m x = None"
  shows "srcAt (cells m') e i xs"
  using assms(1)
proof (rule srcAt_frame)
  have *: "cells m' x = cells m x" if "cells m x \<noteq> None" for x using assms(3,4) that unfolding grows_def by metis
  show "cells m' e = cells m e" using assms(1) by (intro *) (auto simp: srcAt_def)
  show "cells m' p = cells m p" if "cells m p = Some (CharsO s)" for p s using that by (intro *) simp
qed

lemma newEntry_built:
  assumes "wf_memory m" and "nul_free (entryId e)"
    and "srcAt (cells m) sf 0 (map fst (fieldValues e))" and "srcAt (cells m) sv 0 (map snd (fieldValues e))"
  shows "entryBuilt ok m e (newEntry ok (entryId e) sf sv (length (fieldValues e)) m)"
proof -
  obtain i m1 where i: "c_malloc ok (CharsO (entryId e @ [NUL])) m = (i, m1)" by (cases "c_malloc ok (CharsO (entryId e @ [NUL])) m")
  note g1 = grows_malloc [OF assms(1) i]
  obtain a m2 where a: "c_malloc ok UnsetO m1 = (a, m2)" by (cases "c_malloc ok UnsetO m1")
  note g2 = grows_malloc [OF grows_wf [OF g1 [THEN conjunct1]] a]
  have b: "0 < brk m" "cells m (brk m) = None" using assms(1) wf_memory_fresh [OF assms(1)] by (auto simp: wf_memory_def)
  consider "i = 0" | "i \<noteq> 0" "a = 0" | "i \<noteq> 0" "a \<noteq> 0" by blast
  then show ?thesis
  proof cases
    case 1
    with g1 b have "cells m1 = cells m" "\<not> ok (brk m)" "brk m \<le> brk m1" "wf_memory m1" by (auto simp: grows_def split: if_splits)
    with 1 show ?thesis by (auto simp: entryBuilt_def newEntry_def i)
  next
    case 2
    with g1 g2 b have e: "i = brk m" "cells m2 = (cells m)(i \<mapsto> CharsO (entryId e @ [NUL]))" "\<not> ok (brk m1)" "wf_memory m2" "brk m \<le> brk m2"
      by (auto simp: grows_def split: if_splits)
    then have "cells (discard [i] m2) = cells m" using b by (auto simp: fun_eq_iff)
    with 2 e show ?thesis by (auto simp: entryBuilt_def newEntry_def i a c_free_Some)
  next
    case 3
    with g1 g2 b have e: "i = brk m" "a = Suc (brk m)" "cells m2 = (cells m)(i \<mapsto> CharsO (entryId e @ [NUL]), a \<mapsto> UnsetO)"
        "wf_memory m2" "brk m2 = Suc (Suc (brk m))"
      by (auto simp: grows_def split: if_splits)
    have g: "grows m m2 {a, i}" using e by (auto simp: grows_def)
    have none: "cells m x = None" if "x \<in> {a, i}" for x using that e wf_memory_fresh [OF assms(1)] by auto
    have "entryBuilt ok m e (fillEntry ok False a i sf sv (length (fieldValues e)) m2)"
      by (rule fillEntry_built [OF g _ assms(1) 3(2)])
        (use e b(1) assms(2) srcAt_grows [OF assms(3) assms(1) g none] srcAt_grows [OF assms(4) assms(1) g none] in \<open>auto simp: fresh_def strAt_def\<close>)
    with 3 show ?thesis by (simp add: newEntry_def i a)
  qed
qed

lemma entryAt_sources:
  assumes "entryAt c a (nx, e) f"
  obtains i fs vs where "a \<noteq> 0" and "c a = Some (EntryO i fs vs (length (fieldValues e)) nx)" and "strAt c i (entryId e)"
    and "srcAt c fs 0 (map fst (fieldValues e))" and "srcAt c vs 0 (map snd (fieldValues e))"
  using assms
proof cases
  case (entry fs vs i ps qs)
  then show ?thesis using list_all2_lengthD [OF entry(9)] by (intro that [of i fs vs]) (auto simp: srcAt_def)
qed

lemma copyStreamEntryM_built:
  assumes "wf_memory m" and "entryAt (cells m) src (nx, e) f"
  shows "entryBuilt ok m e (copyStreamEntryM ok src m)"
proof -
  obtain sid sf sv where s: "src \<noteq> 0" "cells m src = Some (EntryO sid sf sv (length (fieldValues e)) nx)" "strAt (cells m) sid (entryId e)"
      "srcAt (cells m) sf 0 (map fst (fieldValues e))" "srcAt (cells m) sv 0 (map snd (fieldValues e))"
    using entryAt_sources [OF assms(2)] .
  obtain a m1 where a: "c_malloc ok UnsetO m = (a, m1)" by (cases "c_malloc ok UnsetO m")
  note g1 = grows_malloc [OF assms(1) a]
  obtain i m2 where i: "c_malloc ok (CharsO (entryId e @ [NUL])) m1 = (i, m2)" by (cases "c_malloc ok (CharsO (entryId e @ [NUL])) m1")
  note g2 = grows_malloc [OF grows_wf [OF g1 [THEN conjunct1]] i]
  have b: "0 < brk m" "cells m (brk m) = None" using assms(1) wf_memory_fresh [OF assms(1)] by (auto simp: wf_memory_def)
  have same: "cells m1 x = cells m x" if "cells m x \<noteq> None" for x using g1 that b by (auto split: if_splits)
  have "strAt (cells m1) sid (entryId e)" using s(3) same [of sid] by (simp add: strAt_def)
  then have run: "copyStreamEntryM ok src m =
      (if a = 0 then Ok (0, m1) else if i = 0 then bind_run (c_free a m2) (\<lambda>m3. Ok (0, m3))
       else fillEntry ok True a i sf sv (length (fieldValues e)) m2)"
    using s(1,2) same [of src] by (simp add: copyStreamEntryM_def a withEntry_def readCell_Some c_strdup_def loadString_strAt i)
  consider "a = 0" | "a \<noteq> 0" "i = 0" | "a \<noteq> 0" "i \<noteq> 0" by blast
  then show ?thesis
  proof cases
    case 1
    with g1 b have "cells m1 = cells m" "\<not> ok (brk m)" "brk m \<le> brk m1" "wf_memory m1" by (auto simp: grows_def split: if_splits)
    with 1 show ?thesis by (auto simp: entryBuilt_def run)
  next
    case 2
    with g1 g2 b have e: "a = brk m" "cells m2 = (cells m)(a \<mapsto> UnsetO)" "\<not> ok (brk m1)" "wf_memory m2" "brk m \<le> brk m2"
      by (auto simp: grows_def split: if_splits)
    then have "cells (discard [a] m2) = cells m" using b by (auto simp: fun_eq_iff)
    with 2 e show ?thesis by (auto simp: entryBuilt_def run c_free_Some)
  next
    case 3
    with g1 g2 b have e: "a = brk m" "i = Suc (brk m)" "cells m2 = (cells m)(a \<mapsto> UnsetO, i \<mapsto> CharsO (entryId e @ [NUL]))"
        "wf_memory m2" "brk m2 = Suc (Suc (brk m))"
      by (auto simp: grows_def split: if_splits)
    have g: "grows m m2 {a, i}" using e by (auto simp: grows_def)
    have none: "cells m x = None" if "x \<in> {a, i}" for x using that e wf_memory_fresh [OF assms(1)] by auto
    have "entryBuilt ok m e (fillEntry ok True a i sf sv (length (fieldValues e)) m2)"
      by (rule fillEntry_built [OF g _ assms(1) 3(1)])
        (use e b(1) s(3) srcAt_grows [OF s(4) assms(1) g none] srcAt_grows [OF s(5) assms(1) g none] in \<open>auto simp: fresh_def strAt_def\<close>)
    with 3 show ?thesis by (simp add: run)
  qed
qed

section \<open>Streams on the heap\<close>

text \<open>The entries from the one at \<open>a\<close> up to, not including, the one at \<open>z\<close>.\<close>

inductive segAt :: "cells \<Rightarrow> addr \<Rightarrow> addr \<Rightarrow> StreamEntry list \<Rightarrow> addr list \<Rightarrow> bool" for c a where
  seg_Nil: "segAt c a a [] []"
| seg_snoc: "segAt c a t es f \<Longrightarrow> entryAt c t (z, e) g \<Longrightarrow> segAt c a z (es @ [e]) (f @ g)"

inductive streamAt :: "cells \<Rightarrow> addr \<Rightarrow> Stream \<Rightarrow> addr list \<Rightarrow> bool" for c s where
  stream_empty: "s \<noteq> 0 \<Longrightarrow> c s = Some (StreamO 0 0) \<Longrightarrow> streamAt c s \<lparr>entries = []\<rparr> [s]"
| stream_entries:
    "s \<noteq> 0 \<Longrightarrow> c s = Some (StreamO h t) \<Longrightarrow> h \<noteq> 0 \<Longrightarrow> segAt c h t es f \<Longrightarrow> entryAt c t (0, e) g \<Longrightarrow>
     streamAt c s \<lparr>entries = es @ [e]\<rparr> (f @ g @ [s])"

lemma segAt_frame: "segAt c a z es f \<Longrightarrow> agree f c c' \<Longrightarrow> segAt c' a z es f"
  by (induction rule: segAt.induct) (auto intro: segAt.intros entryAt_frame)

lemma segAt_chain: "segAt c a z es f \<Longrightarrow> chainAt entryAt c z r g \<Longrightarrow> chainAt entryAt c a (es @ r) (f @ g)"
proof (induction arbitrary: r g rule: segAt.induct)
  case (seg_snoc t es f z e k)
  from seg_snoc.IH [OF chainAt.chain_Cons [OF seg_snoc.hyps(2) seg_snoc.prems]] show ?case by simp
qed simp

lemma streamAt_chain:
  "streamAt c s S f \<Longrightarrow> \<exists>h t g. s \<noteq> 0 \<and> c s = Some (StreamO h t) \<and> chainAt entryAt c h (entries S) g \<and> f = g @ [s]"
proof (induction rule: streamAt.induct)
  case (stream_entries h t es f e g)
  have "chainAt entryAt c t [e] (g @ [])" using chainAt.chain_Cons [where rep = entryAt, OF stream_entries.hyps(5) chainAt.chain_Nil] .
  from segAt_chain [OF stream_entries.hyps(4) this] stream_entries.hyps show ?case by auto
qed (auto intro: chainAt.intros)

lemma streamAt_live: "streamAt c s S f \<Longrightarrow> set f \<subseteq> dom c"
  using entry_mem.chain_live by (fastforce dest!: streamAt_chain)

lemma streamAt_frame: "streamAt c s S f \<Longrightarrow> agree f c c' \<Longrightarrow> streamAt c' s S f"
  by (induction rule: streamAt.induct) (auto intro: streamAt.intros segAt_frame entryAt_frame)

lemma freeStream_releasable: "streamAt c s S f \<Longrightarrow> releasable n (freeStreamWith n) c s S f"
proof (drule streamAt_chain, elim exE conjE)
  fix h t g assume s: "s \<noteq> 0" "c s = Some (StreamO h t)" and ch: "chainAt entryAt c h (entries S) g" and f: "f = g @ [s]"
  show ?thesis unfolding releasable_def f
  proof (intro allI impI)
    fix m :: Memory assume m: "agree (g @ [s]) c (cells m)" "distinct (g @ [s])" "length (g @ [s]) \<le> n"
    have "freeChain entryNext freeStreamEntry n h m = Ok (discard g m)"
      using m by (intro entry_mem.chain_exact [OF ch]) auto
    with s m show "freeStreamWith n s m = Ok (discard (g @ [s]) m)"
      by (simp add: freeStreamWith_def withStream_def freeEntries_def mem_simps)
  qed
qed

interpretation stream_mem: destructor streamAt freeStreamWith
  by unfold_locales (fact streamAt_frame streamAt_live freeStream_releasable)+

text \<open>Redirecting the \<^verbatim>\<open>next\<close> pointer of an entry, and linking a new entry behind the last one.\<close>

lemma entryAt_setNext:
  assumes "entryAt c t (nx, e) g" and "distinct g" and "c t = Some (EntryO i fs vs n nx)"
  shows "entryAt (c(t \<mapsto> EntryO i fs vs n a)) t (a, e) g"
  using assms(1)
proof cases
  case (entry fs' vs' i' ps qs)
  have eq: "fs' = fs" "vs' = vs" "i' = i" "length ps = n" using entry(5) assms(3) by auto
  have t: "t \<noteq> i" "t \<notin> set ps" "t \<notin> set qs" "t \<noteq> fs" "t \<noteq> vs"
    using assms(2) entry(1) eq set_interleave [OF pairs_length [OF entry(9,10)]] by auto
  let ?c = "c(t \<mapsto> EntryO i fs vs n a)"
  have "agree ps c ?c" "agree qs c ?c" using t by (auto simp: agree_def)
  then have "list_all2 (strAt ?c) ps (map fst (fieldValues e))" "list_all2 (strAt ?c) qs (map snd (fieldValues e))"
    using strs_frame entry(9,10) by blast+
  moreover have "strAt ?c i (entryId e)" using entry(6) eq t by (simp add: strAt_def)
  ultimately show ?thesis unfolding entry(1)
    using entry eq t by (intro entryAt.entry) auto
qed

lemma entryAt_object: "entryAt c t (nx, e) g \<Longrightarrow> \<exists>i fs vs n. t \<noteq> 0 \<and> c t = Some (EntryO i fs vs n nx)"
  by (erule entryAt.cases) auto

lemma setNext_result:
  assumes "entryAt (cells m) t (nx, e) g" and "distinct g" and "wf_memory m"
  obtains m' where "setNext t a m = Ok m'" and "entryAt (cells m') t (a, e) g" and "grows m m' {t}" and "brk m' = brk m"
proof -
  obtain i fs vs n where t: "t \<noteq> 0" "cells m t = Some (EntryO i fs vs n nx)" using entryAt_object [OF assms(1)] by auto
  let ?m = "m\<lparr>cells := (cells m)(t \<mapsto> EntryO i fs vs n a)\<rparr>"
  have "setNext t a m = Ok ?m" using t by (simp add: setNext_def withEntry_def mem_simps writeCell_Some)
  moreover have "entryAt (cells ?m) t (a, e) g" using entryAt_setNext [OF assms(1,2) t(2)] by simp
  ultimately show ?thesis using grows_write [OF assms(3) t(2)] by (intro that [of ?m]) auto
qed

lemma linkEntry_result:
  assumes "wf_memory m" and "streamAt (cells m) s S f" and "entryAt (cells m) a (0, e) g" and "distinct (f @ g)"
  obtains m' f' where "linkEntry s a m = Ok m'" and "streamAt (cells m') s (S\<lparr>entries := entries S @ [e]\<rparr>) f'"
    and "grows m m' (set f)" and "set f' = set f \<union> set g" and "distinct f'" and "brk m' = brk m"
  using assms(2)
proof cases
  case stream_empty
  let ?m = "m\<lparr>cells := (cells m)(s \<mapsto> StreamO a a)\<rparr>"
  have "linkEntry s a m = Ok ?m" using stream_empty by (simp add: linkEntry_def withStream_def mem_simps writeCell_Some)
  moreover have e: "entryAt (cells ?m) a (0, e) g"
    by (rule entryAt_frame [OF assms(3)]) (use assms(4) stream_empty in \<open>auto simp: agree_def\<close>)
  then have "streamAt (cells ?m) s \<lparr>entries = [] @ [e]\<rparr> ([] @ g @ [s])"
    using stream_empty entry_mem.rep_head [OF assms(3)] segAt.seg_Nil [of "cells ?m" a] by (intro streamAt.stream_entries [where h = a]) auto
  ultimately show ?thesis using assms(4) stream_empty grows_write [OF assms(1) stream_empty(4)]
    by (intro that [of ?m "g @ [s]"]) auto
next
  case (stream_entries h t es f0 e0 g0)
  have d: "distinct g0" "s \<notin> set (f0 @ g0 @ g)" "set f0 \<inter> set g0 = {}" "t \<in> set g0" "t \<notin> set g" "t \<noteq> s" "t \<notin> set f0"
    using assms(4) stream_entries(2) entry_mem.rep_head [OF stream_entries(7)] by auto
  obtain m1 where m1: "setNext t a m = Ok m1" "entryAt (cells m1) t (a, e0) g0" "grows m m1 {t}" "brk m1 = brk m"
    using setNext_result [OF stream_entries(7) d(1) assms(1)] .
  have s1: "cells m1 s = Some (StreamO h t)" using m1(3) d(6) stream_entries(4) by (simp add: grows_def)
  define m2 where "m2 = m1\<lparr>cells := (cells m1)(s \<mapsto> StreamO h a)\<rparr>"
  have g2: "grows m1 m2 {s}" unfolding m2_def using grows_wf [OF m1(3)] s1 by (rule grows_write)
  have run: "linkEntry s a m = Ok m2"
    using stream_entries m1(1) writeCell_Some [OF stream_entries(3) s1] by (simp add: linkEntry_def withStream_def mem_simps m2_def)
  have same: "cells m2 x = cells m x" if "x \<noteq> s" "x \<noteq> t" for x using m1(3) g2 that by (simp add: grows_def)
  have ag: "agree f0 (cells m) (cells m2)" "agree g (cells m) (cells m2)" unfolding agree_def using d same by (metis Un_iff set_append)+
  have "agree g0 (cells m1) (cells m2)" unfolding agree_def m2_def using d by auto
  then have "segAt (cells m2) h a (es @ [e0]) (f0 @ g0)"
    using segAt_frame [OF stream_entries(6) ag(1)] entryAt_frame [OF m1(2)] by (intro segAt.seg_snoc)
  moreover have "cells m2 s = Some (StreamO h a)" by (simp add: m2_def)
  ultimately have "streamAt (cells m2) s \<lparr>entries = (es @ [e0]) @ [e]\<rparr> ((f0 @ g0) @ g @ [s])"
    using stream_entries(3,5) entryAt_frame [OF assms(3) ag(2)] by (intro streamAt.stream_entries)
  moreover have "grows m m2 (set f)" by (rule grows_trans [OF m1(3) g2]) (use d stream_entries(2) in auto)
  ultimately show ?thesis using run assms(4) m1(4) stream_entries(1,2)
    by (intro that [of m2 "(f0 @ g0) @ g @ [s]"]) (auto simp: m2_def)
qed

section \<open>Appending to a stream\<close>

lemma tail_only:
  assumes "map_option entryId (stream_tail T) = map_option entryId (stream_tail S)"
  shows "resolveID now T i = resolveID now S i" and "isValidNextID now T p = isValidNextID now S p"
  using assms by (auto simp: resolveID_def getNextSequence_def isValidNextID_def split: option.splits)

lemma tailView_result:
  assumes "streamAt (cells m) s S f"
  obtains T where "tailView s m = Ok T" and "map_option entryId (stream_tail T) = map_option entryId (stream_tail S)"
  using assms
proof cases
  case stream_empty
  then show ?thesis by (intro that [of "\<lparr>entries = []\<rparr>"]) (auto simp: tailView_def withStream_def mem_simps)
next
  case (stream_entries h t es f0 e g)
  obtain i fs vs where t: "t \<noteq> 0" "cells m t = Some (EntryO i fs vs (length (fieldValues e)) 0)" "strAt (cells m) i (entryId e)"
    using entryAt_sources [OF stream_entries(7)] .
  then show ?thesis using stream_entries
    by (intro that [of "\<lparr>entries = [\<lparr>entryId = entryId e, fieldValues = []\<rparr>]\<rparr>"])
      (auto simp: tailView_def withStream_def withEntry_def mem_simps loadString_strAt stream_tail_def)
qed

text \<open>A new string, or NULL: what the caller gets back, and nothing else changes.\<close>

lemma malloc_string:
  assumes "wf_memory m" and "c_malloc ok (CharsO (x @ [NUL])) m = (p, m')" and "nul_free x"
  shows "grows m m' (set (nz [p])) \<and> fresh m m' (nz [p]) \<and> (p \<noteq> 0 \<longrightarrow> strAt (cells m') p x) \<and> (p = 0 \<longrightarrow> \<not> ok (brk m))"
proof -
  note g = grows_malloc [OF assms(1,2)]
  have "0 < brk m" using assms(1) by (simp add: wf_memory_def)
  with g assms(3) show ?thesis by (auto simp: grows_def fresh_def strAt_def split: if_splits)
qed

lemma return_string:
  assumes "wf_memory m" and "streamAt (cells m) s S f" and "c_malloc ok (CharsO (x @ [NUL])) m = (p, m')" and "nul_free x"
  shows "streamAt (cells m') s S f \<and> (distinct f \<longrightarrow> distinct (nz [p] @ f)) \<and> cells (discard (nz [p] @ f) m') = cells (discard f m) \<and>
    (p \<noteq> 0 \<longrightarrow> strAt (cells m') p x) \<and> (p = 0 \<longrightarrow> (\<exists>a. \<not> ok a))"
proof -
  have g: "grows m m' (set (nz [p]))" "fresh m m' (nz [p])" and str: "p \<noteq> 0 \<longrightarrow> strAt (cells m') p x" "p = 0 \<longrightarrow> \<not> ok (brk m)"
    using malloc_string [OF assms(1,3,4)] by auto
  have disj: "set f \<inter> set (nz [p]) = {}"
    using live_below_set [OF assms(1) streamAt_live [OF assms(2)]] fresh_not_old [OF g(2)] by blast
  then have "streamAt (cells m') s S f" by (intro streamAt_frame [OF assms(2)] grows_agree [OF g(1)])
  moreover have "cells (discard (nz [p] @ f) m') x = cells (discard f m) x" for x
    using fun_cong [OF discard_fresh [OF assms(1) g], of x] by auto
  moreover have "distinct f \<longrightarrow> distinct (nz [p] @ f)" using g(2) disj by (auto simp: fresh_def)
  ultimately show ?thesis using str by blast
qed

text \<open>An entry that was built is linked to the stream.\<close>

lemma append_built:
  assumes "wf_memory m" and "streamAt (cells m) s S f" and "distinct f"
    and "entryAt (cells m1) a (0, e) g" and "fresh m m1 g" and "grows m m1 (set g)"
  obtains m' f' where "linkEntry s a m1 = Ok m'" and "streamAt (cells m') s (S\<lparr>entries := entries S @ [e]\<rparr>) f'"
    and "distinct f'" and "wf_memory m'" and "cells (discard f' m') = cells (discard f m)"
proof -
  have disj: "set f \<inter> set g = {}"
    using live_below_set [OF assms(1) streamAt_live [OF assms(2)]] fresh_not_old [OF assms(5)] by blast
  have at: "streamAt (cells m1) s S f" by (intro streamAt_frame [OF assms(2)] grows_agree [OF assms(6)] disj)
  have "distinct (f @ g)" using assms(3,5) disj by (simp add: fresh_def)
  then obtain m' f' where l: "linkEntry s a m1 = Ok m'" "streamAt (cells m') s (S\<lparr>entries := entries S @ [e]\<rparr>) f'"
      "grows m1 m' (set f)" "set f' = set f \<union> set g" "distinct f'"
    using linkEntry_result [OF grows_wf [OF assms(6)] at assms(4)] by metis
  have "cells (discard f' m') x = cells (discard f m) x" for x
    using l(3,4) fun_cong [OF discard_fresh [OF assms(1,6,5)], of x] by (auto simp: grows_def)
  then show ?thesis using that l grows_wf [OF l(3)] by blast
qed

lemma generateStreamID_nul_free: "nul_free (generateStreamID a b)"
  by (simp add: generateStreamID_def nul_free_take)

lemma xadd_errors_nul_free: "nul_free err_zero_id" "nul_free err_small_id"
  by (simp_all add: err_zero_id_def err_small_id_def)

definition appendOutcome ::
  "(addr \<Rightarrow> bool) \<Rightarrow> Memory \<Rightarrow> addr \<Rightarrow> addr list \<Rightarrow> Stream \<times> bool \<Rightarrow> Stream \<times> bool \<times> string option \<Rightarrow> (addr \<times> bool \<times> Memory) run \<Rightarrow> bool" where
  "appendOutcome ok m s f old new r \<longleftrightarrow>
     (case old of (S, hn) \<Rightarrow> case new of (S', hn', reply) \<Rightarrow>
      \<exists>x hn2 S2 m' f'. r = Ok (x, hn2, m') \<and>
        streamAt (cells m') s S2 f' \<and> distinct (nz [x] @ f') \<and> (S2 = S \<and> hn2 = hn \<or> S2 = S' \<and> hn2 = hn') \<and>
        (x \<noteq> 0 \<longrightarrow> S2 = S' \<and> (\<exists>t. reply = Some t \<and> strAt (cells m') x t)) \<and>
        ((\<forall>a. ok a) \<longrightarrow> S2 = S' \<and> hn2 = hn' \<and> (x = 0 \<longleftrightarrow> reply = None)) \<and>
        cells (discard (nz [x] @ f') m') = cells (discard f m))"

lemma appendOutcomeI:
  assumes "r = Ok (x, hn2, m')" and "streamAt (cells m') s S2 f'" and "distinct (nz [x] @ f')" and "S2 = S \<and> hn2 = hn \<or> S2 = S' \<and> hn2 = hn'"
    and "x \<noteq> 0 \<longrightarrow> S2 = S' \<and> (\<exists>t. reply = Some t \<and> strAt (cells m') x t)"
    and "(\<forall>a. ok a) \<longrightarrow> S2 = S' \<and> hn2 = hn' \<and> (x = 0 \<longleftrightarrow> reply = None)"
    and "cells (discard (nz [x] @ f') m') = cells (discard f m)"
  shows "appendOutcome ok m s f (S, hn) (S', hn', reply) r"
  unfolding appendOutcome_def prod.case by (intro exI conjI) (fact assms)+

lemma streamAddM_rejected:
  assumes "wf_memory m" and "streamAt (cells m) s S f" and "distinct f" and "nul_free t"
  shows "appendOutcome ok m s f (S, hn) (S, hn, Some t) (case c_malloc ok (CharsO (t @ [NUL])) m of (x, m1) \<Rightarrow> Ok (x, hn, m1))"
proof -
  obtain x m1 where x: "c_malloc ok (CharsO (t @ [NUL])) m = (x, m1)" by (cases "c_malloc ok (CharsO (t @ [NUL])) m")
  have run: "(case c_malloc ok (CharsO (t @ [NUL])) m of (x, m1) \<Rightarrow> Ok (x, hn, m1)) = Ok (x, hn, m1)"
    unfolding x by simp
  note ret = return_string [OF assms(1,2) x assms(4)]
  have "distinct (nz [x] @ f)" using ret assms(3) by blast
  then show ?thesis by (rule appendOutcomeI [OF run ret [THEN conjunct1]]) (use ret in blast)+
qed

lemma streamAddM_accepted:
  assumes "wf_memory m" and "streamAt (cells m) s S f" and "distinct f" and "nul_free (entryId e)"
    and "srcAt (cells m) sf 0 (map fst (fieldValues e))" and "srcAt (cells m) sv 0 (map snd (fieldValues e))"
  shows "appendOutcome ok m s f (S, hn) (S\<lparr>entries := entries S @ [e]\<rparr>, True, Some (entryId e))
    (bind_run (newEntry ok (entryId e) sf sv (length (fieldValues e)) m) (\<lambda>(a, m1).
       if a = 0 then Ok (0, hn, m1) else bind_run (linkEntry s a m1) (\<lambda>m2.
         case c_malloc ok (CharsO (entryId e @ [NUL])) m2 of (x, m3) \<Rightarrow> Ok (x, True, m3))))"
proof -
  from newEntry_built [OF assms(1,4-6), of ok]
  consider (ok) a m1 g where "newEntry ok (entryId e) sf sv (length (fieldValues e)) m = Ok (a, m1)" "entryAt (cells m1) a (0, e) g"
      "fresh m m1 g" "grows m m1 (set g)"
    | (bad) m1 where "newEntry ok (entryId e) sf sv (length (fieldValues e)) m = Ok (0, m1)" "\<exists>x. \<not> ok x" "cells m1 = cells m"
    unfolding entryBuilt_def by blast
  then show ?thesis
  proof cases
    case ok
    obtain m2 f' where m2: "linkEntry s a m1 = Ok m2" "streamAt (cells m2) s (S\<lparr>entries := entries S @ [e]\<rparr>) f'" "distinct f'" "wf_memory m2"
        "cells (discard f' m2) = cells (discard f m)"
      using append_built [OF assms(1-3) ok(2-4)] .
    obtain x m3 where x: "c_malloc ok (CharsO (entryId e @ [NUL])) m2 = (x, m3)" by (cases "c_malloc ok (CharsO (entryId e @ [NUL])) m2")
    have "a \<noteq> 0" using entry_mem.rep_head [OF ok(2)] by simp
    with ok(1) m2(1) x have run: "bind_run (newEntry ok (entryId e) sf sv (length (fieldValues e)) m) (\<lambda>(a, m1).
       if a = 0 then Ok (0, hn, m1) else bind_run (linkEntry s a m1) (\<lambda>m2.
         case c_malloc ok (CharsO (entryId e @ [NUL])) m2 of (x, m3) \<Rightarrow> Ok (x, True, m3))) = Ok (x, True, m3)" by simp
    have ret: "streamAt (cells m3) s (S\<lparr>entries := entries S @ [e]\<rparr>) f'" "distinct (nz [x] @ f')" "cells (discard (nz [x] @ f') m3) = cells (discard f m)"
        "x \<noteq> 0 \<longrightarrow> strAt (cells m3) x (entryId e)" "x = 0 \<longrightarrow> (\<exists>a. \<not> ok a)"
      using return_string [OF m2(4,2) x assms(4)] m2(3) unfolding m2(5) by blast+
    show ?thesis by (rule appendOutcomeI [OF run ret(1,2) _ _ _ ret(3)]) (use ret(4,5) in blast)+
  next
    case bad
    have "cells (discard (nz [0] @ f) m1) = cells (discard f m)" using bad(3) by (simp add: discard_def)
    then show ?thesis using bad(2,3) assms(2,3)
      by (intro appendOutcomeI [of _ 0 hn m1 s S f]) (simp add: bad(1), simp, simp, blast+)
  qed
qed

lemma streamAddM_outcome:
  assumes "wf_memory m" and "streamAt (cells m) s S f" and "distinct f"
    and "srcAt (cells m) sf 0 (map fst fvs)" and "srcAt (cells m) sv 0 (map snd fvs)"
    and "streamAdd always now hn S i fvs = Ok (S', hn', r)"
  shows "appendOutcome ok m s f (S, hn) (S', hn', r) (streamAddM ok now hn s i sf sv (length fvs) m)"
proof -
  obtain T where T: "tailView s m = Ok T" "map_option entryId (stream_tail T) = map_option entryId (stream_tail S)"
    using tailView_result [OF assms(2)] .
  note same = tail_only [OF T(2)]
  from assms(6) obtain q where q: "resolveID now S i = Ok q" by (cases "resolveID now S i") (auto simp: streamAdd_def)
  show ?thesis
  proof (cases q)
    case None
    with assms(2,3,6) q show ?thesis
      by (intro appendOutcomeI [of _ 0 hn m s S f]) (auto simp: streamAddM_def streamAdd_def T same)
  next
    case (Some p)
    let ?e = "\<lparr>entryId = generateStreamID (ms p) (seq p), fieldValues = fvs\<rparr>"
    note ok = streamAddM_accepted [OF assms(1-3), of ?e sf sv ok hn, unfolded StreamEntry.select_convs, OF generateStreamID_nul_free assms(4,5)]
    show ?thesis
    proof (cases "isValidNextID now S p")
      case True
      then have "S' = S\<lparr>entries := entries S @ [?e]\<rparr>" "hn' = True" "r = Some (generateStreamID (ms p) (seq p))"
        using assms(6) q Some by (auto simp: streamAdd_def Let_def strdups_ok_def strdup_ok_def list_all_iff)
      with ok q Some True show ?thesis by (simp only: streamAddM_def T(1) same Let_def bind_run.simps option.case not_True_eq_False if_False)
    next
      case False
      let ?t = "if ms p = 0 \<and> seq p = 0 then err_zero_id else err_small_id"
      have "S' = S" "hn' = hn" "r = Some ?t" using assms(6) q Some False by (auto simp: streamAdd_def)
      moreover have "nul_free ?t" by (simp add: xadd_errors_nul_free)
      ultimately show ?thesis using q Some False streamAddM_rejected [OF assms(1-3), of ?t]
        by (simp only: streamAddM_def T(1) same bind_run.simps option.case not_False_eq_True if_True)
    qed
  qed
qed

text \<open>
  C15. Appending to a stream on the heap is atomic and does not leak, whatever allocations fail:
  \<^verbatim>\<open>streamAdd\<close> returns, and afterwards the stream is unchanged or it is the stream of values with the
  new entry linked behind the last one; the blocks of the stream and the returned string account
  for all of the heap that was not there before, so that every block allocated on the way to a
  failure has been freed. When no allocation fails the stream, the flag that wakes the readers and
  the reply are those of the append on values.
\<close>

theorem streamAddM_refines:
  assumes "wf_memory m" and "streamAt (cells m) s S f" and "distinct f"
    and "srcAt (cells m) sf 0 (map fst fvs)" and "srcAt (cells m) sv 0 (map snd fvs)"
    and "streamAdd always now hn S i fvs = Ok (S', hn', r)"
  shows "\<exists>x hn2 S2 m' f'. streamAddM ok now hn s i sf sv (length fvs) m = Ok (x, hn2, m') \<and>
    streamAt (cells m') s S2 f' \<and> distinct (nz [x] @ f') \<and> (S2 = S \<and> hn2 = hn \<or> S2 = S' \<and> hn2 = hn') \<and>
    (x \<noteq> 0 \<longrightarrow> S2 = S' \<and> (\<exists>t. r = Some t \<and> strAt (cells m') x t)) \<and>
    ((\<forall>a. ok a) \<longrightarrow> S2 = S' \<and> hn2 = hn' \<and> (x = 0 \<longleftrightarrow> r = None)) \<and>
    cells (discard (nz [x] @ f') m') = cells (discard f m)"
  using streamAddM_outcome [OF assms] unfolding appendOutcome_def prod.case .

text \<open>The append moves the heap forward, so it exchanges the blocks of the stream.\<close>

lemma advances_frees [advancing]: "frees as m = Ok m' \<Longrightarrow> advances m m'"
  by (induction as arbitrary: m) (auto simp: bind_run_Ok_iff dest: advancing intro: advances_trans)

lemma advances_freePairs [advancing]: "freePairs fs vs i k m = Ok m' \<Longrightarrow> advances m m'"
  by (induction k arbitrary: i m) (auto simp: bind_run_Ok_iff dest!: advances_free intro: advances_trans)

lemma advances_dupSlot [advancing]: "dupSlot ok sf fs i m = Ok (x, m') \<Longrightarrow> advances m m'"
  by (auto simp: dupSlot_def bind_run_Ok_iff dest!: advances_strdup advances_writeSlot intro: advances_trans)

lemma advances_copyPairs: "copyPairs ok sf sv fs vs i k m = Ok (r, m') \<Longrightarrow> advances m m'"
  by (induction k arbitrary: i m)
    (auto simp: bind_run_Ok_iff simp del: freePairs.simps dest!: advances_dupSlot advances_freePairs intro: advances_trans split: if_splits)

lemma advances_fillEntry: "advRun snd m (fillEntry ok idFirst a i sf sv n m)"
proof -
  have free: "advRun snd m1 (bind_run (frees as m1) (\<lambda>m2. Ok (x, m2)))" for m1 as and x :: addr
    using advances_frees by (intro advRun_bind) simp
  show ?thesis unfolding fillEntry_def
    by (auto simp del: frees.simps dest!: advances_malloc advances_write advances_copyPairs
        intro!: advRun_bind advRun_from [OF _ free] split: prod.split) (meson advances_trans)+
qed

lemma advances_newEntry: "advRun snd m (newEntry ok finalId sf sv n m)"
  unfolding newEntry_def
  by (auto dest!: advances_malloc advances_free intro!: advRun_bind advRun_from [OF _ advances_fillEntry] split: prod.split)
    (meson advances_trans)+

lemma advances_setNext [advancing]: "setNext t a m = Ok m' \<Longrightarrow> advances m m'"
  by (cases "readCell t m") (auto simp: setNext_def withEntry_def dest: advances_write split: object.splits)

lemma advances_linkEntry [advancing]: "linkEntry s a m = Ok m' \<Longrightarrow> advances m m'"
  by (cases "readCell s m")
    (auto simp: linkEntry_def withStream_def bind_run_Ok_iff dest!: advances_write advances_setNext intro: advances_trans split: object.splits if_splits)

lemma advances_streamAddM: "advRun (\<lambda>r. snd (snd r)) m (streamAddM ok now hn s i sf sv n m)"
  unfolding streamAddM_def Let_def
  by (auto dest!: advances_malloc advances_linkEntry intro!: advRun_bind advRun_step [OF advances_newEntry]
      split: option.split prod.split) (meson advances_trans)+

section \<open>Collecting copies\<close>

text \<open>The list of copies so far: its first and last entry, and its blocks.\<close>

inductive copiesAt :: "cells \<Rightarrow> addr \<Rightarrow> addr \<Rightarrow> StreamEntry list \<Rightarrow> addr list \<Rightarrow> bool" for c where
  copies_none: "copiesAt c 0 t [] []"
| copies_some: "res \<noteq> 0 \<Longrightarrow> segAt c res t es f \<Longrightarrow> entryAt c t (0, e) g \<Longrightarrow> copiesAt c res t (es @ [e]) (f @ g)"

lemma copiesAt_chain: "copiesAt c res t rs g \<Longrightarrow> chainAt entryAt c res rs g"
proof (induction rule: copiesAt.induct)
  case (copies_some res t es f e g)
  have "chainAt entryAt c t [e] (g @ [])" using chainAt.chain_Cons [where rep = entryAt, OF copies_some(3) chainAt.chain_Nil] .
  from segAt_chain [OF copies_some(2) this] show ?case by simp
qed (rule chainAt.intros)

lemma copiesAt_live: "copiesAt c res t rs g \<Longrightarrow> set g \<subseteq> dom c"
  using copiesAt_chain entry_mem.chain_live by blast

lemma copiesAt_frame: "copiesAt c res t rs g \<Longrightarrow> agree g c c' \<Longrightarrow> copiesAt c' res t rs g"
  by (induction rule: copiesAt.induct) (auto intro: copiesAt.intros segAt_frame entryAt_frame)

text \<open>\<^verbatim>\<open>if (!result) result = newEntry; else resultTail->next = newEntry;\<close> with \<^verbatim>\<open>resultTail = newEntry\<close>.\<close>

lemma copies_link:
  assumes "wf_memory m" and "copiesAt (cells m) res t rs g" and "distinct (g @ h)" and "entryAt (cells m) a (0, e) h"
  shows "\<exists>m'. (if res = 0 then Ok m else setNext t a m) = Ok m' \<and> copiesAt (cells m') (if res = 0 then a else res) a (rs @ [e]) (g @ h) \<and>
    grows m m' (set g) \<and> brk m' = brk m"
  using assms(2)
proof cases
  case copies_none
  have "copiesAt (cells m) a a ([] @ [e]) ([] @ h)"
    using entry_mem.rep_head [OF assms(4)] segAt.seg_Nil assms(4) by (intro copiesAt.copies_some) auto
  with copies_none assms(1) show ?thesis by simp
next
  case (copies_some es f e0 g0)
  have d: "distinct g0" "t \<in> set g0" "t \<notin> set h" "t \<notin> set f"
    using assms(3) copies_some entry_mem.rep_head [OF copies_some(5)] by auto
  obtain m' where m': "setNext t a m = Ok m'" "entryAt (cells m') t (a, e0) g0" "grows m m' {t}" "brk m' = brk m"
    using setNext_result [OF copies_some(5) d(1) assms(1)] .
  have "agree f (cells m) (cells m')" "agree h (cells m) (cells m')" using d by (auto intro!: grows_agree [OF m'(3)])
  then have "copiesAt (cells m') res a ((es @ [e0]) @ [e]) ((f @ g0) @ h)"
    using m'(2) copies_some(3) segAt_frame [OF copies_some(4)] entryAt_frame [OF assms(4)]
    by (intro copiesAt.copies_some segAt.seg_snoc)
  moreover have "grows m m' (set g)" using m'(3) d(2) copies_some(2) by (auto intro: grows_mono)
  ultimately show ?thesis using m'(1,4) copies_some by auto
qed

lemma collectM_step:
  assumes "entryAt (cells m) cur (nx, e) f"
  shows "collectM ok now P (Suc k) cur res t cnt m =
    (case parseStreamID now (entryId e) of
       None \<Rightarrow> collectM ok now P k nx res t cnt m
     | Some j \<Rightarrow>
         if P j then
           bind_run (copyStreamEntryM ok cur m) (\<lambda>(a, m1).
             if a = 0 then Ok (res, cnt, m1)
             else bind_run (if res = 0 then Ok m1 else setNext t a m1) (collectM ok now P k nx (if res = 0 then a else res) a (Suc cnt)))
         else collectM ok now P k nx res t cnt m)"
proof -
  obtain i fs vs where s: "cur \<noteq> 0" "cells m cur = Some (EntryO i fs vs (length (fieldValues e)) nx)" "strAt (cells m) i (entryId e)"
    using entryAt_sources [OF assms] .
  then show ?thesis by (simp add: withEntry_def mem_simps loadString_strAt)
qed

lemma collectM_acc:
  assumes "chainAt entryAt (cells m0) cur es f" and "wf_memory m0" and "length es \<le> k"
    and "fresh m0 m g" and "grows m0 m (set g)" and "copiesAt (cells m) res t rs g"
  shows "\<exists>res' m' xs t' g'. collectM ok now P k cur res t (length rs) m = Ok (res', length (rs @ xs), m') \<and>
    copiesAt (cells m') res' t' (rs @ xs) g' \<and> fresh m0 m' g' \<and> grows m0 m' (set g') \<and>
    prefix xs (collectEntries always now P es) \<and> ((\<forall>a. ok a) \<longrightarrow> xs = collectEntries always now P es)"
  using assms
proof (induction arbitrary: k m g res t rs rule: chainAt.induct)
  case chain_Nil
  then show ?case
    by (cases k) (intro exI [of _ res] exI [of _ m] exI [of _ "[]"] exI [of _ t] exI [of _ g]; simp)+
next
  case (chain_Cons cur nx e f es f')
  note prems = chain_Cons.prems
  obtain k' where k: "k = Suc k'" "length es \<le> k'" using prems(2) by (cases k) auto
  have "set f \<inter> set g = {}"
    using live_below_set [OF prems(1) entryAt_live [OF chain_Cons.hyps(1)]] fresh_not_old [OF prems(3)] by blast
  then have e: "entryAt (cells m) cur (nx, e) f" by (intro entryAt_frame [OF chain_Cons.hyps(1)] grows_agree [OF prems(4)])
  note step = collectM_step [OF e, of ok now P k' res t "length rs"]
  show ?case
  proof (cases "\<exists>j. parseStreamID now (entryId e) = Some j \<and> P j")
    case False
    then have "collectM ok now P k cur res t (length rs) m = collectM ok now P k' nx res t (length rs) m"
      "collectEntries always now P (e # es) = collectEntries always now P es"
      unfolding k(1) step by (auto split: option.split)
    then show ?thesis using chain_Cons.IH [OF prems(1) k(2) prems(3-5)] by simp
  next
    case True
    then have ce: "collectEntries always now P (e # es) = e # collectEntries always now P es"
      by (auto simp: copyStreamEntry_def strdup_ok_def strdups_ok_def list_all_iff)
    have run: "collectM ok now P k cur res t (length rs) m = bind_run (copyStreamEntryM ok cur m) (\<lambda>(a, m1).
        if a = 0 then Ok (res, length rs, m1)
        else bind_run (if res = 0 then Ok m1 else setNext t a m1) (collectM ok now P k' nx (if res = 0 then a else res) a (Suc (length rs))))"
      unfolding k(1) step using True by (auto split: option.split)
    from copyStreamEntryM_built [OF grows_wf [OF prems(4)] e, of ok]
    consider (ok) a m1 h where "copyStreamEntryM ok cur m = Ok (a, m1)" "entryAt (cells m1) a (0, e) h" "fresh m m1 h" "grows m m1 (set h)"
      | (bad) m1 where "copyStreamEntryM ok cur m = Ok (0, m1)" "\<exists>x. \<not> ok x" "wf_memory m1" "brk m \<le> brk m1" "cells m1 = cells m"
      unfolding entryBuilt_def by blast
    then show ?thesis
    proof cases
      case bad
      have "fresh m0 m1 g" "grows m0 m1 (set g)" using prems(3,4) bad by (auto simp: fresh_def grows_def)
      then show ?thesis using run bad prems(5)
        by (intro exI [of _ res] exI [of _ m1] exI [of _ "[]"] exI [of _ t] exI [of _ g]) auto
    next
      case ok
      have gh: "set g \<inter> set h = {}" by (rule fresh_disjoint [OF prems(3) ok(3)])
      have cp: "copiesAt (cells m1) res t rs g" by (intro copiesAt_frame [OF prems(5)] grows_agree [OF ok(4)] gh)
      have "distinct (g @ h)" using prems(3) ok(3) gh by (simp add: fresh_def)
      from copies_link [OF grows_wf [OF ok(4)] cp this ok(2)]
      obtain m2 where m2: "(if res = 0 then Ok m1 else setNext t a m1) = Ok m2"
          "copiesAt (cells m2) (if res = 0 then a else res) a (rs @ [e]) (g @ h)" "grows m1 m2 (set g)" "brk m2 = brk m1" by blast
      have "grows m m2 (set (g @ h))" by (rule grows_trans [OF ok(4) m2(3)]) auto
      then have gr: "grows m0 m2 (set (g @ h))" by (rule grows_trans [OF prems(4)]) auto
      have fr: "fresh m0 m2 (g @ h)"
        using prems(4) ok(3) m2(4) \<open>grows m m2 (set (g @ h))\<close> by (intro fresh_append [OF prems(3)]) (auto simp: grows_def fresh_def)
      from chain_Cons.IH [OF prems(1) k(2) fr gr m2(2)]
      obtain res' m' xs t' g' where r: "collectM ok now P k' nx (if res = 0 then a else res) a (length (rs @ [e])) m2 = Ok (res', length ((rs @ [e]) @ xs), m')"
          "copiesAt (cells m') res' t' ((rs @ [e]) @ xs) g'" "fresh m0 m' g'" "grows m0 m' (set g')"
          "prefix xs (collectEntries always now P es)" "(\<forall>a. ok a) \<longrightarrow> xs = collectEntries always now P es" by blast
      have "collectM ok now P k cur res t (length rs) m = Ok (res', length (rs @ (e # xs)), m')"
        using run ok(1) entry_mem.rep_head [OF ok(2)] m2(1) r(1) by simp
      moreover have "prefix (e # xs) (collectEntries always now P (e # es))" unfolding ce using r(5) by simp
      ultimately show ?thesis using r(2-4,6) ce
        by (intro exI [of _ res'] exI [of _ m'] exI [of _ "e # xs"] exI [of _ t'] exI [of _ g']) simp
    qed
  qed
qed

text \<open>
  What a query on the heap may return for the copies \<open>ys\<close> and the count \<open>n\<close> of the query on values: a
  list of copies in new blocks, all of them unless an allocation failed and then the first ones.
\<close>

definition queryResult ::
  "(addr \<Rightarrow> bool) \<Rightarrow> Memory \<Rightarrow> StreamEntry list \<times> nat option \<Rightarrow> (addr \<times> nat option \<times> Memory) run \<Rightarrow> bool" where
  "queryResult ok m q r \<longleftrightarrow>
     (\<exists>res m' xs g. r = Ok (res, map_option (\<lambda>_. length xs) (snd q), m') \<and> chainAt entryAt (cells m') res xs g \<and>
        prefix xs (fst q) \<and> ((\<forall>a. ok a) \<longrightarrow> xs = fst q) \<and> fresh m m' g \<and> grows m m' (set g))"

lemma queryResult_none: "wf_memory m \<Longrightarrow> queryResult ok m ([], None) (Ok (0, None, m))"
  unfolding queryResult_def by (intro exI [of _ 0] exI [of _ m] exI [of _ "[]"]) (simp add: chainAt.intros fresh_def)

lemma chain_length: "chainAt entryAt c a es f \<Longrightarrow> length es \<le> length f"
proof (induction rule: chainAt.induct)
  case (chain_Cons a nx v f vs g)
  then show ?case using entry_mem.rep_head [OF chain_Cons.hyps(1)] by (cases f) auto
qed simp

lemma collectStream_result:
  assumes "wf_memory m" and "streamAt (cells m) s S f" and "distinct f"
  shows "queryResult ok m (collectEntries always now P (entries S), Some (length (collectEntries always now P (entries S))))
    (collectStream ok now P s m)"
proof -
  obtain h t g where s: "s \<noteq> 0" "cells m s = Some (StreamO h t)" and ch: "chainAt entryAt (cells m) h (entries S) g" and f: "f = g @ [s]"
    using streamAt_chain [OF assms(2)] by blast
  have "length (entries S) \<le> brk m"
    using chain_length [OF ch] footprint_bound [OF assms(1) streamAt_live [OF assms(2)] assms(3)] f by simp
  moreover have "fresh m m []" by (simp add: fresh_def)
  ultimately obtain res m' xs t' g' where r: "collectM ok now P (brk m) h 0 0 0 m = Ok (res, length xs, m')" "copiesAt (cells m') res t' xs g'"
      "fresh m m' g'" "grows m m' (set g')" "prefix xs (collectEntries always now P (entries S))"
      "(\<forall>a. ok a) \<longrightarrow> xs = collectEntries always now P (entries S)"
    using collectM_acc [OF ch assms(1) _ _ grows_refl [OF assms(1)] copiesAt.copies_none [of _ 0], where k = "brk m" and ok = ok and now = now and P = P, unfolded append_Nil list.size]
    by blast
  then show ?thesis unfolding queryResult_def using s copiesAt_chain [OF r(2)]
    by (intro exI [of _ res] exI [of _ m'] exI [of _ xs] exI [of _ g']) (simp add: collectStream_def withStream_def mem_simps)
qed

text \<open>
  C19. \<^verbatim>\<open>streamRange\<close> and \<^verbatim>\<open>streamRead\<close> hand out copies: under any pattern of failing allocations they
  return a list of copies of the entries that the queries on values select, all of them unless an
  allocation failed and then a prefix; the copies lie in new blocks, so freeing them with
  \<^verbatim>\<open>freeStreamEntry\<close> gives back exactly the heap before the query, with the stream unharmed.
\<close>

theorem stream_queries_copy:
  assumes "wf_memory m" and "streamAt (cells m) s S f" and "distinct f"
    and "r = streamRangeM ok now s start end m \<and> q = streamRange always now S start end \<or>
         r = streamReadM ok now s start m \<and> q = streamRead always now S start"
  shows "\<exists>res m' m2 xs g. r = Ok (res, map_option (\<lambda>_. length xs) (snd q), m') \<and> chainAt entryAt (cells m') res xs g \<and>
    prefix xs (fst q) \<and> ((\<forall>a. ok a) \<longrightarrow> xs = fst q) \<and> streamAt (cells m') s S f \<and>
    freeEntries (brk m') res m' = Ok m2 \<and> cells m2 = cells m"
proof -
  have "queryResult ok m q r"
    using assms(4) queryResult_none [OF assms(1)] collectStream_result [OF assms(1-3)]
    by (auto simp: streamRangeM_def streamReadM_def streamRange_def streamRead_def Let_def split: option.split)
  then obtain res m' xs g where r: "r = Ok (res, map_option (\<lambda>_. length xs) (snd q), m')" "chainAt entryAt (cells m') res xs g"
      "prefix xs (fst q)" "(\<forall>a. ok a) \<longrightarrow> xs = fst q" "fresh m m' g" "grows m m' (set g)"
    unfolding queryResult_def by blast
  have "set f \<inter> set g = {}"
    using live_below_set [OF assms(1) streamAt_live [OF assms(2)]] fresh_not_old [OF r(5)] by blast
  then have "streamAt (cells m') s S f" by (intro streamAt_frame [OF assms(2)] grows_agree [OF r(6)])
  moreover have "length g \<le> brk m'"
    using r(5) by (intro footprint_bound [OF grows_wf [OF r(6)] entry_mem.chain_live [OF r(2)]]) (simp add: fresh_def)
  then have "freeEntries (brk m') res m' = Ok (discard g m')"
    unfolding freeEntries_def using r(5) by (intro entry_mem.chain_exact [OF r(2)]) (auto simp: fresh_def)
  ultimately show ?thesis using r discard_fresh [OF assms(1) r(6,5)] by blast
qed

text \<open>The results of \<^verbatim>\<open>XREAD\<close>: an array of keys with their lists of copies.\<close>

inductive infosAt :: "cells \<Rightarrow> (addr \<times> addr \<times> nat option) list \<Rightarrow> StreamInfo list \<Rightarrow> addr list \<Rightarrow> bool" for c where
  infos_Nil: "infosAt c [] [] []"
| infos_Cons: "strAt c key (infoKey r) \<Longrightarrow> chainAt entryAt c es (infoEntries r) g \<Longrightarrow> infosAt c is rs h \<Longrightarrow>
    infosAt c ((key, es, infoCount r) # is) (r # rs) (key # g @ h)"

lemma freeInfos_exact:
  assumes "infosAt c is rs f" and "agree f c (cells m)" and "distinct f" and "length f \<le> n" and "p \<noteq> 0" and "p \<notin> set f"
    and "cells m p = Some (InfosO xs)" and "drop i xs = is"
  shows "freeInfos n p i (length is) m = Ok (discard f m)"
  using assms
proof (induction arbitrary: i m rule: infosAt.induct)
  case (infos_Cons key r es g "is" rs h)
  note prems = infos_Cons.prems
  have i: "i < length xs" "xs ! i = (key, es, infoCount r)" "drop (Suc i) xs = is"
    using prems(7) by (cases "i < length xs", auto simp flip: Cons_nth_drop_Suc)+
  have "c_free key m = Ok (discard [key] m)" using infos_Cons.hyps(1) prems(1) by (auto simp: strAt_def c_free_Some)
  moreover have "freeEntries n es (discard [key] m) = Ok (discard g (discard [key] m))"
    unfolding freeEntries_def using prems by (intro entry_mem.chain_exact [OF infos_Cons.hyps(2)] agree_discard) auto
  moreover have "freeInfos n p (Suc i) (length is) (discard (key # g) m) = Ok (discard h (discard (key # g) m))"
    using prems i(3) by (intro infos_Cons.IH agree_discard) auto
  ultimately show ?case using i prems(4,6) by (simp add: mem_simps)
qed simp

lemma infosAt_live: "infosAt c is rs f \<Longrightarrow> set f \<subseteq> dom c"
  by (induction rule: infosAt.induct) (use entry_mem.chain_live in \<open>fastforce simp: strAt_def\<close>)+

text \<open>
  Releasing streams and query results is exact: \<^verbatim>\<open>freeStream\<close> frees every block of a stream once and
  no other, and \<^verbatim>\<open>freeStreamInfo\<close> does the same for the array of results of \<^verbatim>\<open>XREAD\<close> with its keys and
  lists of copies; each returns after finitely many steps.
\<close>

theorem stream_release_exact:
  assumes "wf_memory m" and "streamAt (cells m) s S f" and "distinct f"
    and "cells m p = Some (InfosO is)" and "infosAt (cells m) is rs g" and "distinct (g @ [p])" and "set f \<inter> set (g @ [p]) = {}"
  shows "\<exists>m1. freeStream s m = Ok m1 \<and> freeStreamInfo p (length is) m1 = Ok (discard (f @ g @ [p]) m)"
proof -
  have p: "p \<noteq> 0" using live_below [OF assms(1,4)] by simp
  have fs: "freeStream s m = Ok (discard f m)" unfolding freeStream_def by (rule stream_mem.release_all [OF assms(1-3)])
  have "length g \<le> brk m" using footprint_bound [OF assms(1) infosAt_live [OF assms(5)]] assms(6) by simp
  then have "freeInfos (brk m) p 0 (length is) (discard f m) = Ok (discard (f @ g) m)"
    unfolding discard_discard [symmetric] using assms(4-7) p by (intro freeInfos_exact [OF assms(5)] agree_discard) auto
  moreover have "c_free p (discard (f @ g) m) = Ok (discard [p] (discard (f @ g) m))"
    using assms(4,6,7) p by (intro c_free_Some) auto
  ultimately have "freeStreamInfo p (length is) (discard f m) = Ok (discard (f @ g @ [p]) m)"
    by (simp add: freeStreamInfo_def)
  with fs show ?thesis by blast
qed

section \<open>An example heap\<close>

definition example_cells :: cells where
  "example_cells =
     [1 \<mapsto> StreamO 6 6, 2 \<mapsto> PointersO [Some 4], 3 \<mapsto> PointersO [Some 5], 4 \<mapsto> CharsO (''f'' @ [NUL]), 5 \<mapsto> CharsO (''v'' @ [NUL]),
      6 \<mapsto> EntryO 7 2 3 1 0, 7 \<mapsto> CharsO (''1-1'' @ [NUL]), 8 \<mapsto> PointersO [Some 10], 9 \<mapsto> PointersO [Some 11],
      10 \<mapsto> CharsO (''g'' @ [NUL]), 11 \<mapsto> CharsO (''w'' @ [NUL]), 12 \<mapsto> InfosO [(13, 0, Some 0)], 13 \<mapsto> CharsO (''k'' @ [NUL])]"

definition example_heap :: Memory where
  "example_heap = \<lparr>cells = example_cells, brk = 14\<rparr>"

definition one_entry :: Stream where
  "one_entry = \<lparr>entries = [\<lparr>entryId = ''1-1'', fieldValues = [(''f'', ''v'')]\<rparr>]\<rparr>"

lemma example_heap_wf: "wf_memory example_heap"
  by (auto simp: example_heap_def example_cells_def wf_memory_iff split: if_splits)

lemma example_heap_stream: "streamAt (cells example_heap) 1 one_entry [7, 4, 5, 2, 3, 6, 1]"
proof -
  let ?e = "\<lparr>entryId = ''1-1'', fieldValues = [(''f'', ''v'')]\<rparr>"
  have "entryAt example_cells 6 (0, ?e) (7 # interleave [4] [5] @ [2, 3, 6])"
    by (rule entryAt.entry) (simp_all add: example_cells_def strAt_def)
  from streamAt.stream_entries [OF _ _ _ segAt.seg_Nil this, of 1] show ?thesis
    by (simp add: one_entry_def example_heap_def) (simp add: example_cells_def)
qed

lemma example_heap_args: "srcAt (cells example_heap) 8 0 (map fst [(''g'', ''w'')])" "srcAt (cells example_heap) 9 0 (map snd [(''g'', ''w'')])"
  unfolding srcAt_def by (intro conjI exI [of _ "[Some 10]"] exI [of _ "[10]"] exI [of _ "[Some 11]"] exI [of _ "[11]"];
      simp add: example_heap_def example_cells_def strAt_def)+

lemma example_heap_infos: "infosAt (cells example_heap) [(13, 0, Some 0)] [\<lparr>infoKey = ''k'', infoEntries = [], infoCount = Some 0\<rparr>] ([13] @ [])"
proof -
  have "strAt (cells example_heap) 13 ''k''" by (simp add: example_heap_def example_cells_def strAt_def)
  then show ?thesis
    using infosAt.infos_Cons [where r = "\<lparr>infoKey = ''k'', infoEntries = [], infoCount = Some 0\<rparr>", OF _ _ infosAt.infos_Nil, of "cells example_heap" 13 0 "[]"]
    by (simp add: chainAt.intros)
qed

theorem streamAddM_refines_witness:
  "\<exists>x m' f'. streamAddM always 0 False 1 ''2-1'' 8 9 1 example_heap = Ok (x, True, m') \<and> strAt (cells m') x ''2-1'' \<and>
    streamAt (cells m') 1 \<lparr>entries = entries one_entry @ [\<lparr>entryId = ''2-1'', fieldValues = [(''g'', ''w'')]\<rparr>]\<rparr> f'"
proof -
  have "streamAdd always 0 False one_entry ''2-1'' [(''g'', ''w'')] =
    Ok (\<lparr>entries = entries one_entry @ [\<lparr>entryId = ''2-1'', fieldValues = [(''g'', ''w'')]\<rparr>]\<rparr>, True, Some ''2-1'')" by code_simp
  from streamAddM_refines [OF example_heap_wf example_heap_stream _ example_heap_args this, of always]
  show ?thesis by (simp del: nz_simps) (elim exE conjE, auto simp del: nz_simps)
qed

theorem stream_queries_copy_witness:
  "\<exists>res m' m2 xs g. streamRangeM always 0 1 ''-'' ''+'' example_heap = Ok (res, Some (length xs), m') \<and> chainAt entryAt (cells m') res xs g \<and>
    xs = entries one_entry \<and> freeEntries (brk m') res m' = Ok m2 \<and> cells m2 = cells example_heap"
proof -
  have q: "streamRange always 0 one_entry ''-'' ''+'' = (entries one_entry, Some 1)" by code_simp
  show ?thesis
    using stream_queries_copy [OF example_heap_wf example_heap_stream _ disjI1 [OF conjI [OF refl refl]], of always 0 "''-''" "''+''"]
    unfolding q by auto
qed

theorem stream_release_exact_witness:
  "\<exists>m1. freeStream 1 example_heap = Ok m1 \<and> freeStreamInfo 12 1 m1 = Ok (discard [7, 4, 5, 2, 3, 6, 1, 13, 12] example_heap)"
  using stream_release_exact [OF example_heap_wf example_heap_stream _ _ example_heap_infos, of 12]
  by (simp add: example_heap_def example_cells_def)

end
