(* ===== verification/Store_Memory.thy ===== *)
theory Store_Memory
  imports Stream_Memory
begin

text \<open>
  The hash table of \<^verbatim>\<open>src/app/redis_store.c\<close> on the heap: an array of chains of entries, whose
  values are strings or streams. Modelled here are the two functions that release entries,
  \<^verbatim>\<open>freeStore\<close> at the end of the program and \<^verbatim>\<open>clearExpired\<close>, which unlinks them through a pointer
  to the pointer that leads to them; \<open>Store_Update\<close> and \<open>Store_Lifetime\<close> hold the others.
\<close>

section \<open>Entries and the store\<close>

definition withStoreEntry ::
  "addr \<Rightarrow> Memory \<Rightarrow> (addr \<Rightarrow> ValueType \<Rightarrow> StoreData \<Rightarrow> addr \<Rightarrow> int \<Rightarrow> 'a run) \<Rightarrow> 'a run" where
  "withStoreEntry a m body =
     bind_run (readCell a m) (\<lambda>x. case x of
       StoreEntryO key t d nx ex \<Rightarrow> body key t d nx ex | UnsetO \<Rightarrow> Fault UninitRead | _ \<Rightarrow> Fault TypeConfusion)"

text \<open>The release of a value by its type, as \<^verbatim>\<open>freeEntry\<close> and \<^verbatim>\<open>storeSet\<close> do it.\<close>

definition freeData :: "nat \<Rightarrow> ValueType \<Rightarrow> StoreData \<Rightarrow> Memory \<Rightarrow> Memory run" where
  "freeData n t d m =
     (if t = TYPE_STRING then (case d of StringS p len \<Rightarrow> c_free p m | StreamS _ \<Rightarrow> Fault TypeConfusion)
      else if t = TYPE_STREAM then (case d of StreamS s \<Rightarrow> freeStreamWith n s m | StringS _ _ \<Rightarrow> Fault TypeConfusion)
      else Ok m)"

definition freeEntry :: "nat \<Rightarrow> addr \<Rightarrow> Memory \<Rightarrow> Memory run" where
  "freeEntry n a m =
     withStoreEntry a m (\<lambda>key t d nx ex.
       bind_run (c_free key m) (\<lambda>m1. bind_run (freeData n t d m1) (c_free a)))"

definition storeNext :: "addr \<Rightarrow> Memory \<Rightarrow> addr run" where
  "storeNext a m = withStoreEntry a m (\<lambda>key t d nx ex. Ok nx)"

definition withStore :: "addr \<Rightarrow> Memory \<Rightarrow> (addr \<Rightarrow> nat \<Rightarrow> nat \<Rightarrow> 'a run) \<Rightarrow> 'a run" where
  "withStore s m body =
     bind_run (readCell s m) (\<lambda>x. case x of StoreO tbl n u \<Rightarrow> body tbl n u | _ \<Rightarrow> Fault TypeConfusion)"

definition freeStore :: "addr \<Rightarrow> Memory \<Rightarrow> Memory run" where
  "freeStore s m =
     (if s = 0 then Ok m
      else withStore s m (\<lambda>tbl n u.
        bind_run (freeSlots (freeChain storeNext (freeEntry (brk m)) (brk m)) tbl 0 n m) (frees [tbl, s])))"

text \<open>The pointer to a pointer of \<^verbatim>\<open>clearExpired\<close>: a slot of the table, or the \<^verbatim>\<open>next\<close> of an entry.\<close>

datatype loc = SlotL addr nat | NextL addr

fun locAddr :: "loc \<Rightarrow> addr" where
  "locAddr (SlotL p i) = p"
| "locAddr (NextL a) = a"

fun getLoc :: "loc \<Rightarrow> object \<Rightarrow> addr run" where
  "getLoc (SlotL p i) (PointersO ps) =
     (if i < length ps then (case ps ! i of None \<Rightarrow> Fault UninitRead | Some q \<Rightarrow> Ok q) else Fault OutOfBounds)"
| "getLoc (NextL a) (StoreEntryO key t d nx ex) = Ok nx"
| "getLoc _ _ = Fault TypeConfusion"

fun setLoc :: "loc \<Rightarrow> addr \<Rightarrow> object \<Rightarrow> object" where
  "setLoc (SlotL p i) q (PointersO ps) = PointersO (ps[i := Some q])"
| "setLoc (NextL a) q (StoreEntryO key t d nx ex) = StoreEntryO key t d q ex"
| "setLoc _ q x = x"

definition readLoc :: "loc \<Rightarrow> Memory \<Rightarrow> addr run" where
  "readLoc l m = bind_run (readCell (locAddr l) m) (getLoc l)"

definition writeLoc :: "loc \<Rightarrow> addr \<Rightarrow> Memory \<Rightarrow> Memory run" where
  "writeLoc l q m =
     bind_run (readCell (locAddr l) m) (\<lambda>x. bind_run (getLoc l x) (\<lambda>_. writeCell (locAddr l) (setLoc l q x) m))"

text \<open>The loop along one chain; \<open>u\<close> is the number of entries of the store.\<close>

primrec clearChain :: "nat \<Rightarrow> nat \<Rightarrow> int \<Rightarrow> loc \<Rightarrow> nat \<Rightarrow> Memory \<Rightarrow> (nat \<times> Memory) run" where
  "clearChain n 0 now_s l u m = bind_run (readLoc l m) (\<lambda>a. if a = 0 then Ok (u, m) else Fault Diverges)"
| "clearChain n (Suc k) now_s l u m =
     bind_run (readLoc l m) (\<lambda>a.
       if a = 0 then Ok (u, m)
       else withStoreEntry a m (\<lambda>key t d nx ex.
         if ex \<noteq> 0 \<and> ex < now_s then
           bind_run (writeLoc l nx m) (\<lambda>m1. bind_run (freeEntry n a m1) (clearChain n k now_s l (u - 1)))
         else clearChain n k now_s (NextL a) u m))"

primrec clearTable :: "nat \<Rightarrow> int \<Rightarrow> addr \<Rightarrow> nat \<Rightarrow> nat \<Rightarrow> nat \<Rightarrow> Memory \<Rightarrow> (nat \<times> Memory) run" where
  "clearTable n now_s tbl i 0 u m = Ok (u, m)"
| "clearTable n now_s tbl i (Suc k) u m =
     bind_run (clearChain n n now_s (SlotL tbl i) u m) (\<lambda>(u', m'). clearTable n now_s tbl (Suc i) k u' m')"

definition clearExpiredM :: "int \<Rightarrow> addr \<Rightarrow> Memory \<Rightarrow> Memory run" where
  "clearExpiredM now_s s m =
     withStore s m (\<lambda>tbl n u.
       bind_run (clearTable (brk m) now_s tbl 0 n u m) (\<lambda>(u', m'). writeCell s (StoreO tbl n u') m'))"

section \<open>The store on the heap\<close>

text \<open>The union \<^verbatim>\<open>value\<close> with its type tag.\<close>

inductive dataAt :: "cells \<Rightarrow> ValueType \<Rightarrow> StoreData \<Rightarrow> StoreValue \<Rightarrow> addr list \<Rightarrow> bool" where
  data_string: "p \<noteq> 0 \<Longrightarrow> c p = Some (CharsO v) \<Longrightarrow> dataAt c TYPE_STRING (StringS p (length v)) (StringValue v) [p]"
| data_null: "dataAt c TYPE_STRING (StringS 0 len) StringNull []"
| data_stream: "streamAt c s S f \<Longrightarrow> dataAt c TYPE_STREAM (StreamS s) (StreamValue S) f"

inductive storeEntryAt :: "cells \<Rightarrow> addr \<Rightarrow> addr \<times> StoreEntry \<Rightarrow> addr list \<Rightarrow> bool" where
  store_entry: "a \<noteq> 0 \<Longrightarrow> c a = Some (StoreEntryO key t d nx (expiry e)) \<Longrightarrow> strAt c key (skey e) \<Longrightarrow>
    dataAt c t d (svalue e) f \<Longrightarrow> storeEntryAt c a (nx, e) (key # f @ [a])"

definition storeAt :: "cells \<Rightarrow> addr \<Rightarrow> RedisStore \<Rightarrow> addr list \<Rightarrow> bool" where
  "storeAt c s st f =
     (\<exists>tbl as g. s \<noteq> 0 \<and> tbl \<noteq> 0 \<and> c s = Some (StoreO tbl (tableSize st) (used st)) \<and> c tbl = Some (PointersO (map Some as)) \<and>
        length as = tableSize st \<and> slotsAt (chainAt storeEntryAt) c as (table st) g \<and> f = g @ [tbl, s])"

lemma dataAt_frame: "dataAt c t d v f \<Longrightarrow> agree f c c' \<Longrightarrow> dataAt c' t d v f"
  by (induction rule: dataAt.induct) (auto intro: dataAt.intros streamAt_frame)

lemma dataAt_live: "dataAt c t d v f \<Longrightarrow> set f \<subseteq> dom c"
  by (induction rule: dataAt.induct) (use streamAt_live in auto)

lemma storeEntryAt_frame: "storeEntryAt c a v f \<Longrightarrow> agree f c c' \<Longrightarrow> storeEntryAt c' a v f"
  by (induction rule: storeEntryAt.induct) (auto intro!: storeEntryAt.intros intro: dataAt_frame strAt_frame)

lemma storeEntryAt_live: "storeEntryAt c a v f \<Longrightarrow> set f \<subseteq> dom c"
  by (induction rule: storeEntryAt.induct) (use dataAt_live in \<open>auto simp: strAt_def subset_iff\<close>)

lemma freeData_exact:
  assumes "dataAt (cells m) t d v f" and "distinct f" and "length f \<le> n"
  shows "freeData n t d m = Ok (discard f m)"
  using assms(1)
proof cases
  case (data_stream s S)
  then show ?thesis using stream_mem.release_exact [OF data_stream(4) assms(2,3)] by (simp add: freeData_def)
qed (simp_all add: freeData_def c_free_Some)

lemma freeEntry_releasable: "storeEntryAt c a v f \<Longrightarrow> releasable n (freeEntry n) c a v f"
proof (induction rule: storeEntryAt.induct)
  case (store_entry a c key t d nx e f)
  show ?case unfolding releasable_def
  proof (intro allI impI)
    fix m :: Memory assume m: "agree (key # f @ [a]) c (cells m)" "distinct (key # f @ [a])" "length (key # f @ [a]) \<le> n"
    let ?m = "discard [key] m"
    have k: "c_free key m = Ok ?m" using store_entry.hyps(3) m(1) by (auto simp: strAt_def c_free_Some)
    have "agree f c (cells ?m)" using m by (intro agree_discard) auto
    then have "dataAt (cells ?m) t d (svalue e) f" by (rule dataAt_frame [OF store_entry.hyps(4)])
    then have "freeData n t d ?m = Ok (discard f ?m)" using m by (intro freeData_exact) auto
    moreover have "c_free a (discard (key # f) m) = Ok (discard [a] (discard (key # f) m))"
      using store_entry.hyps(1,2) m by (intro c_free_Some) auto
    ultimately show "freeEntry n a m = Ok (discard (key # f @ [a]) m)"
      using store_entry.hyps(1,2) m(1) k by (simp add: freeEntry_def withStoreEntry_def mem_simps)
  qed
qed

interpretation store_mem: linked_destructor storeEntryAt freeEntry storeNext
proof unfold_locales
  fix m :: Memory and a nx v f
  show "storeEntryAt (cells m) a (nx, v) f \<Longrightarrow> storeNext a m = Ok nx"
    by (erule storeEntryAt.cases) (auto simp: storeNext_def withStoreEntry_def mem_simps)
next
  fix c a nx v f
  show "storeEntryAt c a (nx, v) f \<Longrightarrow> a \<noteq> 0 \<and> a \<in> set f"
    by (erule storeEntryAt.cases) auto
qed (fact storeEntryAt_frame storeEntryAt_live freeEntry_releasable)+

interpretation bucket_mem: destructor "chainAt storeEntryAt" "\<lambda>n. freeChain storeNext (freeEntry n) n"
  by unfold_locales (fact store_mem.chain_frame store_mem.chain_live store_mem.chain_releasable)+

lemma storeAt_live: "storeAt c s st f \<Longrightarrow> set f \<subseteq> dom c"
  unfolding storeAt_def by (elim exE conjE) (use bucket_mem.slots_live in fastforce)

lemma freeStore_exact:
  assumes "wf_memory m" and "storeAt (cells m) s st f" and "distinct f"
  shows "freeStore s m = Ok (discard f m)"
proof -
  obtain tbl as g where s: "s \<noteq> 0" "tbl \<noteq> 0" "cells m s = Some (StoreO tbl (tableSize st) (used st))" "cells m tbl = Some (PointersO (map Some as))"
      "length as = tableSize st" and sl: "slotsAt (chainAt storeEntryAt) (cells m) as (table st) g" and f: "f = g @ [tbl, s]"
    using assms(2) by (auto simp: storeAt_def)
  have "length g \<le> brk m" using footprint_bound [OF assms(1) storeAt_live [OF assms(2)] assms(3)] f by simp
  then have "freeSlots (freeChain storeNext (freeEntry (brk m)) (brk m)) tbl 0 (length as) m = Ok (discard g m)"
    using assms(3) f s(2,4) by (intro bucket_mem.slots_exact [OF sl]) auto
  moreover have "frees [tbl, s] (discard g m) = Ok (discard (nz [tbl, s]) (discard g m))"
    using assms(3) f s by (intro frees_exact) auto
  ultimately show ?thesis using s f by (simp add: freeStore_def withStore_def readCell_Some del: frees.simps)
qed

section \<open>Unlinking expired entries\<close>

lemma getLoc_setLoc: "getLoc l x = Ok a \<Longrightarrow> getLoc l (setLoc l q x) = Ok q"
  by (cases "(l, x)" rule: getLoc.cases) (auto split: if_splits)

lemma setLoc_setLoc [simp]: "setLoc l q (setLoc l p x) = setLoc l q x"
  by (cases "(l, q, x)" rule: setLoc.cases) auto

lemma setLoc_same: "getLoc l x = Ok a \<Longrightarrow> setLoc l a x = x"
  by (cases "(l, x)" rule: getLoc.cases) (auto split: if_splits option.splits simp: list_update_same_conv)

lemma storeEntryAt_object: "storeEntryAt c a (nx, e) f \<Longrightarrow> \<exists>key t d. c a = Some (StoreEntryO key t d nx (expiry e))"
  by (erule storeEntryAt.cases) auto

lemma storeEntryAt_next:
  assumes "storeEntryAt c a (nx, e) f" and "distinct f" and "c a = Some (StoreEntryO key t d nx ex)"
    and "c' a = Some (StoreEntryO key t d nx' ex)" and "\<And>y. y \<in> set f \<Longrightarrow> y \<noteq> a \<Longrightarrow> c' y = c y"
  shows "storeEntryAt c' a (nx', e) f"
  using assms(1)
proof cases
  case (store_entry key' t' d' g)
  have eq: "key' = key" "t' = t" "d' = d" "expiry e = ex" using store_entry(3) assms(3) by auto
  have "agree (key # g) c c'" using assms(2,5) store_entry(1) eq by (auto simp: agree_def)
  then show ?thesis unfolding store_entry(1)
    using store_entry eq assms(4) dataAt_frame strAt_frame by (intro storeEntryAt.store_entry) auto
qed

text \<open>
  The loop along a chain that starts behind the pointer \<open>l\<close>: the expired entries are freed, the others
  are linked in their order, and only \<open>l\<close> and the chain changed.
\<close>

definition cleared :: "int \<Rightarrow> loc \<Rightarrow> object \<Rightarrow> StoreEntry list \<Rightarrow> addr list \<Rightarrow> nat \<Rightarrow> Memory \<Rightarrow> (nat \<times> Memory) run \<Rightarrow> bool" where
  "cleared now_s l x es f u m r \<longleftrightarrow>
     (\<exists>a m' f'. r = Ok (u - length (filter (expired now_s) es), m') \<and>
        chainAt storeEntryAt (cells m') a (filter (\<lambda>e. \<not> expired now_s e) es) f' \<and> set f' \<subseteq> set f \<and> distinct f' \<and>
        cells m' (locAddr l) = Some (setLoc l a x) \<and> brk m' = brk m \<and>
        (\<forall>y. y \<noteq> locAddr l \<longrightarrow> y \<notin> set f' \<longrightarrow> cells m' y = (if y \<in> set f then None else cells m y)))"

lemma clearChain_expired:
  assumes "storeEntryAt (cells m) a (nx, e) f" and "distinct f" and "length f \<le> n" and "expired now_s e"
    and "locAddr l \<notin> set f" and "locAddr l \<noteq> 0" and "cells m (locAddr l) = Some x" and "getLoc l x = Ok a"
  obtains m2 where "clearChain n (Suc k) now_s l u m = clearChain n k now_s l (u - 1) m2"
    and "cells m2 = ((cells m)(locAddr l \<mapsto> setLoc l nx x)) |` (- set f)" and "brk m2 = brk m"
proof -
  obtain key t d where o: "cells m a = Some (StoreEntryO key t d nx (expiry e))" using storeEntryAt_object [OF assms(1)] by auto
  have a: "a \<noteq> 0" using store_mem.rep_head [OF assms(1)] by simp
  define m1 where "m1 = m\<lparr>cells := (cells m)(locAddr l \<mapsto> setLoc l nx x)\<rparr>"
  have w: "writeLoc l nx m = Ok m1" "readLoc l m = Ok a"
    using assms(6-8) by (simp_all add: writeLoc_def readLoc_def mem_simps writeCell_Some m1_def)
  have "storeEntryAt (cells m1) a (nx, e) f"
    by (rule storeEntryAt_frame [OF assms(1)]) (use assms(5) in \<open>auto simp: agree_def m1_def\<close>)
  then have "freeEntry n a m1 = Ok (discard f m1)" using assms(2,3) by (rule store_mem.release_exact)
  moreover have "withStoreEntry a m body = body key t d nx (expiry e)" for body :: "_ \<Rightarrow> _ \<Rightarrow> _ \<Rightarrow> _ \<Rightarrow> _ \<Rightarrow> (nat \<times> Memory) run"
    using o a by (simp add: withStoreEntry_def mem_simps)
  ultimately show ?thesis using w a assms(4)
    by (intro that [of "discard f m1"]) (auto simp: expired_def discard_def m1_def)
qed

lemma clearChain_result:
  assumes "chainAt storeEntryAt (cells m) a es f" and "distinct f" and "length f \<le> n" and "length es \<le> k"
    and "locAddr l \<notin> set f" and "locAddr l \<noteq> 0" and "cells m (locAddr l) = Some x" and "getLoc l x = Ok a"
  shows "cleared now_s l x es f u m (clearChain n k now_s l u m)"
  using assms
proof (induction es arbitrary: m a f l x u k)
  case Nil
  from Nil.prems(1) have "a = 0" "f = []" by (auto elim: chainAt_NilE)
  moreover have "readLoc l m = Ok a" using Nil.prems by (simp add: readLoc_def mem_simps)
  ultimately have "clearChain n k now_s l u m = Ok (u, m)" by (cases k) simp_all
  then show ?case using Nil.prems(7,8) \<open>a = 0\<close> \<open>f = []\<close> setLoc_same [OF Nil.prems(8)] unfolding cleared_def
    by (intro exI [of _ 0] exI [of _ m] exI [of _ "[]"]) (auto intro: chainAt.intros)
next
  case (Cons e es)
  from Cons.prems(1) obtain nx f1 f2 where e: "storeEntryAt (cells m) a (nx, e) f1" and ch: "chainAt storeEntryAt (cells m) nx es f2"
    and f: "f = f1 @ f2" by (auto elim: chainAt_ConsE)
  obtain k' where k: "k = Suc k'" "length es \<le> k'" using Cons.prems(4) by (cases k) auto
  have d: "distinct f1" "distinct f2" "set f1 \<inter> set f2 = {}" "length f1 \<le> n" "length f2 \<le> n" "locAddr l \<notin> set f1" "locAddr l \<notin> set f2"
    using Cons.prems(2,3,5) f by auto
  show ?case
  proof (cases "expired now_s e")
    case True
    obtain m2 where m2: "clearChain n k now_s l u m = clearChain n k' now_s l (u - 1) m2"
        "cells m2 = ((cells m)(locAddr l \<mapsto> setLoc l nx x)) |` (- set f1)" "brk m2 = brk m"
      using clearChain_expired [OF e d(1,4) True d(6) Cons.prems(6-8), of k' u] k(1) by metis
    have "agree f2 (cells m) (cells m2)" using d m2(2) by (auto simp: agree_def restrict_map_def)
    then have "chainAt storeEntryAt (cells m2) nx es f2" by (rule store_mem.chain_frame [OF ch])
    moreover have "cells m2 (locAddr l) = Some (setLoc l nx x)" using m2(2) d(6) by simp
    ultimately have "cleared now_s l (setLoc l nx x) es f2 (u - 1) m2 (clearChain n k' now_s l (u - 1) m2)"
      using d k(2) Cons.prems(6) getLoc_setLoc [OF Cons.prems(8)] by (intro Cons.IH)
    then obtain a' m' f' where r: "clearChain n k' now_s l (u - 1) m2 = Ok (u - 1 - length (filter (expired now_s) es), m')"
        "chainAt storeEntryAt (cells m') a' (filter (\<lambda>e. \<not> expired now_s e) es) f'" "set f' \<subseteq> set f2" "distinct f'"
        "cells m' (locAddr l) = Some (setLoc l a' x)" "brk m' = brk m"
        "\<forall>y. y \<noteq> locAddr l \<longrightarrow> y \<notin> set f' \<longrightarrow> cells m' y = (if y \<in> set f2 then None else cells m2 y)"
      unfolding cleared_def m2(3) setLoc_setLoc by blast
    then show ?thesis unfolding cleared_def m2(1) using True f
      by (intro exI [of _ a'] exI [of _ m'] exI [of _ f']) (auto simp: m2(2) restrict_map_def)
  next
    case False
    obtain key t dd where o: "cells m a = Some (StoreEntryO key t dd nx (expiry e))" using storeEntryAt_object [OF e] by auto
    have a: "a \<noteq> 0" "a \<in> set f1" using store_mem.rep_head [OF e] by auto
    have run: "clearChain n k now_s l u m = clearChain n k' now_s (NextL a) u m"
      using Cons.prems(6-8) o a False by (auto simp: k(1) readLoc_def mem_simps withStoreEntry_def expired_def)
    have "cleared now_s (NextL a) (StoreEntryO key t dd nx (expiry e)) es f2 u m (clearChain n k' now_s (NextL a) u m)"
      using ch d k(2) a o by (intro Cons.IH) auto
    then obtain nx' m' f2' where r: "clearChain n k' now_s (NextL a) u m = Ok (u - length (filter (expired now_s) es), m')"
        "chainAt storeEntryAt (cells m') nx' (filter (\<lambda>e. \<not> expired now_s e) es) f2'" "set f2' \<subseteq> set f2" "distinct f2'"
        "cells m' a = Some (StoreEntryO key t dd nx' (expiry e))" "brk m' = brk m"
        "\<And>y. y \<noteq> a \<Longrightarrow> y \<notin> set f2' \<Longrightarrow> cells m' y = (if y \<in> set f2 then None else cells m y)"
      unfolding cleared_def by auto
    have same: "cells m' y = cells m y" if "y \<notin> set f2" "y \<noteq> a" for y
      using r(7) [OF that(2)] r(3) that(1) by auto
    have "storeEntryAt (cells m') a (nx', e) f1"
      by (rule storeEntryAt_next [where c = "cells m" and c' = "cells m'", OF e d(1) o r(5)]) (use same d(3) in auto)
    then have "chainAt storeEntryAt (cells m') a (e # filter (\<lambda>e. \<not> expired now_s e) es) (f1 @ f2')"
      using r(2) by (rule chainAt.chain_Cons)
    moreover have "cells m' (locAddr l) = Some (setLoc l a x)"
      using same [OF d(7)] d(6) a Cons.prems(7) setLoc_same [OF Cons.prems(8)] by auto
    moreover have "cells m' y = (if y \<in> set f then None else cells m y)" if "y \<notin> set (f1 @ f2')" for y
      using r(7) [of y] that a(2) f by (cases "y = a") auto
    ultimately show ?thesis unfolding cleared_def run using r(1,3,4,6) False d f
      by (intro exI [of _ a] exI [of _ m'] exI [of _ "f1 @ f2'"]) auto
  qed
qed

lemma chain_entries_bound: "chainAt storeEntryAt c a es f \<Longrightarrow> length es \<le> length f"
proof (induction rule: chainAt.induct)
  case (chain_Cons a nx v f vs g)
  then show ?case using store_mem.rep_head [OF chain_Cons.hyps(1)] by (cases f) auto
qed simp

text \<open>The loop over the table: the slots from \<open>i\<close> on, where \<open>as\<close> are the heads of the chains that remain.\<close>

lemma clearTable_result:
  assumes "slotsAt (chainAt storeEntryAt) (cells m) as ess g" and "distinct g" and "length g \<le> n" and "tbl \<noteq> 0" and "tbl \<notin> set g"
    and "cells m tbl = Some (PointersO (map Some (bs @ as)))" and "length bs = i"
  shows "\<exists>as' m' g'. clearTable n now_s tbl i (length as) u m = Ok (u - length (filter (expired now_s) (concat ess)), m') \<and>
    slotsAt (chainAt storeEntryAt) (cells m') as' (map (filter (\<lambda>e. \<not> expired now_s e)) ess) g' \<and> set g' \<subseteq> set g \<and> distinct g' \<and>
    cells m' tbl = Some (PointersO (map Some (bs @ as'))) \<and> brk m' = brk m \<and>
    (\<forall>y. y \<noteq> tbl \<longrightarrow> y \<notin> set g' \<longrightarrow> cells m' y = (if y \<in> set g then None else cells m y))"
  using assms
proof (induction as arbitrary: m ess g bs i u)
  case Nil
  then have "ess = []" "g = []" by auto
  with Nil show ?case by (intro exI [of _ "[]"] exI [of _ m]) (auto intro: slotsAt.intros)
next
  case (Cons a as)
  from Cons.prems(1) obtain es f ess' h where ess: "ess = es # ess'" and g: "g = f @ h"
    and ch: "chainAt storeEntryAt (cells m) a es f" and sl: "slotsAt (chainAt storeEntryAt) (cells m) as ess' h"
    by (auto elim: slotsAt_ConsE)
  have d: "distinct f" "distinct h" "set f \<inter> set h = {}" "length f \<le> n" "length h \<le> n" "tbl \<notin> set f" "tbl \<notin> set h"
    using Cons.prems(2,3,5) g by auto
  let ?x = "PointersO (map Some (bs @ a # as))"
  have "cleared now_s (SlotL tbl i) ?x es f u m (clearChain n n now_s (SlotL tbl i) u m)"
    using chain_entries_bound [OF ch] Cons.prems d by (intro clearChain_result [OF ch]) (auto simp: nth_append)
  then obtain a' m1 f' where c: "clearChain n n now_s (SlotL tbl i) u m = Ok (u - length (filter (expired now_s) es), m1)"
      "chainAt storeEntryAt (cells m1) a' (filter (\<lambda>e. \<not> expired now_s e) es) f'" "set f' \<subseteq> set f" "distinct f'"
      "cells m1 tbl = Some (PointersO (map Some ((bs @ [a']) @ as)))" "brk m1 = brk m"
      "\<And>y. y \<noteq> tbl \<Longrightarrow> y \<notin> set f' \<Longrightarrow> cells m1 y = (if y \<in> set f then None else cells m y)"
    unfolding cleared_def using Cons.prems(7) by (auto simp: list_update_append map_update)
  have "agree h (cells m) (cells m1)" unfolding agree_def
  proof
    fix y assume "y \<in> set h"
    with d c(3) have "y \<noteq> tbl" "y \<notin> set f'" "y \<notin> set f" by auto
    then show "cells m1 y = cells m y" using c(7) by simp
  qed
  then have sl1: "slotsAt (chainAt storeEntryAt) (cells m1) as ess' h" by (rule bucket_mem.slots_frame [OF sl])
  have li: "length (bs @ [a']) = Suc i" using Cons.prems(7) by simp
  from Cons.IH [OF sl1 d(2,5) Cons.prems(4) d(7) c(5) li, of "u - length (filter (expired now_s) es)"]
  obtain as' m' h' where r: "clearTable n now_s tbl (Suc i) (length as) (u - length (filter (expired now_s) es)) m1 =
        Ok (u - length (filter (expired now_s) es) - length (filter (expired now_s) (concat ess')), m')"
      "slotsAt (chainAt storeEntryAt) (cells m') as' (map (filter (\<lambda>e. \<not> expired now_s e)) ess') h'" "set h' \<subseteq> set h" "distinct h'"
      "cells m' tbl = Some (PointersO (map Some ((bs @ [a']) @ as')))" "brk m' = brk m1"
      "\<And>y. y \<noteq> tbl \<Longrightarrow> y \<notin> set h' \<Longrightarrow> cells m' y = (if y \<in> set h then None else cells m1 y)" by blast
  have "agree f' (cells m1) (cells m')" unfolding agree_def
  proof
    fix y assume "y \<in> set f'"
    with d c(3) r(3) have "y \<noteq> tbl" "y \<notin> set h'" "y \<notin> set h" by auto
    then show "cells m' y = cells m1 y" using r(7) by simp
  qed
  then have "chainAt storeEntryAt (cells m') a' (filter (\<lambda>e. \<not> expired now_s e) es) f'" by (rule store_mem.chain_frame [OF c(2)])
  then have "slotsAt (chainAt storeEntryAt) (cells m') (a' # as') (map (filter (\<lambda>e. \<not> expired now_s e)) ess) (f' @ h')"
    unfolding ess list.map using r(2) by (rule slotsAt.slots_Cons)
  moreover have "cells m' y = (if y \<in> set g then None else cells m y)" if "y \<noteq> tbl" "y \<notin> set (f' @ h')" for y
    using that r(7) [of y] c(7) [of y] g by auto
  ultimately show ?case using c(1,3,4,6) r(1,3-6) d g ess
    by (intro exI [of _ "a' # as'"] exI [of _ m'] exI [of _ "f' @ h'"]) auto
qed

lemma clearExpiredM_result:
  assumes "wf_memory m" and "storeAt (cells m) s st f" and "distinct f"
  shows "\<exists>m' f'. clearExpiredM now_s s m = Ok m' \<and> storeAt (cells m') s (clearExpired now_s st) f' \<and> replaces m m' f f' \<and> set f' \<subseteq> set f"
proof -
  obtain tbl as g where s: "s \<noteq> 0" "tbl \<noteq> 0" "cells m s = Some (StoreO tbl (tableSize st) (used st))" "cells m tbl = Some (PointersO (map Some ([] @ as)))"
      "length as = tableSize st" and sl: "slotsAt (chainAt storeEntryAt) (cells m) as (table st) g" and f: "f = g @ [tbl, s]"
    using assms(2) by (auto simp: storeAt_def)
  have d: "distinct g" "tbl \<notin> set g" "s \<notin> set g" "tbl \<noteq> s" using assms(3) f by auto
  have n: "length g \<le> brk m" using footprint_bound [OF assms(1) storeAt_live [OF assms(2)] assms(3)] f by simp
  let ?u = "used st - length (filter (expired now_s) (concat (table st)))"
  obtain as' m1 g' where r: "clearTable (brk m) now_s tbl 0 (length as) (used st) m = Ok (?u, m1)"
      "slotsAt (chainAt storeEntryAt) (cells m1) as' (map (filter (\<lambda>e. \<not> expired now_s e)) (table st)) g'" "set g' \<subseteq> set g" "distinct g'"
      "cells m1 tbl = Some (PointersO (map Some as'))" "brk m1 = brk m"
      "\<And>y. y \<noteq> tbl \<Longrightarrow> y \<notin> set g' \<Longrightarrow> cells m1 y = (if y \<in> set g then None else cells m y)"
    using clearTable_result [OF sl d(1) n s(2) d(2) s(4), where i = 0 and now_s = now_s and u = "used st"] by auto
  define m' where "m' = m1\<lparr>cells := (cells m1)(s \<mapsto> StoreO tbl (tableSize st) ?u)\<rparr>"
  have s1: "cells m1 s = Some (StoreO tbl (tableSize st) (used st))" using r(7) [of s] r(3) d s(3) by auto
  have run: "clearExpiredM now_s s m = Ok m'"
    using s r(1) writeCell_Some [OF s(1) s1] by (simp add: clearExpiredM_def withStore_def readCell_Some m'_def)
  have "agree g' (cells m1) (cells m')" using r(3) d(3) by (auto simp: agree_def m'_def)
  then have sl': "slotsAt (chainAt storeEntryAt) (cells m') as' (map (filter (\<lambda>e. \<not> expired now_s e)) (table st)) g'"
    by (rule bucket_mem.slots_frame [OF r(2)])
  have at: "storeAt (cells m') s (clearExpired now_s st) (g' @ [tbl, s])" unfolding storeAt_def
    using s d r(5) sl' slotsAt_length [OF sl] slotsAt_length [OF sl']
    by (intro exI [of _ tbl] exI [of _ as'] exI [of _ g']) (simp add: clearExpired_def m'_def)
  have d': "distinct (g' @ [tbl, s])" "set (g' @ [tbl, s]) \<subseteq> set f" using r(3,4) d f by auto
  have out: "cells m' y = (if y \<in> set f then None else cells m y)" if "y \<notin> set (g' @ [tbl, s])" for y
    using that r(7) [of y] f by (auto simp: m'_def)
  have "0 < y \<and> y < brk m'" if "cells m' y = Some x" for y x
  proof -
    have "y \<in> set f \<or> cells m y = Some x"
      using that out [of y] d'(2) by (cases "y \<in> set (g' @ [tbl, s])") (auto split: if_splits)
    then show ?thesis
      using live_below [OF assms(1)] live_below_set [OF assms(1) storeAt_live [OF assms(2)]] r(6) by (auto simp: m'_def)
  qed
  then have wf: "wf_memory m'" using assms(1) r(6) by (simp add: wf_memory_iff m'_def)
  have "replaces m m' f (g' @ [tbl, s])" using wf d' out r(6) unfolding replaces_def by (auto simp: m'_def)
  then show ?thesis using run at d'(2) by blast
qed

text \<open>
  C32. \<^verbatim>\<open>clearExpired\<close> on the heap does what \<^verbatim>\<open>clearExpired\<close> on values does: it returns, unlinks exactly the
  expired entries through the pointer that leads to each of them, frees every block of theirs,
  keeps the others in order and counts them; no other block of the heap changes. A \<^verbatim>\<open>freeStore\<close> after it
  gives back every block that the store ever held.
\<close>

theorem clearExpiredM_refines:
  assumes "wf_memory m" and "storeAt (cells m) s st f" and "distinct f"
  shows "\<exists>m' f'. clearExpiredM now_s s m = Ok m' \<and> storeAt (cells m') s (clearExpired now_s st) f' \<and> distinct f' \<and> set f' \<subseteq> set f \<and>
    (\<forall>y. y \<notin> set f' \<longrightarrow> cells m' y = (if y \<in> set f then None else cells m y)) \<and>
    (\<exists>m2. freeStore s m' = Ok m2 \<and> cells m2 = cells m |` (- set f))"
proof -
  obtain m' f' where r: "clearExpiredM now_s s m = Ok m'" "storeAt (cells m') s (clearExpired now_s st) f'" "replaces m m' f f'" "set f' \<subseteq> set f"
    using clearExpiredM_result [OF assms] by blast
  have m': "wf_memory m'" "distinct f'" "\<forall>y. y \<notin> set f' \<longrightarrow> cells m' y = (if y \<in> set f then None else cells m y)"
    using r(3) by (auto simp: replaces_def)
  have "cells (discard f' m') = cells m |` (- set f)" using replaces_discard [OF assms(1) r(3)] by (simp add: discard_def)
  then show ?thesis using r m' freeStore_exact [OF m'(1) r(2) m'(2)] by blast
qed

section \<open>An example\<close>

definition two_keys :: Memory where
  "two_keys = \<lparr>cells =
     [1 \<mapsto> StoreO 2 1 2, 2 \<mapsto> PointersO [Some 3], 3 \<mapsto> StoreEntryO 4 TYPE_STRING (StringS 5 1) 6 7, 4 \<mapsto> CharsO (''a'' @ [NUL]), 5 \<mapsto> CharsO ''x'',
      6 \<mapsto> StoreEntryO 7 TYPE_STRING (StringS 8 1) 0 0, 7 \<mapsto> CharsO (''b'' @ [NUL]), 8 \<mapsto> CharsO ''y''], brk = 9\<rparr>"

definition two_entries :: RedisStore where
  "two_entries = \<lparr>table = [[\<lparr>skey = ''a'', svalue = StringValue ''x'', expiry = 7\<rparr>, \<lparr>skey = ''b'', svalue = StringValue ''y'', expiry = 0\<rparr>]],
     tableSize = 1, used = 2\<rparr>"

lemma two_keys_store: "storeAt (cells two_keys) 1 two_entries [4, 5, 3, 7, 8, 6, 2, 1]"
proof -
  let ?c = "cells two_keys"
  let ?a = "\<lparr>skey = ''a'', svalue = StringValue ''x'', expiry = 7\<rparr>" and ?b = "\<lparr>skey = ''b'', svalue = StringValue ''y'', expiry = 0\<rparr>"
  have "dataAt ?c TYPE_STRING (StringS 5 (length ''x'')) (svalue ?a) [5]" "dataAt ?c TYPE_STRING (StringS 8 (length ''y'')) (svalue ?b) [8]"
    unfolding StoreEntry.select_convs by (rule dataAt.data_string; simp add: two_keys_def)+
  from storeEntryAt.store_entry [OF _ _ _ this(1), of 3 4 6] storeEntryAt.store_entry [OF _ _ _ this(2), of 6 7 0]
  have "storeEntryAt ?c 3 (6, ?a) (4 # [5] @ [3])" "storeEntryAt ?c 6 (0, ?b) (7 # [8] @ [6])"
    by (simp_all add: two_keys_def strAt_def)
  from chainAt.chain_Cons [where rep = storeEntryAt, OF this(1) chainAt.chain_Cons [where rep = storeEntryAt, OF this(2) chainAt.chain_Nil]]
  have "slotsAt (chainAt storeEntryAt) ?c [3] (table two_entries) (((4 # [5] @ [3]) @ ((7 # [8] @ [6]) @ [])) @ [])"
    unfolding two_entries_def RedisStore.select_convs by (intro slotsAt.intros) simp
  then show ?thesis unfolding storeAt_def
    by (intro exI [of _ 2] exI [of _ "[3]"] exI [of _ "[4, 5, 3, 7, 8, 6]"]) (simp add: two_keys_def two_entries_def)
qed

theorem clearExpiredM_refines_witness:
  "\<exists>m' f'. clearExpiredM 9 1 two_keys = Ok m' \<and>
     storeAt (cells m') 1 \<lparr>table = [[\<lparr>skey = ''b'', svalue = StringValue ''y'', expiry = 0\<rparr>]], tableSize = 1, used = 1\<rparr> f'"
proof -
  have "wf_memory two_keys" by (auto simp: two_keys_def wf_memory_iff split: if_splits)
  moreover have "clearExpired 9 two_entries = \<lparr>table = [[\<lparr>skey = ''b'', svalue = StringValue ''y'', expiry = 0\<rparr>]], tableSize = 1, used = 1\<rparr>"
    by (simp add: clearExpired_def two_entries_def expired_def)
  ultimately show ?thesis using clearExpiredM_refines [OF _ two_keys_store, of 9] by auto
qed

end
