(* ===== verification/Store_Update.thy ===== *)
theory Store_Update
  imports Store_Memory
begin

text \<open>
  The operations of \<^verbatim>\<open>src/app/redis_store.c\<close> that change the store, on the heap: \<^verbatim>\<open>createStore\<close>,
  \<^verbatim>\<open>storeSet\<close> with \<^verbatim>\<open>resize\<close>, which moves every entry to a chain of the larger table by writing its
  \<^verbatim>\<open>next\<close> pointer, and \<^verbatim>\<open>setExpiry\<close>. Keys and values that a caller passes are given by their
  bytes.
\<close>

section \<open>Finding an entry\<close>

primrec chainFind :: "nat \<Rightarrow> addr \<Rightarrow> string \<Rightarrow> Memory \<Rightarrow> addr run" where
  "chainFind 0 a k m = (if a = 0 then Ok 0 else Fault Diverges)"
| "chainFind (Suc n) a k m =
     (if a = 0 then Ok 0
      else withStoreEntry a m (\<lambda>key t d nx ex.
        bind_run (loadString key m) (\<lambda>x. if x = k then Ok a else chainFind n nx k m)))"

definition storeFindM :: "addr \<Rightarrow> string \<Rightarrow> Memory \<Rightarrow> addr run" where
  "storeFindM s k m =
     withStore s m (\<lambda>tbl n u. bind_run (readSlot tbl (bucket n k) m) (\<lambda>a. chainFind (brk m) a k m))"

section \<open>Changing entries\<close>

definition setExpiryM :: "addr \<Rightarrow> string \<Rightarrow> int \<Rightarrow> Memory \<Rightarrow> (bool \<times> Memory) run" where
  "setExpiryM s k t m =
     bind_run (storeFindM s k m) (\<lambda>b.
       if b = 0 then Ok (False, m)
       else withStoreEntry b m (\<lambda>key ty d nx ex.
         bind_run (writeCell b (StoreEntryO key ty d nx t) m) (\<lambda>m'. Ok (True, m'))))"

text \<open>
  The new value of an entry that \<^verbatim>\<open>storeSet\<close> found: the old one is freed first, whatever becomes of
  the new one. The length in the union is written only after the allocation has succeeded.
\<close>

definition setValueM :: "(addr \<Rightarrow> bool) \<Rightarrow> addr \<Rightarrow> string \<Rightarrow> Memory \<Rightarrow> (bool \<times> Memory) run" where
  "setValueM ok b v m =
     withStoreEntry b m (\<lambda>key t d nx ex.
       bind_run (freeData (brk m) t d m) (\<lambda>m1.
         case c_malloc ok (CharsO v) m1 of (p, m2) \<Rightarrow>
           if p = 0 then
             bind_run (writeCell b (StoreEntryO key TYPE_STRING (StringS 0 (case d of StringS _ len \<Rightarrow> len | StreamS _ \<Rightarrow> 0)) nx ex) m2)
               (\<lambda>m3. Ok (False, m3))
           else
             bind_run (writeCell b (StoreEntryO key TYPE_STRING (StringS p (length v)) nx ex) m2) (\<lambda>m3. Ok (True, m3))))"

text \<open>\<^verbatim>\<open>entry->next = table[h]; table[h] = entry\<close> and the count.\<close>

definition linkFront :: "addr \<Rightarrow> string \<Rightarrow> addr \<Rightarrow> (addr \<Rightarrow> object) \<Rightarrow> Memory \<Rightarrow> Memory run" where
  "linkFront s k a entry m =
     withStore s m (\<lambda>tbl n u.
       bind_run (readSlot tbl (bucket n k) m) (\<lambda>nx.
       bind_run (writeCell a (entry nx) m) (\<lambda>m1.
       bind_run (writeSlot tbl (bucket n k) a m1) (writeCell s (StoreO tbl n (Suc u))))))"

definition insertM :: "(addr \<Rightarrow> bool) \<Rightarrow> addr \<Rightarrow> string \<Rightarrow> string \<Rightarrow> Memory \<Rightarrow> (bool \<times> Memory) run" where
  "insertM ok s k v m =
     (case c_malloc ok UnsetO m of (a, m1) \<Rightarrow>
      if a = 0 then Ok (False, m1)
      else case c_malloc ok (CharsO (k @ [NUL])) m1 of (key, m2) \<Rightarrow>
      if key = 0 then bind_run (c_free a m2) (\<lambda>m3. Ok (False, m3))
      else case c_malloc ok (CharsO v) m2 of (p, m3) \<Rightarrow>
      if p = 0 then bind_run (frees [key, a] m3) (\<lambda>m4. Ok (False, m4))
      else bind_run (linkFront s k a (\<lambda>nx. StoreEntryO key TYPE_STRING (StringS p (length v)) nx 0) m3) (\<lambda>m4. Ok (True, m4)))"

section \<open>Growth\<close>

text \<open>The loop of \<^verbatim>\<open>resize\<close> along an old chain, and the loop over the old table.\<close>

primrec relinkChain :: "nat \<Rightarrow> nat \<Rightarrow> addr \<Rightarrow> addr \<Rightarrow> Memory \<Rightarrow> Memory run" where
  "relinkChain 0 newSize nt a m = (if a = 0 then Ok m else Fault Diverges)"
| "relinkChain (Suc n) newSize nt a m =
     (if a = 0 then Ok m
      else withStoreEntry a m (\<lambda>key t d nx ex.
        bind_run (loadString key m) (\<lambda>x.
        bind_run (readSlot nt (bucket newSize x) m) (\<lambda>q.
        bind_run (writeCell a (StoreEntryO key t d q ex) m) (\<lambda>m1.
        bind_run (writeSlot nt (bucket newSize x) a m1) (relinkChain n newSize nt nx))))))"

primrec relinkTable :: "nat \<Rightarrow> nat \<Rightarrow> addr \<Rightarrow> addr \<Rightarrow> nat \<Rightarrow> nat \<Rightarrow> Memory \<Rightarrow> Memory run" where
  "relinkTable n newSize nt tbl i 0 m = Ok m"
| "relinkTable n newSize nt tbl i (Suc k) m =
     bind_run (readSlot tbl i m) (\<lambda>a. bind_run (relinkChain n newSize nt a m) (relinkTable n newSize nt tbl (Suc i) k))"

definition resizeM :: "(addr \<Rightarrow> bool) \<Rightarrow> addr \<Rightarrow> Memory \<Rightarrow> Memory run" where
  "resizeM ok s m =
     withStore s m (\<lambda>tbl n u.
       case c_malloc ok (PointersO (replicate (n * 2) (Some 0))) m of (nt, m1) \<Rightarrow>
       bind_run (relinkTable (brk m1) (n * 2) nt tbl 0 n m1) (\<lambda>m2.
       bind_run (c_free tbl m2) (writeCell s (StoreO nt (n * 2) u))))"

definition storeSetM :: "(addr \<Rightarrow> bool) \<Rightarrow> addr \<Rightarrow> string \<Rightarrow> string \<Rightarrow> Memory \<Rightarrow> (bool \<times> Memory) run" where
  "storeSetM ok s k v m =
     (if s = 0 then Ok (False, m)
      else withStore s m (\<lambda>tbl n u.
       bind_run (if tooFull \<lparr>table = [], tableSize = n, used = u\<rparr> then resizeM ok s m else Ok m) (\<lambda>m1.
       bind_run (storeFindM s k m1) (\<lambda>b.
         if b \<noteq> 0 then setValueM ok b v m1 else insertM ok s k v m1))))"

text \<open>\<open>lockOk\<close> is whether \<^verbatim>\<open>pthread_rwlock_init\<close> succeeds.\<close>

definition createStoreM :: "(addr \<Rightarrow> bool) \<Rightarrow> bool \<Rightarrow> Memory \<Rightarrow> (addr \<times> Memory) run" where
  "createStoreM ok lockOk m =
     (case c_malloc ok UnsetO m of (s, m1) \<Rightarrow>
      if s = 0 then Ok (0, m1)
      else case c_malloc ok (PointersO (replicate INITIAL_STORE_SIZE (Some 0))) m1 of (tbl, m2) \<Rightarrow>
      if tbl = 0 then bind_run (c_free s m2) (\<lambda>m3. Ok (0, m3))
      else bind_run (writeCell s (StoreO tbl INITIAL_STORE_SIZE 0) m2) (\<lambda>m3.
        if \<not> lockOk then bind_run (frees [tbl, s] m3) (\<lambda>m4. Ok (0, m4)) else Ok (s, m3)))"

section \<open>Framing\<close>

text \<open>
  A run that exchanges a part of a structure exchanges the structure: the rest, \<open>fr\<close>, is left alone.
  Footprints are compared as multisets, for the order of the blocks changes.
\<close>

lemma replaces_frame:
  assumes "replaces m m' fe fe'" and "mset f = mset (fe @ fr)" and "mset f' = mset (fe' @ fr)" and "distinct f"
    and "wf_memory m" and "set f \<subseteq> dom (cells m)"
  shows "replaces m m' f f'" and "agree fr (cells m) (cells m')"
proof -
  have sets: "set f = set fe \<union> set fr" "set f' = set fe' \<union> set fr" using assms(2,3) by (metis set_append set_mset_mset)+
  have d: "distinct (fe @ fr)" using assms(2,4) mset_eq_imp_distinct_iff by metis
  have fr: "set fr \<subseteq> dom (cells m)" "set fr \<inter> set fe = {}" using assms(6) sets d by auto
  show a: "agree fr (cells m) (cells m')" by (rule replaces_agree [OF assms(1) fr assms(5)])
  have "set fe' \<inter> set fr = {}" using replaces_disjoint [OF assms(1,5) fr(1)] fr(2) by blast
  then have "distinct (fe' @ fr)" using assms(1) d by (simp add: replaces_def)
  then have "distinct f'" using assms(3) mset_eq_imp_distinct_iff by metis
  then show "replaces m m' f f'" using assms(1) sets a unfolding replaces_def agree_def by auto
qed

lemma replaces_trans:
  assumes "replaces m m1 f f1" and "replaces m1 m2 f1 f2" and "wf_memory m"
  shows "replaces m m2 f f2"
proof -
  have "cells m2 x = (if x \<in> set f then None else cells m x)" if "x \<notin> set f2" for x
    using assms(1,2) that wf_memory_fresh [OF assms(3), of x] unfolding replaces_def by (cases "x \<in> set f1") auto
  moreover have "set f2 \<subseteq> set f \<union> {brk m..<brk m2}" using assms(1,2) unfolding replaces_def by fastforce
  ultimately show ?thesis using assms(1,2) unfolding replaces_def by auto
qed

lemma replaces_refl: "wf_memory m \<Longrightarrow> distinct f \<Longrightarrow> replaces m m f f"
  by (simp add: replaces_def)

section \<open>Focusing on an entry\<close>

text \<open>
  The entry with a key, the rest of the footprint, and what becomes of the store when the entry at
  that address is exchanged.
\<close>

definition chainFocus ::
  "cells \<Rightarrow> addr \<Rightarrow> StoreEntry list \<Rightarrow> addr list \<Rightarrow> string \<Rightarrow> addr \<Rightarrow> addr \<Rightarrow> StoreEntry \<Rightarrow> addr list \<Rightarrow> addr list \<Rightarrow> bool" where
  "chainFocus c a es f k b nx e fe fr \<longleftrightarrow>
     storeEntryAt c b (nx, e) fe \<and> mset f = mset (fe @ fr) \<and>
     (\<forall>c' e' fe'. agree fr c c' \<longrightarrow> storeEntryAt c' b (nx, e') fe' \<longrightarrow>
        (\<exists>f'. chainAt storeEntryAt c' a (updateChain k (\<lambda>_. e') es) f' \<and> mset f' = mset (fe' @ fr)))"

lemma loadString_key: "storeEntryAt (cells m) a (nx, e) f \<Longrightarrow> cells m a = Some (StoreEntryO key t d nx' ex) \<Longrightarrow> loadString key m = Ok (skey e)"
  by (erule storeEntryAt.cases) (auto intro: loadString_strAt)

lemma withStoreEntry_Some [mem_simps]:
  "a \<noteq> 0 \<Longrightarrow> cells m a = Some (StoreEntryO key t d nx ex) \<Longrightarrow> withStoreEntry a m body = body key t d nx ex"
  by (simp add: withStoreEntry_def readCell_Some)

lemma storeEntryAt_read:
  assumes "storeEntryAt (cells m) a (nx, e) f"
  obtains key t d where "cells m a = Some (StoreEntryO key t d nx (expiry e))" and "loadString key m = Ok (skey e)" and "a \<noteq> 0" and "a \<in> set f"
proof -
  obtain key t d where o: "cells m a = Some (StoreEntryO key t d nx (expiry e))" using storeEntryAt_object [OF assms] by auto
  moreover have "a \<noteq> 0" "a \<in> set f" using store_mem.rep_head [OF assms] by auto
  ultimately show ?thesis using loadString_key [OF assms o] by (intro that) auto
qed

lemma chainFind_none:
  assumes "chainAt storeEntryAt (cells m) a es f" and "length es \<le> n" and "List.find (\<lambda>e. skey e = k) es = None"
  shows "chainFind n a k m = Ok 0"
  using assms
proof (induction es arbitrary: a f n)
  case Nil
  then show ?case by (cases n) (auto elim: chainAt_NilE)
next
  case (Cons e es)
  from Cons.prems(1) obtain nx f1 f2 where e: "storeEntryAt (cells m) a (nx, e) f1" and ch: "chainAt storeEntryAt (cells m) nx es f2"
    by (auto elim: chainAt_ConsE)
  obtain key t d where "cells m a = Some (StoreEntryO key t d nx (expiry e))" "loadString key m = Ok (skey e)" "a \<noteq> 0"
    using storeEntryAt_read [OF e] by metis
  then show ?case using Cons.IH [OF ch] Cons.prems(2,3) by (cases n) (auto simp: mem_simps split: if_splits)
qed

lemma chainFind_found:
  assumes "chainAt storeEntryAt (cells m) a es f" and "length es \<le> n" and "List.find (\<lambda>e. skey e = k) es = Some e"
  shows "\<exists>b nx fe fr. chainFind n a k m = Ok b \<and> chainFocus (cells m) a es f k b nx e fe fr"
  using assms
proof (induction es arbitrary: a f n)
  case (Cons x es)
  from Cons.prems(1) obtain nx f1 f2 where x: "storeEntryAt (cells m) a (nx, x) f1" and ch: "chainAt storeEntryAt (cells m) nx es f2"
    and f: "f = f1 @ f2" by (auto elim: chainAt_ConsE)
  obtain key t d where o: "cells m a = Some (StoreEntryO key t d nx (expiry x))" "loadString key m = Ok (skey x)" "a \<noteq> 0"
    using storeEntryAt_read [OF x] by metis
  obtain n' where n: "n = Suc n'" "length es \<le> n'" using Cons.prems(2) by (cases n) auto
  show ?case
  proof (cases "skey x = k")
    case True
    then have e: "e = x" using Cons.prems(3) by simp
    have "\<exists>f'. chainAt storeEntryAt c' a (updateChain k (\<lambda>_. e') (x # es)) f' \<and> mset f' = mset (fe' @ f2)"
      if "agree f2 (cells m) c'" "storeEntryAt c' a (nx, e') fe'" for c' e' fe'
      using chainAt.chain_Cons [where rep = storeEntryAt, OF that(2) store_mem.chain_frame [OF ch that(1)]] True
      by (intro exI [of _ "fe' @ f2"]) simp
    then have "chainFocus (cells m) a (x # es) f k a nx e f1 f2" using x f e unfolding chainFocus_def by blast
    then show ?thesis using o n True by (auto simp: mem_simps)
  next
    case False
    then have "List.find (\<lambda>e. skey e = k) es = Some e" using Cons.prems(3) by simp
    from Cons.IH [OF ch n(2) this] obtain b nx' fe fr where r: "chainFind n' nx k m = Ok b" "chainFocus (cells m) nx es f2 k b nx' e fe fr" by blast
    have "\<exists>f'. chainAt storeEntryAt c' a (updateChain k (\<lambda>_. e') (x # es)) f' \<and> mset f' = mset (fe' @ f1 @ fr)"
      if c': "agree (f1 @ fr) (cells m) c'" "storeEntryAt c' b (nx', e') fe'" for c' e' fe'
    proof -
      obtain f' where f': "chainAt storeEntryAt c' nx (updateChain k (\<lambda>_. e') es) f'" "mset f' = mset (fe' @ fr)"
        using r(2) c' unfolding chainFocus_def agree_append by blast
      have "storeEntryAt c' a (nx, x) f1" using c'(1) by (intro storeEntryAt_frame [OF x]) simp
      from chainAt.chain_Cons [where rep = storeEntryAt, OF this f'(1)] show ?thesis using False f'(2)
        by (intro exI [of _ "f1 @ f'"]) simp
    qed
    then have "chainFocus (cells m) a (x # es) f k b nx' e fe (f1 @ fr)" using r(2) f unfolding chainFocus_def by simp
    then show ?thesis using o n False r(1) by (auto simp: mem_simps)
  qed
qed simp

text \<open>The same for the whole store.\<close>

definition storeFocus :: "cells \<Rightarrow> addr \<Rightarrow> RedisStore \<Rightarrow> addr list \<Rightarrow> string \<Rightarrow> addr \<Rightarrow> addr \<Rightarrow> StoreEntry \<Rightarrow> addr list \<Rightarrow> addr list \<Rightarrow> bool" where
  "storeFocus c s st f k b nx e fe fr \<longleftrightarrow>
     storeEntryAt c b (nx, e) fe \<and> mset f = mset (fe @ fr) \<and>
     (\<forall>c' e' fe'. agree fr c c' \<longrightarrow> storeEntryAt c' b (nx, e') fe' \<longrightarrow>
        (\<exists>f'. storeAt c' s (updateEntry st k (\<lambda>_. e')) f' \<and> mset f' = mset (fe' @ fr)))"

lemma storeAt_bucket:
  assumes "storeAt c s st f" and "0 < tableSize st" and "h < tableSize st"
  obtains tbl as g1 fh g2 where "s \<noteq> 0" and "tbl \<noteq> 0" and "c s = Some (StoreO tbl (tableSize st) (used st))"
    and "c tbl = Some (PointersO (map Some as))" and "length as = tableSize st" and "length (table st) = tableSize st"
    and "f = g1 @ fh @ g2 @ [tbl, s]" and "chainAt storeEntryAt c (as ! h) (table st ! h) fh"
    and "\<And>c' b es f'. agree (g1 @ g2) c c' \<Longrightarrow> chainAt storeEntryAt c' b es f' \<Longrightarrow>
      slotsAt (chainAt storeEntryAt) c' (as[h := b]) ((table st)[h := es]) (g1 @ f' @ g2)"
proof -
  obtain tbl as g where s: "s \<noteq> 0" "tbl \<noteq> 0" "c s = Some (StoreO tbl (tableSize st) (used st))" "c tbl = Some (PointersO (map Some as))"
      "length as = tableSize st" and sl: "slotsAt (chainAt storeEntryAt) c as (table st) g" and f: "f = g @ [tbl, s]"
    using assms(1) by (auto simp: storeAt_def)
  have "h < length as" using assms(3) s(5) by simp
  then obtain g1 fh g2 where "g = g1 @ fh @ g2" "chainAt storeEntryAt c (as ! h) (table st ! h) fh"
    "\<And>c' b es f'. agree (g1 @ g2) c c' \<Longrightarrow> chainAt storeEntryAt c' b es f' \<Longrightarrow>
      slotsAt (chainAt storeEntryAt) c' (as[h := b]) ((table st)[h := es]) (g1 @ f' @ g2)"
    using bucket_mem.slots_focus [OF sl] by metis
  then show ?thesis using s f slotsAt_length [OF sl] by (intro that [of tbl as g1 fh g2]) auto
qed

lemma storeFindM_result:
  assumes "wf_memory m" and "storeAt (cells m) s st f" and "distinct f" and "0 < tableSize st"
  shows "(case findEntry st k of
     None \<Rightarrow> storeFindM s k m = Ok 0
   | Some e \<Rightarrow> \<exists>b nx fe fr. storeFindM s k m = Ok b \<and> storeFocus (cells m) s st f k b nx e fe fr)"
proof -
  let ?h = "bucket (tableSize st) k"
  obtain tbl as g1 fh g2 where s: "s \<noteq> 0" "tbl \<noteq> 0" "cells m s = Some (StoreO tbl (tableSize st) (used st))"
      "cells m tbl = Some (PointersO (map Some as))" "length as = tableSize st" "length (table st) = tableSize st"
    and f: "f = g1 @ fh @ g2 @ [tbl, s]" and ch: "chainAt storeEntryAt (cells m) (as ! ?h) (table st ! ?h) fh"
    and re: "\<And>c' b es f'. agree (g1 @ g2) (cells m) c' \<Longrightarrow> chainAt storeEntryAt c' b es f' \<Longrightarrow>
      slotsAt (chainAt storeEntryAt) c' (as[?h := b]) ((table st)[?h := es]) (g1 @ f' @ g2)"
    using storeAt_bucket [OF assms(2,4) bucket_less [OF assms(4)]] by metis
  have "length (table st ! ?h) \<le> brk m"
    using chain_entries_bound [OF ch] footprint_bound [OF assms(1) storeAt_live [OF assms(2)] assms(3)] f by simp
  note find = chainFind_none [OF ch this, of k] chainFind_found [OF ch this, of k]
  have run: "storeFindM s k m = chainFind (brk m) (as ! ?h) k m"
    using s assms(4) by (simp add: storeFindM_def withStore_def readSlot_def mem_simps)
  show ?thesis
  proof (cases "findEntry st k")
    case None
    with find(1) run show ?thesis by (simp add: findEntry_def)
  next
    case (Some e)
    with find(2) obtain b nx fe fr where r: "chainFind (brk m) (as ! ?h) k m = Ok b" "chainFocus (cells m) (as ! ?h) (table st ! ?h) fh k b nx e fe fr"
      by (auto simp: findEntry_def)
    let ?fr = "fr @ g1 @ g2 @ [tbl, s]"
    have "\<exists>f'. storeAt c' s (updateEntry st k (\<lambda>_. e')) f' \<and> mset f' = mset (fe' @ ?fr)"
      if c': "agree ?fr (cells m) c'" "storeEntryAt c' b (nx, e') fe'" for c' e' fe'
    proof -
      obtain f' where f': "chainAt storeEntryAt c' (as ! ?h) (updateChain k (\<lambda>_. e') (table st ! ?h)) f'" "mset f' = mset (fe' @ fr)"
        using r(2) c' unfolding chainFocus_def agree_append by blast
      have "slotsAt (chainAt storeEntryAt) c' as (table (updateEntry st k (\<lambda>_. e'))) (g1 @ f' @ g2)"
        using re [OF _ f'(1)] c'(1) by (simp add: updateEntry_def Let_def)
      then have "storeAt c' s (updateEntry st k (\<lambda>_. e')) (g1 @ f' @ g2 @ [tbl, s])" unfolding storeAt_def
        using s c'(1) by (intro exI [of _ tbl] exI [of _ as] exI [of _ "g1 @ f' @ g2"]) (simp add: updateEntry_def Let_def)
      then show ?thesis using f'(2) by (intro exI [of _ "g1 @ f' @ g2 @ [tbl, s]"]) (simp add: ac_simps)
    qed
    then have "storeFocus (cells m) s st f k b nx e fe ?fr" using r(2) f unfolding storeFocus_def chainFocus_def by (auto simp: ac_simps)
    then show ?thesis using Some r(1) run by auto
  qed
qed

text \<open>What a change of one entry, seen as a run on its blocks alone, does to the store.\<close>

lemma storeFocus_update:
  assumes "storeFocus (cells m) s st f k b nx e fe fr" and "storeEntryAt (cells m') b (nx, e') fe'" and "replaces m m' fe fe'"
    and "wf_memory m" and "set f \<subseteq> dom (cells m)" and "distinct f"
  shows "\<exists>f'. storeAt (cells m') s (updateEntry st k (\<lambda>_. e')) f' \<and> replaces m m' f f'"
proof -
  have f: "mset f = mset (fe @ fr)" using assms(1) by (simp add: storeFocus_def)
  have "agree fr (cells m) (cells m')" using replaces_frame(2) [OF assms(3) f refl assms(6,4,5)] .
  then obtain f' where "storeAt (cells m') s (updateEntry st k (\<lambda>_. e')) f'" "mset f' = mset (fe' @ fr)"
    using assms(1,2) unfolding storeFocus_def by blast
  then show ?thesis using replaces_frame(1) [OF assms(3) f _ assms(6,4,5)] by blast
qed

lemma updateChain_found: "List.find (\<lambda>e. skey e = k) es = Some e \<Longrightarrow> updateChain k (\<lambda>_. g e) es = updateChain k g es"
  by (induction es) auto

lemma updateEntry_found: "findEntry st k = Some e \<Longrightarrow> updateEntry st k (\<lambda>_. g e) = updateEntry st k g"
  by (simp add: findEntry_def updateEntry_def Let_def updateChain_found)

lemma updateChain_same: "List.find (\<lambda>e. skey e = k) es = Some e \<Longrightarrow> updateChain k (\<lambda>_. e) es = es"
  by (induction es) auto

lemma updateEntry_same: "findEntry st k = Some e \<Longrightarrow> updateEntry st k (\<lambda>_. e) = st"
  by (simp add: findEntry_def updateEntry_def Let_def updateChain_same)

section \<open>Changing an entry\<close>

lemma replaces_write:
  assumes "wf_memory m" and "distinct f" and "a \<in> set f" and "cells m a = Some y"
  shows "replaces m (m\<lparr>cells := (cells m)(a \<mapsto> x)\<rparr>) f f"
  using assms grows_wf [OF grows_write [OF assms(1,4)]] by (auto simp: replaces_def)

lemma storeEntryAt_expiry:
  assumes "storeEntryAt c a (nx, e) f" and "distinct f" and "c a = Some (StoreEntryO key t d nx ex)"
  shows "storeEntryAt (c(a \<mapsto> StoreEntryO key t d nx t')) a (nx, e\<lparr>expiry := t'\<rparr>) f"
  using assms(1)
proof cases
  case (store_entry key' ty d' g)
  have eq: "key' = key" "ty = t" "d' = d" using store_entry(3) assms(3) by auto
  let ?c = "c(a \<mapsto> StoreEntryO key t d nx t')"
  have "agree (key # g) c ?c" using assms(2) store_entry(1) eq by (auto simp: agree_def)
  then show ?thesis unfolding store_entry(1)
    using store_entry eq dataAt_frame strAt_frame by (intro storeEntryAt.store_entry) auto
qed

lemma setExpiryM_result:
  assumes "wf_memory m" and "storeAt (cells m) s st f" and "distinct f" and "0 < tableSize st"
  shows "\<exists>m' f'. setExpiryM s k t m = Ok (snd (setExpiry st k t), m') \<and> storeAt (cells m') s (fst (setExpiry st k t)) f' \<and> replaces m m' f f'"
proof (cases "findEntry st k")
  case None
  then have "storeFindM s k m = Ok 0" using storeFindM_result [OF assms, of k] by simp
  with None assms show ?thesis by (auto simp: setExpiryM_def setExpiry_def intro!: replaces_refl)
next
  case (Some e)
  then obtain b nx fe fr where b: "storeFindM s k m = Ok b" and focus: "storeFocus (cells m) s st f k b nx e fe fr"
    using storeFindM_result [OF assms, of k] by auto
  have at: "storeEntryAt (cells m) b (nx, e) fe" and mf: "mset f = mset (fe @ fr)" using focus by (auto simp: storeFocus_def)
  have d: "distinct fe" using mf assms(3) mset_eq_imp_distinct_iff by (metis distinct_append)
  obtain key ty dd where o: "cells m b = Some (StoreEntryO key ty dd nx (expiry e))" "b \<noteq> 0" "b \<in> set fe"
    using storeEntryAt_read [OF at] by metis
  let ?m = "m\<lparr>cells := (cells m)(b \<mapsto> StoreEntryO key ty dd nx t)\<rparr>"
  have "storeEntryAt (cells ?m) b (nx, e\<lparr>expiry := t\<rparr>) fe" using storeEntryAt_expiry [OF at d o(1)] by simp
  from storeFocus_update [OF focus this replaces_write [OF assms(1) d o(3,1)] assms(1) storeAt_live [OF assms(2)] assms(3)]
  obtain f' where "storeAt (cells ?m) s (updateEntry st k (\<lambda>_. e\<lparr>expiry := t\<rparr>)) f'" "replaces m ?m f f'" by blast
  moreover have "setExpiryM s k t m = Ok (True, ?m)" using b o by (simp add: setExpiryM_def withStoreEntry_Some writeCell_Some)
  ultimately show ?thesis using Some updateEntry_found [OF Some, of "\<lambda>e. e\<lparr>expiry := t\<rparr>"]
    by (intro exI [of _ ?m] exI [of _ f']) (simp add: setExpiry_def)
qed

lemma replaces_discard_part:
  assumes "wf_memory m" and "distinct (f @ g)"
  shows "replaces m (discard f m) (f @ g) g"
  using assms by (auto simp: replaces_def)

lemma replaces_malloc:
  assumes "wf_memory m" and "distinct f" and "set f \<subseteq> dom (cells m)" and "c_malloc ok x m = (p, m')"
  shows "replaces m m' f (nz [p] @ f)"
proof -
  have g: "grows m m' {brk m}" "brk m' = Suc (brk m)" "p = (if ok (brk m) then brk m else 0)"
    "cells m' = (if ok (brk m) then (cells m)(brk m \<mapsto> x) else cells m)" using grows_malloc [OF assms(1,4)] by auto
  have "brk m \<notin> set f" "0 < brk m" using live_below_set [OF assms(1,3)] assms(1) by (auto simp: wf_memory_def)
  then show ?thesis using assms(2) g grows_wf [OF g(1)] by (auto simp: replaces_def nz_def)
qed

text \<open>The blocks of an entry, with the new value or without one.\<close>

lemma setValueM_result:
  assumes "wf_memory m" and "storeEntryAt (cells m) b (nx, e) fe" and "distinct fe"
  shows "\<exists>r m' fe'. setValueM ok b v m = Ok (r, m') \<and> ((\<forall>a. ok a) \<longrightarrow> r) \<and> replaces m m' fe fe' \<and>
    storeEntryAt (cells m') b (nx, e\<lparr>svalue := if r then StringValue v else StringNull\<rparr>) fe'"
  using assms(2)
proof cases
  case (store_entry key t d g)
  have dg: "distinct (g @ [key, b])" using assms(3) store_entry(1) by auto
  have "length g \<le> brk m" using footprint_bound [OF assms(1) storeEntryAt_live [OF assms(2)] assms(3)] store_entry(1) by simp
  then have free: "freeData (brk m) t d m = Ok (discard g m)" using dg by (intro freeData_exact [OF store_entry(5)]) auto
  let ?m = "discard g m"
  have r1: "replaces m ?m (g @ [key, b]) [key, b]" by (rule replaces_discard_part [OF assms(1) dg])
  have c1: "cells ?m key = Some (CharsO (skey e @ [NUL]))" "key \<noteq> 0" "nul_free (skey e)" "cells ?m b = Some (StoreEntryO key t d nx (expiry e))"
    using store_entry(3,4) dg by (auto simp: strAt_def)
  obtain p m2 where p: "c_malloc ok (CharsO v) ?m = (p, m2)" by fastforce
  note gm = grows_malloc [OF wf_memory_discard [OF assms(1)] p]
  have pne: "p \<noteq> 0 \<longleftrightarrow> ok (brk m)" using gm assms(1) by (auto simp: wf_memory_def)
  have "set [key, b] \<subseteq> dom (cells ?m)" using c1 by (auto simp: dom_def)
  then have r2: "replaces ?m m2 [key, b] (nz [p] @ [key, b])" using dg by (intro replaces_malloc [OF wf_memory_discard [OF assms(1)] _ _ p]) auto
  have bne: "brk m \<noteq> key" "brk m \<noteq> b" using live_below [OF wf_memory_discard [OF assms(1)]] c1 by auto
  have c2: "cells m2 key = cells ?m key" "cells m2 b = cells ?m b" using gm bne by auto
  define x where "x = StoreEntryO key TYPE_STRING (if p = 0 then StringS 0 (case d of StringS _ len \<Rightarrow> len | StreamS _ \<Rightarrow> 0) else StringS p (length v)) nx (expiry e)"
  let ?m3 = "m2\<lparr>cells := (cells m2)(b \<mapsto> x)\<rparr>"
  have run: "setValueM ok b v m = Ok (p \<noteq> 0, ?m3)"
    using store_entry(2,3) free p writeCell_Some [OF store_entry(2), of m2] c1(4) c2(2)
    by (simp add: setValueM_def withStoreEntry_Some x_def)
  let ?fe = "key # nz [p] @ [b]"
  have wf2: "wf_memory m2" "distinct (nz [p] @ [key, b])" using r2 by (auto simp: replaces_def)
  have "replaces m2 ?m3 (nz [p] @ [key, b]) (nz [p] @ [key, b])"
    using c1(4) c2(2) by (intro replaces_write [OF wf2]) auto
  from replaces_trans [OF replaces_trans [OF r1 r2 assms(1)] this assms(1)]
  have "replaces m ?m3 (g @ [key, b]) (nz [p] @ [key, b])" .
  then have "replaces m ?m3 fe ?fe" using store_entry(1) by (auto simp: replaces_def)
  moreover have "dataAt (cells ?m3) TYPE_STRING (if p = 0 then StringS 0 (case d of StringS _ len \<Rightarrow> len | StreamS _ \<Rightarrow> 0) else StringS p (length v))
      (if p \<noteq> 0 then StringValue v else StringNull) (nz [p])"
    using gm pne bne(2) by (auto simp: nz_def intro!: dataAt.intros)
  then have "storeEntryAt (cells ?m3) b (nx, e\<lparr>svalue := if p \<noteq> 0 then StringValue v else StringNull\<rparr>) ?fe"
    using store_entry(2) c1 c2 wf2(2) by (intro storeEntryAt.store_entry) (auto simp: x_def strAt_def)
  ultimately show ?thesis using run pne by blast
qed

section \<open>Linking an entry\<close>

lemma writeSlot_at:
  assumes "e \<noteq> 0" and "cells m e = Some (PointersO (map Some as))" and "i < length as"
  shows "writeSlot e i q m = Ok (m\<lparr>cells := (cells m)(e \<mapsto> PointersO (map Some (as[i := q])))\<rparr>)"
  using assms by (simp add: writeSlot_def readCell_Some writeCell_Some map_update)

lemma readSlot_at: "e \<noteq> 0 \<Longrightarrow> cells m e = Some (PointersO (map Some as)) \<Longrightarrow> i < length as \<Longrightarrow> readSlot e i m = Ok (as ! i)"
  by (simp add: readSlot_def readCell_Some)

lemma replaces_writes:
  assumes "wf_memory m" and "distinct f" and "wf_memory m'" and "brk m' = brk m" and "\<And>x. x \<notin> set f \<Longrightarrow> cells m' x = cells m x"
    and "mset f' = mset f"
  shows "replaces m m' f f'"
  using assms mset_eq_setD [OF assms(6)] mset_eq_imp_distinct_iff [OF assms(6)] by (auto simp: replaces_def) 

lemma linkFront_result:
  assumes "wf_memory m" and "storeAt (cells m) s st f" and "0 < tableSize st" and "distinct (f @ key # g @ [a])"
    and "strAt (cells m) key (skey e)" and "dataAt (cells m) t d (svalue e) g" and "a \<noteq> 0" and "cells m a = Some y"
  shows "\<exists>m' f'. linkFront s (skey e) a (\<lambda>nx. StoreEntryO key t d nx (expiry e)) m = Ok m' \<and>
    storeAt (cells m') s (insertEntry st e) f' \<and> replaces m m' (f @ key # g @ [a]) f' \<and> storeFindM s (skey e) m' = Ok a"
proof -
  let ?h = "bucket (tableSize st) (skey e)"
  obtain tbl as g1 fh g2 where s: "s \<noteq> 0" "tbl \<noteq> 0" "cells m s = Some (StoreO tbl (tableSize st) (used st))"
      "cells m tbl = Some (PointersO (map Some as))" "length as = tableSize st" "length (table st) = tableSize st"
    and f: "f = g1 @ fh @ g2 @ [tbl, s]" and ch: "chainAt storeEntryAt (cells m) (as ! ?h) (table st ! ?h) fh"
    and re: "\<And>c' b es f'. agree (g1 @ g2) (cells m) c' \<Longrightarrow> chainAt storeEntryAt c' b es f' \<Longrightarrow>
      slotsAt (chainAt storeEntryAt) c' (as[?h := b]) ((table st)[?h := es]) (g1 @ f' @ g2)"
    using storeAt_bucket [OF assms(2,3) bucket_less [OF assms(3)]] by metis
  let ?x = "StoreEntryO key t d (as ! ?h) (expiry e)"
  let ?c = "(cells m)(a \<mapsto> ?x, tbl \<mapsto> PointersO (map Some (as[?h := a])), s \<mapsto> StoreO tbl (tableSize st) (Suc (used st)))"
  let ?m = "m\<lparr>cells := ?c\<rparr>"
  have ne: "a \<noteq> tbl" "a \<noteq> s" "tbl \<noteq> s" "?h < length as" using assms(3,4) f s(5) by auto
  have run: "linkFront s (skey e) a (\<lambda>nx. StoreEntryO key t d nx (expiry e)) m = Ok ?m"
    using s ne assms(7,8) writeSlot_at [OF s(2), of "m\<lparr>cells := (cells m)(a \<mapsto> ?x)\<rparr>" as ?h a]
    by (simp add: linkFront_def withStore_def readCell_Some readSlot_at writeCell_Some)
  have "agree (key # g) (cells m) ?c" "agree fh (cells m) ?c" "agree (g1 @ g2) (cells m) ?c"
    using assms(4) f by (auto simp: agree_def)
  note fr = this
  have "storeEntryAt ?c a (as ! ?h, e) (key # g @ [a])"
    using assms(5-7) ne fr(1) dataAt_frame strAt_frame by (intro storeEntryAt.store_entry) auto
  from re [OF fr(3) chainAt.chain_Cons [where rep = storeEntryAt, OF this store_mem.chain_frame [OF ch fr(2)]]]
  have "slotsAt (chainAt storeEntryAt) ?c (as[?h := a]) (table (insertEntry st e)) (g1 @ ((key # g @ [a]) @ fh) @ g2)"
    by (simp add: insertEntry_def insertFront_def Let_def)
  then have "storeAt ?c s (insertEntry st e) (g1 @ ((key # g @ [a]) @ fh) @ g2 @ [tbl, s])" unfolding storeAt_def
    using s ne by (intro exI [of _ tbl] exI [of _ "as[?h := a]"] exI [of _ "g1 @ ((key # g @ [a]) @ fh) @ g2"]) (simp add: insertEntry_def)
  moreover have "wf_memory ?m" using assms(1,8) s(3,4) live_below [OF assms(1)] by (auto simp: wf_memory_iff)
  then have "replaces m ?m (f @ key # g @ [a]) (g1 @ ((key # g @ [a]) @ fh) @ g2 @ [tbl, s])"
    using f by (intro replaces_writes [OF assms(1,4)]) auto
  moreover have "storeFindM s (skey e) ?m = Ok a"
  proof -
    obtain n where "brk ?m = Suc n" using assms(1) by (cases "brk m") (auto simp: wf_memory_def)
    moreover have "loadString key ?m = Ok (skey e)" using fr(1) strAt_frame [OF assms(5), of ?c] by (intro loadString_strAt) auto
    ultimately show ?thesis using s ne assms(7) by (simp add: storeFindM_def withStore_def readCell_Some readSlot_at withStoreEntry_Some)
  qed
  ultimately show ?thesis using run by (intro exI [of _ ?m] exI [of _ "g1 @ ((key # g @ [a]) @ fh) @ g2 @ [tbl, s]"]) simp
qed

lemma storeAt_frame:
  assumes "storeAt c s st f" and "agree f c c'"
  shows "storeAt c' s st f"
  using assms bucket_mem.slots_frame unfolding storeAt_def by fastforce

text \<open>The three blocks of a new entry: those that were allocated before one failed are gone again.\<close>

lemma malloc3:
  assumes "wf_memory m" and "c_malloc ok x m = (a, m1)" and "c_malloc ok y m1 = (b, m2)" and "c_malloc ok z m2 = (c, m3)"
  shows "wf_memory m1" and "wf_memory m2" and "wf_memory m3" and "brk m1 = Suc (brk m)" and "brk m2 = Suc (Suc (brk m))" and "brk m3 = Suc (Suc (Suc (brk m)))"
    and "a = 0 \<longleftrightarrow> \<not> ok (brk m)" and "b = 0 \<longleftrightarrow> \<not> ok (Suc (brk m))" and "c = 0 \<longleftrightarrow> \<not> ok (Suc (Suc (brk m)))"
    and "a = 0 \<Longrightarrow> cells m1 = cells m" and "a \<noteq> 0 \<Longrightarrow> b = 0 \<Longrightarrow> a = brk m \<and> cells m2 = (cells m)(a \<mapsto> x)"
    and "a \<noteq> 0 \<Longrightarrow> b \<noteq> 0 \<Longrightarrow> c = 0 \<Longrightarrow> a = brk m \<and> b = Suc (brk m) \<and> cells m3 = (cells m)(a \<mapsto> x, b \<mapsto> y)"
    and "a \<noteq> 0 \<Longrightarrow> b \<noteq> 0 \<Longrightarrow> c \<noteq> 0 \<Longrightarrow> a = brk m \<and> b = Suc (brk m) \<and> c = Suc (Suc (brk m)) \<and> cells m3 = (cells m)(a \<mapsto> x, b \<mapsto> y, c \<mapsto> z)"
proof -
  note g1 = grows_malloc [OF assms(1,2)]
  show wf1: "wf_memory m1" using g1 grows_wf by blast
  note g2 = grows_malloc [OF wf1 assms(3)]
  show wf2: "wf_memory m2" using g2 grows_wf by blast
  note g3 = grows_malloc [OF wf2 assms(4)]
  show "wf_memory m3" using g3 grows_wf by blast
  have "0 < brk m" using assms(1) by (simp add: wf_memory_def)
  with g1 g2 g3 show "brk m1 = Suc (brk m)" "brk m2 = Suc (Suc (brk m))" "brk m3 = Suc (Suc (Suc (brk m)))"
    "a = 0 \<longleftrightarrow> \<not> ok (brk m)" "b = 0 \<longleftrightarrow> \<not> ok (Suc (brk m))" "c = 0 \<longleftrightarrow> \<not> ok (Suc (Suc (brk m)))"
    "a = 0 \<Longrightarrow> cells m1 = cells m" "a \<noteq> 0 \<Longrightarrow> b = 0 \<Longrightarrow> a = brk m \<and> cells m2 = (cells m)(a \<mapsto> x)"
    "a \<noteq> 0 \<Longrightarrow> b \<noteq> 0 \<Longrightarrow> c = 0 \<Longrightarrow> a = brk m \<and> b = Suc (brk m) \<and> cells m3 = (cells m)(a \<mapsto> x, b \<mapsto> y)"
    "a \<noteq> 0 \<Longrightarrow> b \<noteq> 0 \<Longrightarrow> c \<noteq> 0 \<Longrightarrow> a = brk m \<and> b = Suc (brk m) \<and> c = Suc (Suc (brk m)) \<and> cells m3 = (cells m)(a \<mapsto> x, b \<mapsto> y, c \<mapsto> z)"
    by (simp_all split: if_splits)
qed

text \<open>
  The insertion of a new key, when every allocation succeeds and when one of the three does not.
\<close>

lemma insertM_result:
  assumes "wf_memory m" and "storeAt (cells m) s st f" and "distinct f" and "0 < tableSize st" and "nul_free k"
  shows "\<exists>r m' f'. insertM ok s k v m = Ok (r, m') \<and> ((\<forall>a. ok a) \<longrightarrow> r) \<and> replaces m m' f f' \<and>
    storeAt (cells m') s (if r then insertEntry st \<lparr>skey = k, svalue = StringValue v, expiry = 0\<rparr> else st) f'"
proof -
  obtain a m1 where a: "c_malloc ok UnsetO m = (a, m1)" by fastforce
  obtain key m2 where key: "c_malloc ok (CharsO (k @ [NUL])) m1 = (key, m2)" by fastforce
  obtain p m3 where p: "c_malloc ok (CharsO v) m2 = (p, m3)" by fastforce
  note al = malloc3 [OF assms(1) a key p]
  let ?b = "brk m"
  have b: "cells m ?b = None" "cells m (Suc ?b) = None" "\<And>x. x \<in> set f \<Longrightarrow> x < ?b"
    using wf_memory_fresh [OF assms(1)] live_below_set [OF assms(1) storeAt_live [OF assms(2)]] by auto
  have fail: ?thesis if "insertM ok s k v m = Ok (False, m')" "wf_memory m'" "cells m' = cells m" "brk m \<le> brk m'" "\<not> (\<forall>a. ok a)" for m'
    using that assms(2,3) by (intro exI [of _ False] exI [of _ m'] exI [of _ f]) (auto simp: replaces_def)
  consider "a = 0" | "a \<noteq> 0" "key = 0" | "a \<noteq> 0" "key \<noteq> 0" "p = 0" | "a \<noteq> 0" "key \<noteq> 0" "p \<noteq> 0" by blast
  then show ?thesis
  proof cases
    case 1
    then have "insertM ok s k v m = Ok (False, m1)" using a by (simp add: insertM_def)
    then show ?thesis using al(1,4,7) al(10) [OF 1] 1 by (intro fail [of m1]) auto
  next
    case 2
    have c: "a = ?b" "cells m2 = (cells m)(a \<mapsto> UnsetO)" using al(11) 2 by auto
    have "insertM ok s k v m = Ok (False, discard [a] m2)" using 2 a key c by (simp add: insertM_def c_free_Some)
    moreover have "cells (discard [a] m2) = cells m" using c b by (auto simp: fun_eq_iff)
    ultimately show ?thesis using al(2,5,8) 2 by (intro fail [of "discard [a] m2"]) auto
  next
    case 3
    have c: "a = ?b" "key = Suc ?b" "cells m3 = (cells m)(a \<mapsto> UnsetO, key \<mapsto> CharsO (k @ [NUL]))" using al(12) 3 by auto
    have "frees [key, a] m3 = Ok (discard (nz [key, a]) m3)" using c by (intro frees_exact) auto
    then have "insertM ok s k v m = Ok (False, discard [key, a] m3)" using 3 a key p by (simp add: insertM_def del: frees.simps)
    moreover have "cells (discard [key, a] m3) = cells m" using c b by (auto simp: fun_eq_iff)
    ultimately show ?thesis using al(3,6,9) 3 by (intro fail [of "discard [key, a] m3"]) auto
  next
    case 4
    have c: "a = ?b" "key = Suc ?b" "p = Suc (Suc ?b)" and cells3: "cells m3 = (cells m)(a \<mapsto> UnsetO, key \<mapsto> CharsO (k @ [NUL]), p \<mapsto> CharsO v)"
      using al(13) 4 by auto
    have new: "a \<notin> set f" "key \<notin> set f" "p \<notin> set f" using b(3) c by fastforce+
    then have "agree f (cells m) (cells m3)" using cells3 by (auto simp: agree_def)
    then have at: "storeAt (cells m3) s st f" by (rule storeAt_frame [OF assms(2)])
    have d: "distinct (f @ key # [p] @ [a])" using assms(3) new c by simp
    let ?e = "\<lparr>skey = k, svalue = StringValue v, expiry = 0\<rparr>"
    have dat: "dataAt (cells m3) TYPE_STRING (StringS p (length v)) (svalue ?e) [p]" using cells3 4 by (auto intro: dataAt.intros)
    have str: "strAt (cells m3) key (skey ?e)" "cells m3 a = Some UnsetO" using cells3 c 4 assms(5) by (simp_all add: strAt_def)
    obtain m' f' where r: "linkFront s (skey ?e) a (\<lambda>nx. StoreEntryO key TYPE_STRING (StringS p (length v)) nx (expiry ?e)) m3 = Ok m'"
        "storeAt (cells m') s (insertEntry st ?e) f'" "replaces m3 m' (f @ key # [p] @ [a]) f'"
      using linkFront_result [OF al(3) at assms(4) d str(1) dat 4(1) str(2)] by blast
    have "replaces m m3 f (f @ key # [p] @ [a])" using d al(3,6) c cells3 unfolding replaces_def by simp
    from replaces_trans [OF this r(3) assms(1)] show ?thesis using 4 a key p r(1,2)
      by (intro exI [of _ True] exI [of _ m'] exI [of _ f']) (simp add: insertM_def)
  qed
qed

section \<open>Moving the entries\<close>

text \<open>
  One entry moves from the front of an old chain to the front of its chain in the new table: only
  its \<^verbatim>\<open>next\<close> and the slot of the new table are written.
\<close>

lemma relink_step:
  assumes "storeEntryAt (cells m) a (nx, e) fe" and "slotsAt (chainAt storeEntryAt) (cells m) as T g" and "cells m nt = Some (PointersO (map Some as))"
    and "nt \<noteq> 0" and "distinct (nt # fe @ g)" and "0 < N" and "length as = N"
  obtains m1 g' where "relinkChain (Suc n) N nt a m = relinkChain n N nt nx m1"
    and "slotsAt (chainAt storeEntryAt) (cells m1) (as[bucket N (skey e) := a]) (insertFront N T e) g'" and "mset g' = mset (fe @ g)"
    and "cells m1 nt = Some (PointersO (map Some (as[bucket N (skey e) := a])))" and "brk m1 = brk m"
    and "\<And>y. y \<noteq> a \<Longrightarrow> y \<noteq> nt \<Longrightarrow> cells m1 y = cells m y" and "dom (cells m1) = dom (cells m)"
proof -
  let ?h = "bucket N (skey e)"
  have h: "?h < length as" using assms(6,7) by simp
  obtain g1 fh g2 where g: "g = g1 @ fh @ g2" and ch: "chainAt storeEntryAt (cells m) (as ! ?h) (T ! ?h) fh"
    and re: "\<And>c' b es f'. agree (g1 @ g2) (cells m) c' \<Longrightarrow> chainAt storeEntryAt c' b es f' \<Longrightarrow>
      slotsAt (chainAt storeEntryAt) c' (as[?h := b]) (T[?h := es]) (g1 @ f' @ g2)"
    using bucket_mem.slots_focus [OF assms(2) h] by metis
  obtain key t d where o: "cells m a = Some (StoreEntryO key t d nx (expiry e))" "loadString key m = Ok (skey e)" "a \<noteq> 0" "a \<in> set fe"
    using storeEntryAt_read [OF assms(1)] by metis
  let ?x = "StoreEntryO key t d (as ! ?h) (expiry e)"
  define m1 where "m1 = m\<lparr>cells := (cells m)(a \<mapsto> ?x, nt \<mapsto> PointersO (map Some (as[?h := a])))\<rparr>"
  have ne: "a \<noteq> nt" "a \<notin> set g" using assms(5) o(4) by auto
  have run: "relinkChain (Suc n) N nt a m = relinkChain n N nt nx m1"
    using o assms(3,4) h ne writeSlot_at [OF assms(4), of "m\<lparr>cells := (cells m)(a \<mapsto> ?x)\<rparr>" as ?h a]
    by (simp add: withStoreEntry_Some readSlot_at writeCell_Some m1_def)
  have fr: "agree fh (cells m) (cells m1)" "agree (g1 @ g2) (cells m) (cells m1)"
    using assms(5) ne g by (auto simp: agree_def m1_def)
  have "storeEntryAt (cells m1) a (as ! ?h, e) fe"
    by (rule storeEntryAt_next [OF assms(1) _ o(1)]) (use assms(5) ne in \<open>auto simp: m1_def\<close>)
  from re [OF fr(2) chainAt.chain_Cons [where rep = storeEntryAt, OF this store_mem.chain_frame [OF ch fr(1)]]]
  have "slotsAt (chainAt storeEntryAt) (cells m1) (as[?h := a]) (insertFront N T e) (g1 @ (fe @ fh) @ g2)"
    by (simp add: insertFront_def Let_def)
  then show ?thesis using run o(1) assms(3) by (rule_tac that [of m1]) (auto simp: g m1_def dom_def)
qed

text \<open>\<open>relinked\<close>: the entries \<open>es\<close> with the blocks \<open>f\<close> have been moved into the new table.\<close>

definition relinked :: "nat \<Rightarrow> addr \<Rightarrow> StoreEntry list list \<Rightarrow> addr list \<Rightarrow> StoreEntry list \<Rightarrow> addr list \<Rightarrow> Memory \<Rightarrow> Memory run \<Rightarrow> bool" where
  "relinked N nt T g es f m r \<longleftrightarrow>
     (\<exists>m' as g'. r = Ok m' \<and> slotsAt (chainAt storeEntryAt) (cells m') as (foldl (insertFront N) T es) g' \<and> mset g' = mset (f @ g) \<and>
        cells m' nt = Some (PointersO (map Some as)) \<and> length as = N \<and> brk m' = brk m \<and> dom (cells m') = dom (cells m) \<and>
        (\<forall>y. y \<notin> set f \<longrightarrow> y \<noteq> nt \<longrightarrow> cells m' y = cells m y))"

lemma relinkChain_result:
  assumes "chainAt storeEntryAt (cells m) a es f" and "slotsAt (chainAt storeEntryAt) (cells m) as T g" and "cells m nt = Some (PointersO (map Some as))"
    and "nt \<noteq> 0" and "distinct (nt # f @ g)" and "0 < N" and "length as = N" and "length es \<le> n"
  shows "relinked N nt T g es f m (relinkChain n N nt a m)"
  using assms
proof (induction es arbitrary: m a f as T g n)
  case Nil
  then have "a = 0" "f = []" by (auto elim: chainAt_NilE)
  then have "relinkChain n N nt a m = Ok m" by (cases n) simp_all
  then show ?case using Nil \<open>f = []\<close> unfolding relinked_def by auto
next
  case (Cons e es)
  from Cons.prems(1) obtain nx fe fr where e: "storeEntryAt (cells m) a (nx, e) fe" and ch: "chainAt storeEntryAt (cells m) nx es fr"
    and f: "f = fe @ fr" by (auto elim: chainAt_ConsE)
  obtain n' where n: "n = Suc n'" "length es \<le> n'" using Cons.prems(8) by (cases n) auto
  have d: "distinct (nt # fe @ g)" "distinct (nt # fr @ fe @ g)" using Cons.prems(5) f by auto
  have a: "a \<in> set fe" using store_mem.rep_head [OF e] by simp
  obtain m1 g1 where s: "relinkChain (Suc n') N nt a m = relinkChain n' N nt nx m1"
      "slotsAt (chainAt storeEntryAt) (cells m1) (as[bucket N (skey e) := a]) (insertFront N T e) g1" "mset g1 = mset (fe @ g)"
      "cells m1 nt = Some (PointersO (map Some (as[bucket N (skey e) := a])))" "brk m1 = brk m"
      "\<And>y. y \<noteq> a \<Longrightarrow> y \<noteq> nt \<Longrightarrow> cells m1 y = cells m y" "dom (cells m1) = dom (cells m)"
    using relink_step [OF e Cons.prems(2-4) d(1) Cons.prems(6,7), of n'] by metis
  have "a \<notin> set fr" "nt \<notin> set fr" using d(2) a by auto
  then have "agree fr (cells m) (cells m1)" unfolding agree_def using s(6) by metis
  then have ch1: "chainAt storeEntryAt (cells m1) nx es fr" by (rule store_mem.chain_frame [OF ch])
  have "mset (nt # fr @ g1) = mset (nt # fr @ fe @ g)" using s(3) by simp
  then have d1: "distinct (nt # fr @ g1)" using d(2) mset_eq_imp_distinct_iff by blast
  have "relinked N nt (insertFront N T e) g1 es fr m1 (relinkChain n' N nt nx m1)"
    using Cons.IH [OF ch1 s(2,4) Cons.prems(4) d1 Cons.prems(6) _ n(2)] Cons.prems(7) by simp
  then obtain m' as' g' where r: "relinkChain n' N nt nx m1 = Ok m'"
      "slotsAt (chainAt storeEntryAt) (cells m') as' (foldl (insertFront N) (insertFront N T e) es) g'" "mset g' = mset (fr @ g1)"
      "cells m' nt = Some (PointersO (map Some as'))" "length as' = N" "brk m' = brk m1" "dom (cells m') = dom (cells m1)"
      "\<And>y. y \<notin> set fr \<Longrightarrow> y \<noteq> nt \<Longrightarrow> cells m' y = cells m1 y" unfolding relinked_def by blast
  have "cells m' y = cells m y" if "y \<notin> set f" "y \<noteq> nt" for y using that r(8) [of y] s(6) [of y] f a by auto
  then show ?case unfolding relinked_def using r s n f
    by (intro exI [of _ m'] exI [of _ as'] exI [of _ g']) simp
qed

lemma relinkTable_result:
  assumes "slotsAt (chainAt storeEntryAt) (cells m) olds ess f" and "slotsAt (chainAt storeEntryAt) (cells m) as T g"
    and "cells m nt = Some (PointersO (map Some as))" and "cells m tbl = Some (PointersO (map Some (bs @ olds)))" and "length bs = i"
    and "nt \<noteq> 0" and "tbl \<noteq> 0" and "distinct (nt # tbl # f @ g)" and "0 < N" and "length as = N" and "length f \<le> n"
  shows "relinked N nt T g (concat ess) f m (relinkTable n N nt tbl i (length olds) m)"
  using assms
proof (induction olds arbitrary: m ess f as T g bs i)
  case Nil
  then have "ess = []" "f = []" by auto
  with Nil show ?case unfolding relinked_def by auto
next
  case (Cons a olds)
  from Cons.prems(1) obtain es fe ess' fr where ess: "ess = es # ess'" and f: "f = fe @ fr"
    and ch: "chainAt storeEntryAt (cells m) a es fe" and sl: "slotsAt (chainAt storeEntryAt) (cells m) olds ess' fr"
    by (auto elim: slotsAt_ConsE)
  have d: "distinct (nt # fe @ g)" "distinct (nt # tbl # fr @ fe @ g)" using Cons.prems(8) f by auto
  have read: "readSlot tbl i m = Ok a" using readSlot_at [OF Cons.prems(7,4), of i] Cons.prems(5) by (simp add: nth_append)
  have "length es \<le> n" using chain_entries_bound [OF ch] Cons.prems(11) f by simp
  then obtain m1 as1 g1 where r: "relinkChain n N nt a m = Ok m1"
      "slotsAt (chainAt storeEntryAt) (cells m1) as1 (foldl (insertFront N) T es) g1" "mset g1 = mset (fe @ g)"
      "cells m1 nt = Some (PointersO (map Some as1))" "length as1 = N" "brk m1 = brk m" "dom (cells m1) = dom (cells m)"
      "\<And>y. y \<notin> set fe \<Longrightarrow> y \<noteq> nt \<Longrightarrow> cells m1 y = cells m y"
    using relinkChain_result [OF ch Cons.prems(2,3,6) d(1) Cons.prems(9,10)] unfolding relinked_def by blast
  have "agree fr (cells m) (cells m1)" unfolding agree_def using r(8) d(2) by force
  then have sl1: "slotsAt (chainAt storeEntryAt) (cells m1) olds ess' fr" by (rule bucket_mem.slots_frame [OF sl])
  have t1: "cells m1 tbl = Some (PointersO (map Some ((bs @ [a]) @ olds)))" using r(8) [of tbl] Cons.prems(4) d(2) by auto
  have "mset (nt # tbl # fr @ g1) = mset (nt # tbl # fr @ fe @ g)" using r(3) by simp
  then have d1: "distinct (nt # tbl # fr @ g1)" using d(2) mset_eq_imp_distinct_iff by blast
  have "relinked N nt (foldl (insertFront N) T es) g1 (concat ess') fr m1 (relinkTable n N nt tbl (Suc i) (length olds) m1)"
    using Cons.prems(5,11) f by (intro Cons.IH [OF sl1 r(2,4) t1 _ Cons.prems(6,7) d1 Cons.prems(9) r(5)]) auto
  then obtain m' as' g' where q: "relinkTable n N nt tbl (Suc i) (length olds) m1 = Ok m'"
      "slotsAt (chainAt storeEntryAt) (cells m') as' (foldl (insertFront N) (foldl (insertFront N) T es) (concat ess')) g'" "mset g' = mset (fr @ g1)"
      "cells m' nt = Some (PointersO (map Some as'))" "length as' = N" "brk m' = brk m1" "dom (cells m') = dom (cells m1)"
      "\<And>y. y \<notin> set fr \<Longrightarrow> y \<noteq> nt \<Longrightarrow> cells m' y = cells m1 y" unfolding relinked_def by blast
  have "cells m' y = cells m y" if "y \<notin> set f" "y \<noteq> nt" for y using that r(8) q(8) f by auto
  then show ?case unfolding relinked_def using q r(1,3,6,7) read f ess
    by (intro exI [of _ m'] exI [of _ as'] exI [of _ g']) simp
qed

lemma empty_buckets: "slotsAt (chainAt storeEntryAt) c (replicate n 0) (replicate n []) []"
proof (induction n)
  case (Suc n)
  from slotsAt.slots_Cons [where rep = "chainAt storeEntryAt", OF chainAt.chain_Nil Suc] show ?case by simp
qed (simp add: slotsAt.intros)

lemma resizeM_result:
  assumes "wf_memory m" and "storeAt (cells m) s st f" and "distinct f" and "0 < tableSize st" and "ok (brk m)"
  shows "\<exists>m' f'. resizeM ok s m = Ok m' \<and> storeAt (cells m') s (resize st) f' \<and> replaces m m' f f'"
proof -
  obtain tbl as g where s: "s \<noteq> 0" "tbl \<noteq> 0" "cells m s = Some (StoreO tbl (tableSize st) (used st))" "cells m tbl = Some (PointersO (map Some ([] @ as)))"
      "length as = tableSize st" and sl: "slotsAt (chainAt storeEntryAt) (cells m) as (table st) g" and f: "f = g @ [tbl, s]"
    using assms(2) by (auto simp: storeAt_def)
  let ?N = "tableSize st * 2" and ?nt = "brk m"
  let ?m1 = "m\<lparr>cells := (cells m)(?nt \<mapsto> PointersO (map Some (replicate ?N 0))), brk := Suc ?nt\<rparr>"
  have nt: "c_malloc ok (PointersO (replicate ?N (Some 0))) m = (?nt, ?m1)" using assms(5) by (simp add: c_malloc_def)
  have new: "?nt \<notin> set f" "?nt \<noteq> 0" using live_below_set [OF assms(1) storeAt_live [OF assms(2)]] assms(1) by (auto simp: wf_memory_def)
  have d: "distinct (?nt # tbl # g @ [])" "s \<notin> set g" "s \<noteq> tbl" "s \<noteq> ?nt" using assms(3) f new by auto
  have "agree f (cells m) (cells ?m1)" using new by (auto simp: agree_def)
  then have sl1: "slotsAt (chainAt storeEntryAt) (cells ?m1) as (table st) g" using f by (intro bucket_mem.slots_frame [OF sl]) simp
  have "length g \<le> brk ?m1" using footprint_bound [OF assms(1) storeAt_live [OF assms(2)] assms(3)] f by simp
  then have "relinked ?N ?nt (replicate ?N []) [] (concat (table st)) g ?m1 (relinkTable (brk ?m1) ?N ?nt tbl 0 (length as) ?m1)"
    using assms(4) s d new by (intro relinkTable_result [OF sl1 empty_buckets, where bs = "[]"]) auto
  then obtain m2 as' g' where r: "relinkTable (brk ?m1) ?N ?nt tbl 0 (tableSize st) ?m1 = Ok m2"
      "slotsAt (chainAt storeEntryAt) (cells m2) as' (table (resize st)) g'" "mset g' = mset g"
      "cells m2 ?nt = Some (PointersO (map Some as'))" "length as' = ?N" "brk m2 = Suc ?nt" "dom (cells m2) = dom (cells ?m1)"
      "\<And>y. y \<notin> set g \<Longrightarrow> y \<noteq> ?nt \<Longrightarrow> cells m2 y = cells ?m1 y"
    unfolding relinked_def s(5) by (auto simp: resize_def Let_def)
  have g': "set g' = set g" "distinct g'" using r(3) d(1) mset_eq_setD mset_eq_imp_distinct_iff by (auto dest: mset_eq_imp_distinct_iff mset_eq_setD)
  have c2: "cells m2 tbl = Some (PointersO (map Some as))" "cells m2 s = Some (StoreO tbl (tableSize st) (used st))"
    using r(8) [of tbl] r(8) [of s] d s new f by auto
  let ?m3 = "discard [tbl] m2"
  let ?m' = "?m3\<lparr>cells := (cells ?m3)(s \<mapsto> StoreO ?nt ?N (used st))\<rparr>"
  have run: "resizeM ok s m = Ok ?m'"
    using s nt r(1) c2 d(3) by (simp add: resizeM_def withStore_def readCell_Some c_free_Some writeCell_Some)
  have "agree g' (cells m2) (cells ?m')" using g' d by (auto simp: agree_def)
  then have "slotsAt (chainAt storeEntryAt) (cells ?m') as' (table (resize st)) g'" by (rule bucket_mem.slots_frame [OF r(2)])
  then have at: "storeAt (cells ?m') s (resize st) (g' @ [?nt, s])" unfolding storeAt_def
    using s new d r(4,5) f by (intro exI [of _ ?nt] exI [of _ as'] exI [of _ g']) (auto simp: resize_def Let_def)
  have "0 < y \<and> y < brk ?m'" if "cells ?m' y = Some x" for y x
  proof -
    have "y \<in> dom (cells m2)" using that c2(2) by (auto split: if_splits)
    then have "y \<in> dom (cells m) \<or> y = ?nt" using r(7) by auto
    then show ?thesis using live_below [OF assms(1), of y] new(2) r(6) by auto
  qed
  then have wf: "wf_memory ?m'" using r(6) by (simp add: wf_memory_iff)
  have "cells ?m' y = (if y \<in> set f then None else cells m y)" if "y \<notin> set (g' @ [?nt, s])" for y
    using that r(8) [of y] g' f by auto
  then have "replaces m ?m' f (g' @ [?nt, s])" using wf r(6) g' new d f unfolding replaces_def by auto
  then show ?thesis using run at by blast
qed

section \<open>Setting a key\<close>

text \<open>
  What \<^verbatim>\<open>storeSet\<close> can leave: with every allocation it asks for, the store of \<open>storeSet\<close> on values;
  otherwise it returns \<^verbatim>\<open>STORE_ERR\<close> and the store has grown at most, except that a key that was there
  has lost its value.
\<close>

definition setOutcome :: "RedisStore \<Rightarrow> string \<Rightarrow> string \<Rightarrow> bool \<Rightarrow> RedisStore \<Rightarrow> bool" where
  "setOutcome st k v r st' =
     (let st1 = (if tooFull st then resize st else st) in
      if r then st' = fst (storeSet always st k v)
      else case findEntry st1 k of
        None \<Rightarrow> st' = st1
      | Some e \<Rightarrow> st' = updateEntry st1 k (\<lambda>e. e\<lparr>svalue := StringNull\<rparr>))"

lemma storeSetM_result:
  assumes "wf_memory m" and "storeAt (cells m) s st f" and "distinct f" and "0 < tableSize st" and "nul_free k" and "tooFull st \<longrightarrow> ok (brk m)"
  shows "\<exists>r m' st' f'. storeSetM ok s k v m = Ok (r, m') \<and> ((\<forall>a. ok a) \<longrightarrow> r) \<and> setOutcome st k v r st' \<and>
    storeAt (cells m') s st' f' \<and> replaces m m' f f'"
proof -
  let ?st1 = "if tooFull st then resize st else st"
  obtain tbl where s: "s \<noteq> 0" "cells m s = Some (StoreO tbl (tableSize st) (used st))" using assms(2) by (auto simp: storeAt_def)
  have full: "tooFull \<lparr>table = [], tableSize = tableSize st, used = used st\<rparr> = tooFull st" by (simp add: tooFull_def)
  obtain m1 f1 where r1: "(if tooFull st then resizeM ok s m else Ok m) = Ok m1" "storeAt (cells m1) s ?st1 f1" "replaces m m1 f f1"
  proof (cases "tooFull st")
    case True
    with resizeM_result [OF assms(1-4)] assms(6) show ?thesis using that by auto
  next
    case False
    with that [of m f] assms(2,3) replaces_refl [OF assms(1)] show ?thesis by auto
  qed
  have wf1: "wf_memory m1" "distinct f1" "0 < tableSize ?st1" using r1(3) assms(4) by (auto simp: replaces_def resize_def Let_def)
  have run: "storeSetM ok s k v m = bind_run (storeFindM s k m1) (\<lambda>b. if b \<noteq> 0 then setValueM ok b v m1 else insertM ok s k v m1)"
    using s r1(1) full by (simp add: storeSetM_def withStore_def readCell_Some split: if_splits)
  have "\<exists>r m' st' f'. storeSetM ok s k v m = Ok (r, m') \<and> ((\<forall>a. ok a) \<longrightarrow> r) \<and> setOutcome st k v r st' \<and>
    storeAt (cells m') s st' f' \<and> replaces m1 m' f1 f'"
  proof (cases "findEntry ?st1 k")
    case None
    then have "storeFindM s k m1 = Ok 0" using storeFindM_result [OF wf1(1) r1(2) wf1(2,3), of k] by simp
    moreover obtain r m' f' where "insertM ok s k v m1 = Ok (r, m')" "(\<forall>a. ok a) \<longrightarrow> r" "replaces m1 m' f1 f'"
        "storeAt (cells m') s (if r then insertEntry ?st1 \<lparr>skey = k, svalue = StringValue v, expiry = 0\<rparr> else ?st1) f'"
      using insertM_result [OF wf1(1) r1(2) wf1(2,3) assms(5)] by blast
    ultimately show ?thesis using run None by (intro exI [of _ r] exI [of _ m'] exI conjI) (auto simp: setOutcome_def storeSet_def Let_def strdup_always)
  next
    case (Some e)
    then obtain b nx fe fr where b: "storeFindM s k m1 = Ok b" and focus: "storeFocus (cells m1) s ?st1 f1 k b nx e fe fr"
      using storeFindM_result [OF wf1(1) r1(2) wf1(2,3), of k] by auto
    have at: "storeEntryAt (cells m1) b (nx, e) fe" and mf: "mset f1 = mset (fe @ fr)" using focus by (auto simp: storeFocus_def)
    have d: "distinct fe" using mf wf1(2) mset_eq_imp_distinct_iff by (metis distinct_append)
    have "b \<noteq> 0" using store_mem.rep_head [OF at] by simp
    obtain r m' fe' where v: "setValueM ok b v m1 = Ok (r, m')" "(\<forall>a. ok a) \<longrightarrow> r" "replaces m1 m' fe fe'"
        "storeEntryAt (cells m') b (nx, e\<lparr>svalue := if r then StringValue v else StringNull\<rparr>) fe'"
      using setValueM_result [OF wf1(1) at d] by blast
    from storeFocus_update [OF focus v(4,3) wf1(1) storeAt_live [OF r1(2)] wf1(2)]
    obtain f' where "storeAt (cells m') s (updateEntry ?st1 k (\<lambda>_. e\<lparr>svalue := if r then StringValue v else StringNull\<rparr>)) f'" "replaces m1 m' f1 f'"
      by blast
    then show ?thesis using run b \<open>b \<noteq> 0\<close> v(1,2) Some updateEntry_found [OF Some, of "\<lambda>e. e\<lparr>svalue := if r then StringValue v else StringNull\<rparr>"]
      by (intro exI [of _ r] exI [of _ m'] exI conjI) (auto simp: setOutcome_def storeSet_def Let_def)
  qed
  then show ?thesis using replaces_trans [OF r1(3) _ assms(1)] by blast
qed

lemma setOutcome_map:
  assumes "wf_store st" and "setOutcome st k v r st'"
  shows "wf_store st' \<and> absStore st' =
      (if r then (absStore st)(k \<mapsto> (StringValue v, expiryOf (absStore st k)))
       else if absStore st k = None then absStore st
       else (absStore st)(k \<mapsto> (StringNull, expiryOf (absStore st k))))"
proof (cases r)
  case True
  then show ?thesis using assms storeSet_map [OF assms(1), of always k v] by (cases "storeSet always st k v")
      (auto simp: setOutcome_def storeSet_def Let_def strdup_always split: option.splits)
next
  case False
  let ?st = "if tooFull st then resize st else st"
  have wf: "wf_store ?st" and same: "findEntry ?st = findEntry st" "absStore ?st = absStore st"
    using assms(1) by (auto simp: resize_wf findEntry_resize absStore_resize)
  show ?thesis using False assms(2) wf same absStore_updateEntry [OF wf] updateEntry_wf [OF wf]
    by (auto simp: setOutcome_def Let_def absStore_def expiryOf_def split: option.splits)
qed

text \<open>
  C31. \<^verbatim>\<open>storeSet\<close> on the heap refines the update of a map, for every pattern of failing allocations but
  that of the table in \<^verbatim>\<open>resize\<close>, which the code does not test: it returns; the old value of the key
  is freed exactly once and the new one is a copy; a failed insertion frees what it had allocated;
  growth moves every entry to its new chain without copying it. No block of the store is lost and
  no block outside of it changes. It succeeds when memory does not run out, and when it fails the map
  is unchanged, or a key that was there has lost its value.
\<close>

theorem storeSetM_refines:
  assumes "wf_memory m" and "storeAt (cells m) s st f" and "distinct f" and "wf_store st" and "nul_free k" and "tooFull st \<longrightarrow> ok (brk m)"
  shows "\<exists>r m' st' f'. storeSetM ok s k v m = Ok (r, m') \<and> ((\<forall>a. ok a) \<longrightarrow> r) \<and> storeAt (cells m') s st' f' \<and> replaces m m' f f' \<and>
    wf_store st' \<and> absStore st' =
      (if r then (absStore st)(k \<mapsto> (StringValue v, expiryOf (absStore st k)))
       else if absStore st k = None then absStore st
       else (absStore st)(k \<mapsto> (StringNull, expiryOf (absStore st k))))"
proof -
  have "0 < tableSize st" using assms(4) by (simp add: wf_store_def)
  from storeSetM_result [where ok = ok and v = v, OF assms(1-3) this assms(5,6)]
  obtain r m' st' f' where "storeSetM ok s k v m = Ok (r, m')" "(\<forall>a. ok a) \<longrightarrow> r" "setOutcome st k v r st'"
    "storeAt (cells m') s st' f'" "replaces m m' f f'" by blast
  then show ?thesis using setOutcome_map [OF assms(4)] by (intro exI [of _ r] exI [of _ m'] exI [of _ st'] exI [of _ f']) simp
qed

section \<open>An example\<close>

lemma two_keys_wf: "wf_memory two_keys"
  by (auto simp: two_keys_def wf_memory_iff split: if_splits)

lemma two_entries_wf: "wf_store two_entries"
  by code_simp

theorem storeSetM_refines_witness:
  "\<exists>r m' st' f'. storeSetM always 1 ''a'' ''new'' two_keys = Ok (r, m') \<and> r \<and> storeAt (cells m') 1 st' f' \<and>
     tooFull two_entries \<and> absStore st' ''a'' = Some (StringValue ''new'', 7) \<and> absStore st' ''b'' = Some (StringValue ''y'', 0)"
proof -
  have abs: "absStore two_entries ''a'' = Some (StringValue ''x'', 7)" "absStore two_entries ''b'' = Some (StringValue ''y'', 0)" and full: "tooFull two_entries"
    by code_simp+
  have "nul_free ''a''" by code_simp
  from storeSetM_refines [where ok = always and v = "''new''", OF two_keys_wf two_keys_store _ two_entries_wf this]
  obtain r m' st' f' where "storeSetM always 1 ''a'' ''new'' two_keys = Ok (r, m')" "r" "storeAt (cells m') 1 st' f'"
    "absStore st' = (if r then (absStore two_entries)(''a'' \<mapsto> (StringValue ''new'', expiryOf (absStore two_entries ''a'')))
       else if absStore two_entries ''a'' = None then absStore two_entries
       else (absStore two_entries)(''a'' \<mapsto> (StringNull, expiryOf (absStore two_entries ''a''))))"
    by auto
  then show ?thesis using abs full by (intro exI [of _ r] exI [of _ m'] exI [of _ st'] exI [of _ f']) (simp add: expiryOf_def)
qed

end
