(* ===== verification/Resp_Memory.thy ===== *)
theory Resp_Memory
  imports Memory Command_Queue
begin

text \<open>
  The RESP values of \<^verbatim>\<open>src/app/resp.c\<close> and the transaction queue of \<^verbatim>\<open>src/app/command_queue.c\<close>
  on the heap: how the parser builds a value, how it is copied into the queue, and how both are
  released. The functions carry the suffix \<open>M\<close> where the theories on values have the same name.
\<close>

section \<open>Releasing a value\<close>

definition holdsString :: "RespType \<Rightarrow> bool" where
  "holdsString t = (t = RespTypeString \<or> t = RespTypeBulk \<or> t = RespTypeError)"

text \<open>The recursion of \<^verbatim>\<open>freeRespValue\<close>, to a bounded depth; no value is nested deeper than there are blocks.\<close>

primrec freeVal :: "nat \<Rightarrow> addr \<Rightarrow> Memory \<Rightarrow> Memory run" where
  "freeVal 0 a m = (if a = 0 then Ok m else Fault Diverges)"
| "freeVal (Suc n) a m =
     (if a = 0 then Ok m
      else bind_run (readCell a m) (\<lambda>x. case x of
        ValueO t d \<Rightarrow>
          bind_run
            (if holdsString t then
               (case d of StringD p len \<Rightarrow> c_free p m | UnsetD \<Rightarrow> Fault UninitRead | _ \<Rightarrow> Fault TypeConfusion)
             else if t = RespTypeArray then
               (case d of
                  ArrayD e len \<Rightarrow> bind_run (freeSlots (freeVal n) e 0 len m) (c_free e)
                | UnsetD \<Rightarrow> Fault UninitRead
                | _ \<Rightarrow> Fault TypeConfusion)
             else Ok m)
            (c_free a)
      | _ \<Rightarrow> Fault TypeConfusion))"

definition freeRespValue :: "addr \<Rightarrow> Memory \<Rightarrow> Memory run" where
  "freeRespValue a m = freeVal (brk m) a m"

section \<open>Building values\<close>

definition createRespStringM :: "(addr \<Rightarrow> bool) \<Rightarrow> string \<Rightarrow> Memory \<Rightarrow> (addr \<times> Memory) run" where
  "createRespStringM ok str m =
     (let (a, m1) = c_malloc ok (ValueO RespTypeBulk UnsetD) m in
      if a = 0 then Fault NullDeref
      else
        let (p, m2) = c_malloc ok (CharsO (str @ [NUL])) m1 in
        if p = 0 then Fault NullDeref
        else bind_run (writeCell a (ValueO RespTypeBulk (StringD p (length str))) m2) (\<lambda>m3. Ok (a, m3)))"

definition parseBulkStringM ::
  "(addr \<Rightarrow> bool) \<Rightarrow> string \<Rightarrow> Memory \<Rightarrow> ((addr \<times> nat) resp_result \<times> Memory) run" where
  "parseBulkStringM ok data m =
     (case parseLine data of
        RespOk (lineLen, line) \<Rightarrow>
          bind_run (lineNumber line) (\<lambda>strLen.
            let consumed = lineLen + 2 in
            if strLen < 0 then Ok (RespErr, m)
            else if length data < consumed + nat strLen + 2 then Ok (RespIncomplete, m)
            else bind_run (createRespStringM ok (take (nat strLen) (drop consumed data)) m) (\<lambda>(a, m').
                   Ok (RespOk (a, consumed + nat strLen + 2), m')))
      | _ \<Rightarrow> Ok (RespIncomplete, m))"

text \<open>
  The loop of \<^verbatim>\<open>parseArray\<close> from slot \<open>i\<close> on, with \<open>k\<close> elements to come: the first element that
  fails makes it release the whole array.
\<close>

primrec parseElementsM ::
  "(addr \<Rightarrow> bool) \<Rightarrow> addr \<Rightarrow> addr \<Rightarrow> nat \<Rightarrow> nat \<Rightarrow> string \<Rightarrow> Memory \<Rightarrow> (nat resp_result \<times> Memory) run" where
  "parseElementsM ok a e i 0 data m = Ok (RespOk 0, m)"
| "parseElementsM ok a e i (Suc k) data m =
     bind_run (parseBulkStringM ok data m) (\<lambda>(r, m1). case r of
       RespOk (p, c) \<Rightarrow>
         bind_run (writeSlot e i p m1) (\<lambda>m2.
         bind_run (parseElementsM ok a e (Suc i) k (drop c data) m2) (\<lambda>(r', m3).
           Ok (case r' of RespOk cs \<Rightarrow> RespOk (c + cs) | RespErr \<Rightarrow> RespErr | RespIncomplete \<Rightarrow> RespIncomplete, m3)))
     | RespErr \<Rightarrow> bind_run (freeRespValue a m1) (\<lambda>m2. Ok (RespErr, m2))
     | RespIncomplete \<Rightarrow> bind_run (freeRespValue a m1) (\<lambda>m2. Ok (RespIncomplete, m2)))"

text \<open>\<open>zeroed\<close> says whether the slots that \<^verbatim>\<open>malloc\<close> returns happen to hold NULL.\<close>

definition unwritten :: "bool \<Rightarrow> addr option" where
  "unwritten zeroed = (if zeroed then Some 0 else None)"

definition parseArrayM ::
  "(addr \<Rightarrow> bool) \<Rightarrow> bool \<Rightarrow> string \<Rightarrow> Memory \<Rightarrow> ((addr \<times> nat) resp_result \<times> Memory) run" where
  "parseArrayM ok zeroed data m =
     (case parseLine data of
        RespOk (lineLen, line) \<Rightarrow>
          bind_run (lineNumber line) (\<lambda>arrayLen.
            let consumed = lineLen + 2 in
            if arrayLen < 0 then Ok (RespErr, m)
            else
              let (a, m1) = c_malloc ok (ValueO RespTypeArray UnsetD) m in
              if a = 0 then Fault NullDeref
              else
                let (e, m2) = c_malloc ok (PointersO (replicate (nat arrayLen) (unwritten zeroed))) m1 in
                bind_run (writeCell a (ValueO RespTypeArray (ArrayD e (nat arrayLen))) m2) (\<lambda>m3.
                bind_run (parseElementsM ok a e 0 (nat arrayLen) (drop consumed data) m3) (\<lambda>(r, m4).
                  Ok (case r of RespOk cs \<Rightarrow> RespOk (a, consumed + cs) | RespErr \<Rightarrow> RespErr | RespIncomplete \<Rightarrow> RespIncomplete, m4))))
      | _ \<Rightarrow> Ok (RespIncomplete, m))"

text \<open>\<^verbatim>\<open>parseResp\<close> on the bytes of the buffer: the value and the bytes it consumed.\<close>

definition parseRespM ::
  "(addr \<Rightarrow> bool) \<Rightarrow> bool \<Rightarrow> string \<Rightarrow> Memory \<Rightarrow> ((addr \<times> nat) resp_result \<times> Memory) run" where
  "parseRespM ok zeroed data m =
     (if length data < 3 then Ok (RespIncomplete, m)
      else if hd data = CHR ''*'' then parseArrayM ok zeroed data m
      else if hd data = CHR ''$'' then parseBulkStringM ok data m
      else Ok (RespErr, m))"

section \<open>Copying values\<close>

definition readChars :: "addr \<Rightarrow> nat \<Rightarrow> Memory \<Rightarrow> string run" where
  "readChars p len m =
     bind_run (readCell p m) (\<lambda>x. case x of
       CharsO s \<Rightarrow> if len \<le> length s then Ok (take len s) else Fault OutOfBounds
     | _ \<Rightarrow> Fault TypeConfusion)"

primrec cloneSlots ::
  "(addr \<Rightarrow> Memory \<Rightarrow> (addr \<times> Memory) run) \<Rightarrow> addr \<Rightarrow> addr \<Rightarrow> nat \<Rightarrow> nat \<Rightarrow> Memory \<Rightarrow> Memory run" where
  "cloneSlots copy e e' i 0 m = Ok m"
| "cloneSlots copy e e' i (Suc k) m =
     bind_run (readSlot e i m) (\<lambda>p.
     bind_run (copy p m) (\<lambda>(q, m1).
     bind_run (writeSlot e' i q m1) (cloneSlots copy e e' (Suc i) k)))"

primrec cloneVal :: "(addr \<Rightarrow> bool) \<Rightarrow> nat \<Rightarrow> addr \<Rightarrow> Memory \<Rightarrow> (addr \<times> Memory) run" where
  "cloneVal ok 0 a m = (if a = 0 then Ok (0, m) else Fault Diverges)"
| "cloneVal ok (Suc n) a m =
     (if a = 0 then Ok (0, m)
      else bind_run (readCell a m) (\<lambda>x. case x of
        ValueO t d \<Rightarrow>
          (case c_malloc ok (ValueO t UnsetD) m of (b, m1) \<Rightarrow>
           if b = 0 then Fault NullDeref
           else if holdsString t then
             (case d of
                StringD p len \<Rightarrow>
                  (case c_malloc ok (CharsO []) m1 of (q, m2) \<Rightarrow>
                   bind_run (readChars p len m2) (\<lambda>s.
                   bind_run (writeCell q (CharsO (s @ [NUL])) m2) (\<lambda>m3.
                   bind_run (writeCell b (ValueO t (StringD q len)) m3) (\<lambda>m4. Ok (b, m4)))))
              | UnsetD \<Rightarrow> Fault UninitRead
              | _ \<Rightarrow> Fault TypeConfusion)
           else if t = RespTypeArray then
             (case d of
                ArrayD e len \<Rightarrow>
                  (case c_malloc ok (PointersO (replicate len None)) m1 of (e', m2) \<Rightarrow>
                   bind_run (writeCell b (ValueO t (ArrayD e' len)) m2) (\<lambda>m3.
                   bind_run (cloneSlots (cloneVal ok n) e e' 0 len m3) (\<lambda>m4. Ok (b, m4))))
              | UnsetD \<Rightarrow> Fault UninitRead
              | _ \<Rightarrow> Fault TypeConfusion)
           else bind_run (writeCell b (ValueO t d) m1) (\<lambda>m2. Ok (b, m2)))
      | _ \<Rightarrow> Fault TypeConfusion))"

definition cloneRespValueM :: "(addr \<Rightarrow> bool) \<Rightarrow> addr \<Rightarrow> Memory \<Rightarrow> (addr \<times> Memory) run" where
  "cloneRespValueM ok a m = cloneVal ok (brk m) a m"

section \<open>The transaction queue\<close>

definition createCommandQueueM :: "(addr \<Rightarrow> bool) \<Rightarrow> Memory \<Rightarrow> (addr \<times> Memory) run" where
  "createCommandQueueM ok m =
     (case c_malloc ok (QueueO 0 0 0) m of (q, m1) \<Rightarrow> if q = 0 then Fault NullDeref else Ok (q, m1))"

text \<open>\<^verbatim>\<open>realloc\<close> of an array of pointers to \<open>n\<close> slots.\<close>

definition c_realloc :: "(addr \<Rightarrow> bool) \<Rightarrow> addr \<Rightarrow> nat \<Rightarrow> Memory \<Rightarrow> (addr \<times> Memory) run" where
  "c_realloc ok p n m =
     (if p = 0 then Ok (c_malloc ok (PointersO (replicate n None)) m)
      else bind_run (readCell p m) (\<lambda>x. case x of
        PointersO ps \<Rightarrow>
          (case c_malloc ok (PointersO (take n (ps @ replicate n None))) m of (q, m1) \<Rightarrow>
           if q = 0 then Ok (0, m1) else bind_run (c_free p m1) (\<lambda>m2. Ok (q, m2)))
      | _ \<Rightarrow> Fault TypeConfusion))"

definition withQueue :: "addr \<Rightarrow> Memory \<Rightarrow> (addr \<Rightarrow> nat \<Rightarrow> nat \<Rightarrow> 'a run) \<Rightarrow> 'a run" where
  "withQueue q m body =
     bind_run (readCell q m) (\<lambda>x. case x of QueueO cs n cap \<Rightarrow> body cs n cap | _ \<Rightarrow> Fault TypeConfusion)"

text \<open>The growth of the array of commands, and the rest of \<^verbatim>\<open>queueCommand\<close>.\<close>

definition growQueue ::
  "(addr \<Rightarrow> bool) \<Rightarrow> addr \<Rightarrow> addr \<Rightarrow> nat \<Rightarrow> nat \<Rightarrow> Memory \<Rightarrow> (addr \<times> nat \<times> Memory) run" where
  "growQueue ok q cs n cap m =
     (if cap \<le> n then
        (let cap' = (if cap = 0 then 4 else cap * 2) in
         bind_run (c_realloc ok cs cap' m) (\<lambda>(cs', m1).
         bind_run (writeCell q (QueueO cs' n cap') m1) (\<lambda>m2. Ok (cs', cap', m2))))
      else Ok (cs, cap, m))"

definition queueCommandM :: "(addr \<Rightarrow> bool) \<Rightarrow> addr \<Rightarrow> addr \<Rightarrow> Memory \<Rightarrow> Memory run" where
  "queueCommandM ok q command m =
     withQueue q m (\<lambda>cs n cap.
       bind_run (growQueue ok q cs n cap m) (\<lambda>(cs', cap', m3).
       bind_run (cloneRespValueM ok command m3) (\<lambda>(p, m4).
       bind_run (writeCell q (QueueO cs' (Suc n) cap') m4) (writeSlot cs' n p))))"

definition clearCommandQueueM :: "addr \<Rightarrow> Memory \<Rightarrow> Memory run" where
  "clearCommandQueueM q m =
     withQueue q m (\<lambda>cs n cap.
       bind_run (freeSlots (freeVal (brk m)) cs 0 n m) (\<lambda>m1.
       bind_run (c_free cs m1) (writeCell q (QueueO 0 0 0))))"

definition freeCommandQueue :: "addr \<Rightarrow> Memory \<Rightarrow> Memory run" where
  "freeCommandQueue q m = bind_run (clearCommandQueueM q m) (c_free q)"

section \<open>Values on the heap\<close>

fun stringValue :: "RespType \<Rightarrow> string \<Rightarrow> RespValue" where
  "stringValue RespTypeString s = RespString s"
| "stringValue RespTypeError s = RespError s"
| "stringValue _ s = RespBulk s"

inductive valueAt :: "cells \<Rightarrow> addr \<Rightarrow> RespValue \<Rightarrow> addr list \<Rightarrow> bool" where
  value_string:
    "holdsString t \<Longrightarrow> a \<noteq> 0 \<Longrightarrow> p \<noteq> 0 \<Longrightarrow> c a = Some (ValueO t (StringD p (length s))) \<Longrightarrow>
     c p = Some (CharsO (s @ [NUL])) \<Longrightarrow> valueAt c a (stringValue t s) [p, a]"
| value_integer:
    "a \<noteq> 0 \<Longrightarrow> c a = Some (ValueO RespTypeInteger (IntegerD i)) \<Longrightarrow> valueAt c a (RespInteger i) [a]"
| value_array:
    "a \<noteq> 0 \<Longrightarrow> e \<noteq> 0 \<Longrightarrow> c a = Some (ValueO RespTypeArray (ArrayD e (length ps))) \<Longrightarrow>
     c e = Some (PointersO (map Some ps)) \<Longrightarrow> slotsAt valueAt c ps vs f \<Longrightarrow>
     valueAt c a (RespArray vs) (f @ [e, a])"

lemma holdsString_array [simp]: "holdsString RespTypeArray = False" "holdsString RespTypeInteger = False"
    "holdsString RespTypeBulk"
  by (simp_all add: holdsString_def)

lemma valueAt_frame: "valueAt c a v f \<Longrightarrow> agree f c c' \<Longrightarrow> valueAt c' a v f"
proof (induction arbitrary: c' rule: valueAt.induct)
  case (value_array a e c ps vs f)
  have "slotsAt valueAt c' ps vs f"
    using value_array.IH value_array.prems by (elim slotsAt_weaken) (auto simp: agree_def)
  with value_array show ?case by (intro valueAt.value_array) auto
qed (auto intro: valueAt.intros)

lemma valueAt_live: "valueAt c a v f \<Longrightarrow> set f \<subseteq> dom c"
proof (induction rule: valueAt.induct)
  case (value_array a e c ps vs f)
  from value_array.IH have "set f \<subseteq> dom c" by (induction rule: slotsAt.induct) auto
  with value_array show ?case by auto
qed auto

lemma valueAt_nonempty: "valueAt c a v f \<Longrightarrow> a \<noteq> 0 \<and> a \<in> set f \<and> f \<noteq> []"
  by (induction rule: valueAt.induct) auto

text \<open>\<^verbatim>\<open>freeRespValue\<close> follows a value to its leaves and frees every block of it once.\<close>

lemma freeVal_releasable: "valueAt c a v f \<Longrightarrow> releasable n (freeVal n) c a v f"
proof (induction arbitrary: n rule: valueAt.induct)
  case (value_string t a p c s)
  then show ?case
    by (cases n) (auto simp: releasable_def mem_simps)
next
  case (value_integer a c i)
  then show ?case by (cases n) (auto simp: releasable_def mem_simps)
next
  case (value_array a e c ps vs f)
  show ?case unfolding releasable_def
  proof (intro allI impI)
    fix m :: Memory assume ag: "agree (f @ [e, a]) c (cells m)" and d: "distinct (f @ [e, a])" and n: "length (f @ [e, a]) \<le> n"
    then obtain k where k: "n = Suc k" "length f \<le> k" by (cases n) auto
    have sl: "slotsAt (releasable k (freeVal k)) c ps vs f"
      using value_array.IH by (rule slotsAt_weaken) auto
    have "freeSlots (freeVal k) e 0 (length ps) m = Ok (discard f m)"
      by (rule freeSlots_exact [OF sl]) (use value_array.hyps ag d k in auto)
    with value_array.hyps ag d k show "freeVal n a m = Ok (discard (f @ [e, a]) m)"
      by (simp add: mem_simps)
  qed
qed

interpretation value_mem: destructor valueAt freeVal
  by unfold_locales (fact valueAt_frame valueAt_live freeVal_releasable)+

section \<open>Copies\<close>

text \<open>A run built the value \<open>v\<close> at \<open>b\<close> in new blocks \<open>g\<close> and changed nothing else.\<close>

definition built :: "Memory \<Rightarrow> Memory \<Rightarrow> addr \<Rightarrow> RespValue \<Rightarrow> addr list \<Rightarrow> bool" where
  "built m m' b v g = (valueAt (cells m') b v g \<and> fresh m m' g \<and> grows m m' (set g))"

definition clonable ::
  "nat \<Rightarrow> (addr \<Rightarrow> Memory \<Rightarrow> (addr \<times> Memory) run) \<Rightarrow> cells \<Rightarrow> addr \<Rightarrow> RespValue \<Rightarrow> addr list \<Rightarrow> bool" where
  "clonable n copy c a v f =
     (\<forall>m. agree f c (cells m) \<longrightarrow> wf_memory m \<longrightarrow> length f \<le> n \<longrightarrow>
        (\<exists>b m' g. copy a m = Ok (b, m') \<and> built m m' b v g))"

lemma built_frame:
  assumes "built m m1 b v g" and "grows m1 m2 H" and "H \<inter> set g = {}"
  shows "valueAt (cells m2) b v g"
  using assms grows_agree [OF assms(2), of g] valueAt_frame by (fastforce simp: built_def)

lemma cloneSlots_builds:
  assumes "slotsAt (\<lambda>c p v f. valueAt c p v f \<and> clonable n copy c p v f) c ps vs f"
    and "agree f c (cells m)" and "wf_memory m" and "length f \<le> n"
    and "cells m e = Some (PointersO qs)" and "drop i qs = map Some ps" and "e \<noteq> 0"
    and "cells m e' = Some (PointersO (map Some rs @ replicate (length ps) None))" and "length rs = i"
    and "e' \<noteq> e" and "e' \<notin> set f"
  shows "\<exists>m' ps' g. cloneSlots copy e e' i (length ps) m = Ok m' \<and> slotsAt valueAt (cells m') ps' vs g \<and>
    fresh m m' g \<and> grows m m' (insert e' (set g)) \<and> cells m' e' = Some (PointersO (map Some (rs @ ps')))"
  using assms
proof (induction arbitrary: i m rs rule: slotsAt.induct)
  case slots_Nil
  then show ?case by (intro exI [of _ m] exI [of _ "[]"]) (simp add: fresh_def)
next
  case (slots_Cons p v f ps vs g)
  note prems = slots_Cons.prems
  have e': "0 < e'" "e' < brk m" and e: "e < brk m" using live_below prems(2,4,7) by blast+
  have f: "valueAt c p v f" and g: "slotsAt valueAt c ps vs g"
    using slots_Cons.hyps by (auto elim: slotsAt_weaken)
  obtain q m1 h where q: "copy p m = Ok (q, m1)" "built m m1 q v h"
    using slots_Cons.hyps(1) prems(1-3) by (auto simp: clonable_def)
  have h: "fresh m m1 h" "grows m m1 (set h)" "wf_memory m1" using q(2) by (auto simp: built_def grows_wf)
  have old: "cells m1 x = cells m x" if "x < brk m" for x
    using h fresh_not_old [OF h(1) that] by (auto simp: grows_def)
  define m2 where "m2 = m1\<lparr>cells := (cells m1)(e' \<mapsto> PointersO (map Some (rs @ [q]) @ replicate (length ps) None))\<rparr>"
  have w: "writeSlot e' i q m1 = Ok m2"
    using writeSlot_next [of e' m1 rs None] prems(7,8) e' old by (auto simp: m2_def)
  have g2: "grows m1 m2 {e'}" unfolding m2_def by (rule grows_write [OF h(3)]) (use old e' prems(7) in auto)
  have m2: "cells m2 e' = Some (PointersO (map Some (rs @ [q]) @ replicate (length ps) None))" "brk m2 = brk m1"
    "\<And>x. x < brk m \<Longrightarrow> x \<noteq> e' \<Longrightarrow> cells m2 x = cells m x"
    using old by (simp_all add: m2_def)
  have live: "set g \<subseteq> dom (cells m)" using value_mem.slots_live [OF value_mem.slots_frame [OF g]] prems(1) by simp
  have "agree g c (cells m2)"
    using prems(1,10) live_below_set [OF prems(2) live] m2(3) unfolding agree_def by (metis UnI2 set_append)
  moreover have slot: "drop (Suc i) qs = map Some ps" "readSlot e i m = Ok p"
    using readSlot_Some [OF prems(6,4)] prems(5) by auto
  ultimately obtain m3 ps' g' where r: "cloneSlots copy e e' (Suc i) (length ps) m2 = Ok m3"
      "slotsAt valueAt (cells m3) ps' vs g'" "fresh m2 m3 g'" "grows m2 m3 (insert e' (set g'))"
      "cells m3 e' = Some (PointersO (map Some ((rs @ [q]) @ ps')))"
    using slots_Cons.IH [where i = "Suc i", OF _ grows_wf [OF g2] _ _ _ prems(6) m2(1)] prems(3,4,8,9,10) e m2(3) by auto
  have fr: "fresh m1 m3 g'" using r(3) m2(2) by (simp add: fresh_def)
  have g3: "grows m1 m3 (insert e' (set g'))" using grows_trans [OF g2 r(4)] by blast
  have "valueAt (cells m3) q v h"
    by (rule built_frame [OF q(2) g3]) (use fresh_disjoint [OF h(1) fr] fresh_not_old [OF h(1)] e' in auto)
  then have "slotsAt valueAt (cells m3) (q # ps') (v # vs) (h @ g')" using r(2) by (rule slotsAt.slots_Cons)
  moreover have "fresh m m3 (h @ g')" using h(2) g3 by (intro fresh_append [OF h(1) fr]) (auto simp: grows_def)
  moreover have "grows m m3 (insert e' (set (h @ g')))" by (rule grows_trans [OF h(2) g3]) auto
  ultimately show ?case
    using slot(2) q(1) w r(1,5) by (intro exI [of _ m3] exI [of _ "q # ps'"] exI [of _ "h @ g'"]) simp
qed


lemma cloneVal_string:
  assumes "holdsString t" and "a \<noteq> 0" and "p \<noteq> 0" and "c a = Some (ValueO t (StringD p (length s)))"
    and "c p = Some (CharsO (s @ [NUL]))"
  shows "clonable n (cloneVal always n) c a (stringValue t s) [p, a]"
  unfolding clonable_def
proof (intro allI impI)
  fix m assume m: "agree [p, a] c (cells m)" "wf_memory m" "length [p, a] \<le> n"
  then obtain k where k: "n = Suc k" by (cases n) auto
  let ?b = "brk m"
  define m' where "m' = \<lparr>cells = (cells m)(?b \<mapsto> ValueO t (StringD (Suc ?b) (length s)), Suc ?b \<mapsto> CharsO (s @ [NUL])), brk = Suc (Suc ?b)\<rparr>"
  have ap: "a < ?b" "p < ?b" "0 < ?b"
    using live_below [OF m(2)] m(1,2) assms by (auto simp: wf_memory_def)
  have "cloneVal always n a m = Ok (?b, m')"
    using assms m(1) ap
    by (auto simp: k malloc_always mem_simps readChars_def writeCell_Some m'_def intro!: Memory_eqI)
  moreover have "built m m' ?b (stringValue t s) [Suc ?b, ?b]"
    using assms(1) ap m(2)
    by (auto simp: built_def fresh_def m'_def grows_def wf_memory_iff less_Suc_eq intro!: valueAt.value_string)
  ultimately show "\<exists>b m' g. cloneVal always n a m = Ok (b, m') \<and> built m m' b (stringValue t s) g" by blast
qed

lemma cloneVal_integer:
  assumes "a \<noteq> 0" and "c a = Some (ValueO RespTypeInteger (IntegerD i))"
  shows "clonable n (cloneVal always n) c a (RespInteger i) [a]"
  unfolding clonable_def
proof (intro allI impI)
  fix m assume m: "agree [a] c (cells m)" "wf_memory m" "length [a] \<le> n"
  then obtain k where k: "n = Suc k" by (cases n) auto
  let ?b = "brk m"
  define m' where "m' = \<lparr>cells = (cells m)(?b \<mapsto> ValueO RespTypeInteger (IntegerD i)), brk = Suc ?b\<rparr>"
  have ap: "a < ?b" "0 < ?b"
    using live_below [OF m(2)] m(1,2) assms by (auto simp: wf_memory_def)
  have "cloneVal always n a m = Ok (?b, m')"
    using assms m(1) ap by (auto simp: k malloc_always mem_simps writeCell_Some m'_def)
  moreover have "built m m' ?b (RespInteger i) [?b]"
    using ap m(2) by (auto simp: built_def fresh_def m'_def grows_def wf_memory_iff less_Suc_eq intro!: valueAt.value_integer)
  ultimately show "\<exists>b m' g. cloneVal always n a m = Ok (b, m') \<and> built m m' b (RespInteger i) g" by blast
qed

lemma cloneVal_array:
  assumes "a \<noteq> 0" and "e \<noteq> 0" and "c a = Some (ValueO RespTypeArray (ArrayD e (length ps)))"
    and "c e = Some (PointersO (map Some ps))"
    and "slotsAt (\<lambda>c p v f. valueAt c p v f \<and> (\<forall>n. clonable n (cloneVal always n) c p v f)) c ps vs f"
  shows "clonable n (cloneVal always n) c a (RespArray vs) (f @ [e, a])"
  unfolding clonable_def
proof (intro allI impI)
  fix m assume m: "agree (f @ [e, a]) c (cells m)" "wf_memory m" "length (f @ [e, a]) \<le> n"
  then obtain k where k: "n = Suc k" "length f \<le> k" by (cases n) auto
  let ?b = "brk m" and ?e = "Suc (brk m)"
  define m1 where "m1 = m\<lparr>brk := Suc ?e,
    cells := (cells m)(?e \<mapsto> PointersO (replicate (length ps) None), ?b \<mapsto> ValueO RespTypeArray (ArrayD ?e (length ps)))\<rparr>"
  have ap: "a < ?b" "e < ?b" "0 < ?b"
    using live_below [OF m(2)] m(1,2) assms by (auto simp: wf_memory_def)
  have sl: "slotsAt (\<lambda>c p v f. valueAt c p v f \<and> clonable k (cloneVal always k) c p v f) c ps vs f"
    using assms(5) by (rule slotsAt_weaken) auto
  have "slotsAt valueAt c ps vs f" using sl by (rule slotsAt_weaken) auto
  then have live: "set f \<subseteq> dom (cells m)" using m(1) value_mem.slots_live value_mem.slots_frame by fastforce
  have wf: "wf_memory m1" using m(2) by (auto simp: m1_def wf_memory_iff less_Suc_eq)
  have old: "cells m1 x = cells m x" if "x < ?b" for x using that by (simp add: m1_def)
  have fb: "\<And>x. x \<in> set f \<Longrightarrow> x < ?b" using live_below_set [OF m(2) live] by blast
  then have nf: "?e \<notin> set f" using Suc_n_not_le_n less_imp_le_nat by blast
  have m1: "cells m1 ?e = Some (PointersO (map Some [] @ replicate (length ps) None))" by (simp add: m1_def)
  have "agree f c (cells m1)" using m(1) fb old by (auto simp: agree_def)
  then obtain m2 ps' g where r: "cloneSlots (cloneVal always k) e ?e 0 (length ps) m1 = Ok m2"
      "slotsAt valueAt (cells m2) ps' vs g" "fresh m1 m2 g" "grows m1 m2 (insert ?e (set g))"
      "cells m2 ?e = Some (PointersO (map Some ps'))"
    using cloneSlots_builds [OF sl _ wf k(2) _ _ assms(2) m1, of "map Some ps" 0] assms(4) m(1) ap nf
    by (auto simp: old)
  have clone: "cloneVal always n a m = Ok (?b, m2)"
    using assms m(1) ap r(1) by (auto simp: k malloc_always mem_simps writeCell_Some m1_def fun_upd_twist)
  have b: "cells m2 ?b = Some (ValueO RespTypeArray (ArrayD ?e (length ps')))"
    using r(4) fresh_not_old [OF r(3), of ?b] slotsAt_length [OF r(2)] slotsAt_length [OF sl] by (simp add: grows_def m1_def)
  have "valueAt (cells m2) ?b (RespArray vs) (g @ [?e, ?b])"
    using ap b r(2,5) by (intro valueAt.value_array) auto
  moreover have "fresh m m2 (g @ [?e, ?b])" using r(3,4) by (auto simp: fresh_def grows_def m1_def)
  moreover have "grows m m2 (set (g @ [?e, ?b]))"
    using r(4) by (auto simp: grows_def m1_def)
  ultimately show "\<exists>b m' g. cloneVal always n a m = Ok (b, m') \<and> built m m' b (RespArray vs) g"
    using clone unfolding built_def by blast
qed

lemma cloneVal_clonable: "valueAt c a v f \<Longrightarrow> clonable n (cloneVal always n) c a v f"
proof (induction arbitrary: n rule: valueAt.induct)
  case (value_array a e c ps vs f)
  then show ?case by (intro cloneVal_array) (auto elim: slotsAt_weaken)
qed (simp_all add: cloneVal_string cloneVal_integer)

section \<open>The queue on the heap\<close>

inductive queueAt :: "cells \<Rightarrow> addr \<Rightarrow> CommandQueue \<Rightarrow> addr list \<Rightarrow> bool" for c q where
  queue_empty: "q \<noteq> 0 \<Longrightarrow> c q = Some (QueueO 0 0 0) \<Longrightarrow> queueAt c q \<lparr>commands = [], capacity = 0\<rparr> [q]"
| queue_slots:
    "q \<noteq> 0 \<Longrightarrow> cs \<noteq> 0 \<Longrightarrow> c q = Some (QueueO cs (length ps) cap) \<Longrightarrow> 0 < cap \<Longrightarrow> length ps \<le> cap \<Longrightarrow>
     c cs = Some (PointersO (map Some ps @ replicate (cap - length ps) None)) \<Longrightarrow> slotsAt valueAt c ps vs g \<Longrightarrow>
     queueAt c q \<lparr>commands = vs, capacity = cap\<rparr> (g @ [cs, q])"

lemma queueAt_frame: "queueAt c q Q f \<Longrightarrow> agree f c c' \<Longrightarrow> queueAt c' q Q f"
  by (induction rule: queueAt.induct) (auto intro: queueAt.intros value_mem.slots_frame)

text \<open>There is a free slot, and the slots before it hold the values of the queue.\<close>

definition roomAt :: "cells \<Rightarrow> addr \<Rightarrow> addr \<Rightarrow> nat \<Rightarrow> addr list \<Rightarrow> RespValue list \<Rightarrow> addr list \<Rightarrow> bool" where
  "roomAt c q cs cap ps vs g =
     (q \<noteq> 0 \<and> cs \<noteq> 0 \<and> c q = Some (QueueO cs (length ps) cap) \<and> length ps < cap \<and>
      c cs = Some (PointersO (map Some ps @ replicate (cap - length ps) None)) \<and> slotsAt valueAt c ps vs g)"

lemma queueAt_live: "queueAt c q Q f \<Longrightarrow> set f \<subseteq> dom c"
  by (induction rule: queueAt.induct) (use value_mem.slots_live in fastforce)+

lemma growQueue_room:
  assumes "queueAt (cells m) q Q f" and "distinct f" and "wf_memory m"
    and "cells m q = Some (QueueO cs n cap)"
  shows "\<exists>cs' cap' ps g m'. growQueue always q cs n cap m = Ok (cs', cap', m') \<and>
    roomAt (cells m') q cs' cap' ps (commands Q) g \<and> n = length ps \<and>
    cap' = capacity (queueCommand Q v) \<and> replaces m m' f (g @ [cs', q])"
proof -
  obtain ps g where q: "q \<noteq> 0" "n = length (commands Q)" "cap = capacity Q"
    "slotsAt valueAt (cells m) ps (commands Q) g"
    and alt: "if cap = 0 then cs = 0 \<and> ps = [] \<and> f = [q]
         else cs \<noteq> 0 \<and> cells m cs = Some (PointersO (map Some ps @ replicate (cap - length ps) None)) \<and>
              length ps \<le> cap \<and> f = g @ [cs, q]"
    using assms(1)
  proof cases
    case queue_empty
    with assms(4) show ?thesis by (intro that [of "[]" "[]"]) auto
  next
    case (queue_slots cs' ps cap' vs g)
    with assms(4) slotsAt_length [OF queue_slots(9)] show ?thesis by (intro that [of ps g]) auto
  qed
  note n = slotsAt_length [OF q(4)]
  have live: "set g \<subseteq> dom (cells m)" using value_mem.slots_live [OF q(4)] .
  note below = live_below [OF assms(3)] live_below_set [OF assms(3) live]
  have qb: "0 < q" "q < brk m" using below(1) assms(4) by blast+
  consider (room) "n < cap" | (new) "cap = 0" | (full) "0 < cap" "cap \<le> n" by linarith
  then show ?thesis
  proof cases
    case room
    then have "roomAt (cells m) q cs cap ps (commands Q) g" using alt q n assms(4) by (auto simp: roomAt_def)
    moreover have "replaces m m f (g @ [cs, q])" using room alt assms(2,3) by (auto simp: replaces_def)
    moreover have "cap = capacity (queueCommand Q v)" using room q by (simp add: queueCommand_def)
    ultimately show ?thesis using room q n by (fastforce simp: growQueue_def)
  next
    case new
    define m' where "m' = m\<lparr>brk := Suc (brk m), cells := (cells m)(brk m \<mapsto> PointersO (replicate 4 None), q \<mapsto> QueueO (brk m) 0 4)\<rparr>"
    have e: "ps = []" "g = []" "cs = 0" "n = 0" "f = [q]" using new alt q n by (auto elim: slotsAt.cases)
    have "growQueue always q cs n cap m = Ok (brk m, 4, m')"
      using new e qb assms(4) by (simp add: growQueue_def c_realloc_def malloc_always writeCell_Some m'_def)
    moreover have "roomAt (cells m') q (brk m) 4 [] (commands Q) []"
      using qb q e n by (auto simp: roomAt_def m'_def)
    moreover have "replaces m m' f ([] @ [brk m, q])"
      using qb assms(3) e by (auto simp: replaces_def m'_def wf_memory_iff less_Suc_eq)
    ultimately show ?thesis using new q n e
      by (intro exI [of _ "brk m"] exI [of _ "4::nat"] exI [of _ "[]"] exI [of _ m']) (simp add: queueCommand_def Let_def)
  next
    case full
    let ?b = "brk m"
    define m' where "m' = m\<lparr>brk := Suc ?b, cells := (cells m)(?b \<mapsto> PointersO (map Some ps @ replicate cap None), cs := None, q \<mapsto> QueueO ?b n (cap * 2))\<rparr>"
    have e: "n = cap" "length ps = cap" "cs \<noteq> 0" "cells m cs = Some (PointersO (map Some ps))" "f = g @ [cs, q]"
      using full alt q n by auto
    have cb: "cs < ?b" "cs \<noteq> q" "cs \<notin> set g" "q \<notin> set g" "?b \<notin> set g" using below e(4,5) assms(2) by auto
    have "growQueue always q cs n cap m = Ok (?b, cap * 2, m')"
      using full e qb cb assms(4)
      by (simp add: growQueue_def c_realloc_def malloc_always writeCell_Some m'_def mem_simps c_free_def Let_def)
    moreover have "agree g (cells m) (cells m')" using cb by (auto simp: agree_def m'_def)
    then have "roomAt (cells m') q ?b (cap * 2) ps (commands Q) g"
      using full qb q e cb n value_mem.slots_frame [OF q(4)] by (auto simp: roomAt_def m'_def)
    moreover have "replaces m m' f (g @ [?b, q])"
      using qb assms(2,3) e cb below(2) by (auto simp: replaces_def m'_def wf_memory_iff less_Suc_eq)
    ultimately show ?thesis using full q e
      by (intro exI [of _ ?b] exI [of _ "cap * 2"] exI [of _ ps] exI [of _ g] exI [of _ m']) (simp add: queueCommand_def Let_def)
  qed
qed

lemma cloneRespValueM_built:
  assumes "wf_memory m" and "valueAt (cells m) a v f" and "distinct f"
  obtains b m' g where "cloneRespValueM always a m = Ok (b, m')" and "built m m' b v g"
  using cloneVal_clonable [OF assms(2), of "brk m", unfolded clonable_def, rule_format, OF agree_refl assms(1)]
    footprint_bound [OF assms(1) valueAt_live [OF assms(2)] assms(3)] that
  unfolding cloneRespValueM_def by blast

lemma roomAt_live: "roomAt c q cs cap ps vs g \<Longrightarrow> set (g @ [cs, q]) \<subseteq> dom c"
  using value_mem.slots_live [of c ps vs g] by (simp add: roomAt_def domI)

lemma queue_push:
  assumes "roomAt (cells m1) q cs cap ps vs g" and "distinct (g @ [cs, q])" and "wf_memory m1" and "built m1 m2 p v k"
  obtains m' where "bind_run (writeCell q (QueueO cs (Suc (length ps)) cap) m2) (writeSlot cs (length ps) p) = Ok m'"
    and "queueAt (cells m') q \<lparr>commands = vs @ [v], capacity = cap\<rparr> ((g @ k) @ [cs, q])"
    and "grows m1 m' (set (g @ [cs, q]) \<union> set k)" and "brk m' = brk m2"
proof -
  have k: "fresh m1 m2 k" "grows m1 m2 (set k)" "valueAt (cells m2) p v k" using assms(4) by (auto simp: built_def)
  have below: "x < brk m1" if "x \<in> set (g @ [cs, q])" for x
    using live_below_set [OF assms(3) roomAt_live [OF assms(1)] that] by simp
  then have new: "x \<notin> set k" if "x \<in> set (g @ [cs, q])" for x using that fresh_not_old [OF k(1)] by blast
  then have old: "cells m2 x = cells m1 x" if "x \<in> set (g @ [cs, q])" for x using that k(2) by (simp add: grows_def)
  have room: "q \<noteq> 0" "cs \<noteq> 0" "cells m2 q = Some (QueueO cs (length ps) cap)" "length ps < cap"
      "cells m2 cs = Some (PointersO (map Some ps @ None # replicate (cap - Suc (length ps)) None))" "cs \<noteq> q"
    using assms(1,2) old by (auto simp: roomAt_def Suc_diff_Suc simp flip: replicate_Suc)
  define m3 where "m3 = m2\<lparr>cells := (cells m2)(q \<mapsto> QueueO cs (Suc (length ps)) cap)\<rparr>"
  define m' where "m' = m3\<lparr>cells := (cells m3)(cs \<mapsto> PointersO (map Some (ps @ [p]) @ replicate (cap - Suc (length ps)) None))\<rparr>"
  have w: "writeCell q (QueueO cs (Suc (length ps)) cap) m2 = Ok m3" "writeSlot cs (length ps) p m3 = Ok m'"
    using room writeCell_Some [of q m2] writeSlot_next [of cs m3 ps None] by (simp_all add: m3_def m'_def)
  have same: "cells m' x = cells m2 x" if "x \<noteq> q" "x \<noteq> cs" for x using that by (simp add: m'_def m3_def)
  have qc: "q \<notin> set g" "cs \<notin> set g" "q \<notin> set k" "cs \<notin> set k" using assms(2) new by auto
  have "agree g (cells m1) (cells m')" unfolding agree_def
  proof
    fix x assume "x \<in> set g"
    with qc same [of x] old [of x] show "cells m' x = cells m1 x" by (metis Un_iff set_append)
  qed
  then have "slotsAt valueAt (cells m') ps vs g"
    using assms(1) value_mem.slots_frame by (auto simp: roomAt_def)
  moreover have "agree k (cells m2) (cells m')" unfolding agree_def using qc same by metis
  then have "valueAt (cells m') p v k" by (rule valueAt_frame [OF k(3)])
  ultimately have "slotsAt valueAt (cells m') (ps @ [p]) (vs @ [v]) (g @ k @ [])"
    by (intro slotsAt_append slotsAt.intros)
  then have "queueAt (cells m') q \<lparr>commands = vs @ [v], capacity = cap\<rparr> ((g @ k) @ [cs, q])"
    using room by (intro queueAt.queue_slots [where ps = "ps @ [p]"]) (auto simp: m'_def m3_def)
  moreover have g3: "grows m2 m3 {q}" unfolding m3_def using grows_wf [OF k(2)] room(3) by (rule grows_write)
  have "grows m3 m' {cs}"
    unfolding m'_def by (rule grows_write [OF grows_wf [OF g3], of _ "PointersO (map Some ps @ None # replicate (cap - Suc (length ps)) None)"])
      (use room in \<open>simp add: m3_def\<close>)
  then have "grows m2 m' {cs, q}" by (rule grows_trans [OF g3]) auto
  then have "grows m1 m' (set (g @ [cs, q]) \<union> set k)" by (rule grows_trans [OF k(2)]) auto
  ultimately show ?thesis using that w by (simp add: m'_def m3_def)
qed

lemma queueCommandM_refines:
  assumes "wf_memory m" and "queueAt (cells m) q Q f" and "distinct f"
    and "valueAt (cells m) a v h" and "distinct h" and "set f \<inter> set h = {}"
  obtains m' f' where "queueCommandM always q a m = Ok m'" and "queueAt (cells m') q (queueCommand Q v) f'"
    and "replaces m m' f f'"
proof -
  obtain cs n cap where q: "cells m q = Some (QueueO cs n cap)" "q \<noteq> 0" using assms(2) by cases auto
  obtain cs' cap' ps g m1 where gr: "growQueue always q cs n cap m = Ok (cs', cap', m1)"
    and room: "roomAt (cells m1) q cs' cap' ps (commands Q) g" and n: "n = length ps"
    and cap: "cap' = capacity (queueCommand Q v)" and rp: "replaces m m1 f (g @ [cs', q])"
    using growQueue_room [OF assms(2,3,1) q(1)] by blast
  have wf1: "wf_memory m1" and d1: "distinct (g @ [cs', q])" using rp by (simp_all add: replaces_def)
  have "agree h (cells m) (cells m1)"
    using assms(6) by (intro replaces_agree [OF rp valueAt_live [OF assms(4)] _ assms(1)]) (simp add: Int_commute)
  then have "valueAt (cells m1) a v h" by (rule valueAt_frame [OF assms(4)])
  then obtain p m2 k where cl: "cloneRespValueM always a m1 = Ok (p, m2)" and bu: "built m1 m2 p v k"
    by (rule cloneRespValueM_built [OF wf1 _ assms(5)])
  from room d1 wf1 bu obtain m' where
    run: "bind_run (writeCell q (QueueO cs' (Suc (length ps)) cap') m2) (writeSlot cs' (length ps) p) = Ok m'"
    and at: "queueAt (cells m') q \<lparr>commands = commands Q @ [v], capacity = cap'\<rparr> ((g @ k) @ [cs', q])"
    and gw: "grows m1 m' (set (g @ [cs', q]) \<union> set k)" and "brk m' = brk m2" by (rule queue_push)
  then have "fresh m1 m' k" using bu by (simp add: built_def fresh_def)
  then have "replaces m m' f ((g @ k) @ [cs', q])"
    using gw roomAt_live [OF room] by (rule replaces_extend [OF rp]) auto
  moreover have "queueCommand Q v = \<lparr>commands = commands Q @ [v], capacity = cap'\<rparr>"
    by (simp add: cap queueCommand_def Let_def)
  moreover have "queueCommandM always q a m = Ok m'"
    using gr cl run n by (simp add: queueCommandM_def withQueue_def readCell_Some [OF q(2,1)])
  ultimately show ?thesis using that at by metis
qed

text \<open>Clearing frees everything but the queue itself.\<close>

lemma clearCommandQueueM_exact:
  assumes "wf_memory m" and "queueAt (cells m) q Q f" and "distinct f"
  obtains g cs n cap where "f = g @ [q]" and "clearCommandQueueM q m = writeCell q (QueueO 0 0 0) (discard g m)" and "q \<noteq> 0"
    and "cells (discard g m) q = Some (QueueO cs n cap)"
  using assms(2)
proof cases
  case queue_empty
  then show ?thesis
    by (intro that [of "[]"]) (simp_all add: clearCommandQueueM_def withQueue_def readCell_Some)
next
  case (queue_slots cs ps cap vs g)
  have d: "distinct g" "cs \<notin> set g" "q \<notin> set g" "cs \<noteq> q" using assms(3) unfolding queue_slots(2) by auto
  have "length g \<le> brk m"
    using footprint_bound [OF assms(1) queueAt_live [OF assms(2)] assms(3)] unfolding queue_slots(2) by simp
  then have s: "freeSlots (freeVal (brk m)) cs 0 (length ps) m = Ok (discard g m)"
    using value_mem.slots_exact [OF queue_slots(9) d(1) _ queue_slots(4) d(2) queue_slots(8)] by blast
  have c: "c_free cs (discard g m) = Ok (discard (g @ [cs]) m)"
    using queue_slots(4,8) d(2) by (subst c_free_Some) auto
  show ?thesis
    by (rule that [of "g @ [cs]"]) (use queue_slots(2,3,5) s c d in \<open>simp_all add: clearCommandQueueM_def withQueue_def readCell_Some\<close>)
qed

lemma freeCommandQueue_exact:
  assumes "wf_memory m" and "queueAt (cells m) q Q f" and "distinct f"
  shows "freeCommandQueue q m = Ok (discard f m)"
proof -
  obtain g cs n cap where "f = g @ [q]" "clearCommandQueueM q m = writeCell q (QueueO 0 0 0) (discard g m)" "q \<noteq> 0"
    "cells (discard g m) q = Some (QueueO cs n cap)" using clearCommandQueueM_exact [OF assms] .
  then show ?thesis using write_then_free [of q "discard g m"] by (simp add: freeCommandQueue_def del: cells_discard)
qed

lemma createCommandQueueM_at:
  assumes "wf_memory m" and "ok (brk m)"
  shows "\<exists>q m'. createCommandQueueM ok m = Ok (q, m') \<and> queueAt (cells m') q createCommandQueue [q] \<and> replaces m m' [] [q]"
proof -
  obtain q m' where q: "c_malloc ok (QueueO 0 0 0) m = (q, m')" by fastforce
  note g = grows_malloc [OF assms(1) q]
  have "q = brk m" "0 < brk m" "cells m' = (cells m)(q \<mapsto> QueueO 0 0 0)" using g assms by (auto simp: wf_memory_def)
  then show ?thesis using q g grows_wf [of m m'] queueAt.queue_empty [of q "cells m'"]
    by (auto simp: createCommandQueueM_def createCommandQueue_def replaces_def)
qed

text \<open>
  The queue of a transaction owns its commands. Queueing a command on the heap refines the queue
  of values, \<^verbatim>\<open>realloc\<close> included; when the caller then frees the command, the queued copy is
  untouched; and freeing the queue afterwards gives back every block that the queue, its old array,
  the copies and the command ever used, so that exactly the other blocks of the heap remain.
\<close>

lemma queued_copy_survives:
  assumes "wf_memory m" and "queueAt (cells m) q Q f" and "distinct f"
    and "valueAt (cells m) a v h" and "distinct h" and "set f \<inter> set h = {}"
  shows "\<exists>m1 m2 m3 f'. queueCommandM always q a m = Ok m1 \<and> queueAt (cells m1) q (queueCommand Q v) f' \<and>
    freeRespValue a m1 = Ok m2 \<and> queueAt (cells m2) q (queueCommand Q v) f' \<and>
    freeCommandQueue q m2 = Ok m3 \<and> cells m3 = cells m |` (- (set f \<union> set h))"
proof -
  obtain m1 f' where q: "queueCommandM always q a m = Ok m1" "queueAt (cells m1) q (queueCommand Q v) f'" "replaces m m1 f f'"
    using queueCommandM_refines [OF assms] .
  have wf: "wf_memory m1" and d: "distinct f'" using q(3) by (simp_all add: replaces_def)
  have fh: "set f' \<inter> set h = {}"
    by (rule replaces_disjoint [OF q(3) assms(1) valueAt_live [OF assms(4)] assms(6)])
  have "agree h (cells m) (cells m1)"
    using assms(6) by (intro replaces_agree [OF q(3) valueAt_live [OF assms(4)] _ assms(1)]) (simp add: Int_commute)
  then have "valueAt (cells m1) a v h" by (rule valueAt_frame [OF assms(4)])
  then have fr: "freeRespValue a m1 = Ok (discard h m1)"
    using wf assms(5) by (simp add: freeRespValue_def value_mem.release_all)
  have at: "queueAt (cells (discard h m1)) q (queueCommand Q v) f'"
    by (rule queueAt_frame [OF q(2) agree_discard]) (use fh in auto)
  have fq: "freeCommandQueue q (discard h m1) = Ok (discard (h @ f') m1)"
    using freeCommandQueue_exact [OF _ at d] wf by simp
  have "cells (discard (h @ f') m1) = cells m |` (- (set f \<union> set h))"
    unfolding discard_discard [symmetric]
    using replaces_discard [OF assms(1) q(3)] by (simp add: fun_eq_iff restrict_map_def) metis
  with q fr at fq show ?thesis by blast
qed

section \<open>The parser on the heap\<close>

lemma createRespStringM_built:
  assumes "wf_memory m"
  obtains m' where "createRespStringM always s m = Ok (brk m, m')" and "built m m' (brk m) (RespBulk s) [Suc (brk m), brk m]"
proof -
  define m' where "m' = m\<lparr>brk := Suc (Suc (brk m)), cells := (cells m)(Suc (brk m) \<mapsto> CharsO (s @ [NUL]), brk m \<mapsto> ValueO RespTypeBulk (StringD (Suc (brk m)) (length s)))\<rparr>"
  have b: "0 < brk m" using assms by (simp add: wf_memory_def)
  then have "createRespStringM always s m = Ok (brk m, m')"
    by (simp add: createRespStringM_def malloc_always writeCell_Some m'_def fun_upd_twist)
  moreover have "valueAt (cells m') (brk m) (stringValue RespTypeBulk s) [Suc (brk m), brk m]"
    using b by (intro valueAt.value_string) (auto simp: m'_def)
  then have "built m m' (brk m) (RespBulk s) [Suc (brk m), brk m]"
    using assms by (auto simp: built_def fresh_def grows_def m'_def wf_memory_iff less_Suc_eq)
  ultimately show ?thesis by (rule that)
qed

text \<open>
  \<open>heapResult m r s\<close>: what a parser returns on the heap (\<open>s\<close>) is what it returns on values (\<open>r\<close>): a value
  lies in new blocks, and any other status leaves no block behind.
\<close>

definition heapResult ::
  "Memory \<Rightarrow> (RespValue \<times> nat) resp_result run \<Rightarrow> ((addr \<times> nat) resp_result \<times> Memory) run \<Rightarrow> bool" where
  "heapResult m r s =
     (case r of
        Fault e \<Rightarrow> s = Fault e
      | Ok (RespOk (v, c)) \<Rightarrow> \<exists>a m' g. s = Ok (RespOk (a, c), m') \<and> built m m' a v g
      | Ok RespErr \<Rightarrow> \<exists>m'. s = Ok (RespErr, m') \<and> cells m' = cells m \<and> brk m \<le> brk m'
      | Ok RespIncomplete \<Rightarrow> \<exists>m'. s = Ok (RespIncomplete, m') \<and> cells m' = cells m \<and> brk m \<le> brk m')"

lemma parseBulkStringM_refines:
  assumes "wf_memory m"
  shows "heapResult m (parseBulkString data) (parseBulkStringM always data m)"
proof (cases "parseLine data")
  case (RespOk p)
  obtain lineLen line where p: "p = (lineLen, line)" by (cases p)
  show ?thesis
  proof (cases "lineNumber line")
    case (Ok n)
    obtain m' where "createRespStringM always (take (nat n) (drop (lineLen + 2) data)) m = Ok (brk m, m')"
      "built m m' (brk m) (RespBulk (take (nat n) (drop (lineLen + 2) data))) [Suc (brk m), brk m]"
      using createRespStringM_built [OF assms] .
    then show ?thesis
      by (auto simp: heapResult_def parseBulkString_def parseBulkStringM_def RespOk p Ok Let_def createRespString_def)
  qed (simp add: heapResult_def parseBulkString_def parseBulkStringM_def RespOk p)
qed (simp_all add: heapResult_def parseBulkString_def parseBulkStringM_def)

text \<open>An array under construction: \<open>ps\<close> are the slots already written, \<open>k\<close> slots still hold \<open>z\<close>.\<close>

definition partialAt ::
  "cells \<Rightarrow> addr \<Rightarrow> addr \<Rightarrow> addr list \<Rightarrow> RespValue list \<Rightarrow> addr list \<Rightarrow> nat \<Rightarrow> addr option \<Rightarrow> bool" where
  "partialAt c a e ps vs g k z =
     (a \<noteq> 0 \<and> e \<noteq> 0 \<and> c a = Some (ValueO RespTypeArray (ArrayD e (length ps + k))) \<and>
      c e = Some (PointersO (map Some ps @ replicate k z)) \<and> slotsAt valueAt c ps vs g \<and> distinct (g @ [e, a]))"

lemma partialAt_live: "partialAt c a e ps vs g k z \<Longrightarrow> set (g @ [e, a]) \<subseteq> dom c"
  using value_mem.slots_live [of c ps vs g] by (simp add: partialAt_def domI)

lemma freeSlots_append:
  "freeSlots release e i (j + k) m = bind_run (freeSlots release e i j m) (freeSlots release e (i + j) k)"
proof (induction j arbitrary: i m)
  case (Suc j)
  have "(\<lambda>m. freeSlots release e (Suc i) (j + k) m) =
      (\<lambda>m. bind_run (freeSlots release e (Suc i) j m) (freeSlots release e (i + Suc j) k))" using Suc by simp
  then show ?case by (simp add: bind_run_assoc)
qed simp

lemma free_partial_zeroed:
  assumes "wf_memory m" and "partialAt (cells m) a e ps vs g k (Some 0)"
  shows "freeRespValue a m = Ok (discard (g @ [e, a]) m)"
proof -
  have d: "distinct (g @ [e, a])" and sl: "slotsAt valueAt (cells m) ps vs g" using assms(2) by (simp_all add: partialAt_def)
  have "length (g @ [e, a]) \<le> brk m" by (rule footprint_bound [OF assms(1) partialAt_live [OF assms(2)] d])
  then obtain n where n: "brk m = Suc n" "length g \<le> n" by (cases "brk m") auto
  have "slotsAt (releasable n (freeVal n)) (cells m) (replicate k 0) (replicate k (RespInteger 0)) []"
  proof (induction k)
    case (Suc k)
    have "releasable n (freeVal n) (cells m) 0 (RespInteger 0) []" by (cases n) (simp_all add: releasable_def)
    from slotsAt.slots_Cons [of "releasable n (freeVal n)", OF this Suc] show ?case by simp
  qed simp_all
  moreover have "slotsAt (releasable n (freeVal n)) (cells m) ps vs g"
    using sl by (rule slotsAt_weaken) (rule freeVal_releasable)
  ultimately have "slotsAt (releasable n (freeVal n)) (cells m) (ps @ replicate k 0) (vs @ replicate k (RespInteger 0)) (g @ [])"
    by (intro slotsAt_append)
  from freeSlots_exact [OF this, of m e _ 0 "[]"] assms(2) d n
  have "freeSlots (freeVal n) e 0 (length ps + k) m = Ok (discard g m)" by (simp add: partialAt_def map_replicate)
  then show ?thesis using assms(2) d by (simp add: freeRespValue_def n partialAt_def mem_simps)
qed

lemma free_partial_uninit:
  assumes "wf_memory m" and "partialAt (cells m) a e ps vs g (Suc k) None"
  shows "freeRespValue a m = Fault UninitRead"
proof -
  have d: "distinct (g @ [e, a])" and sl: "slotsAt valueAt (cells m) ps vs g" using assms(2) by (simp_all add: partialAt_def)
  have "length (g @ [e, a]) \<le> brk m" by (rule footprint_bound [OF assms(1) partialAt_live [OF assms(2)] d])
  then obtain n where n: "brk m = Suc n" "length g \<le> n" by (cases "brk m") auto
  have "freeSlots (freeVal n) e 0 (length ps) m = Ok (discard g m)"
    using assms(2) d n(2) by (intro value_mem.slots_exact [OF sl]) (auto simp: partialAt_def)
  moreover have "readSlot e (length ps) (discard g m) = Fault UninitRead"
    using assms(2) d by (simp add: readSlot_def partialAt_def mem_simps nth_append)
  ultimately have "freeSlots (freeVal n) e 0 (length ps + Suc k) m = Fault UninitRead"
    by (simp add: freeSlots_append del: add_Suc_right)
  then show ?thesis using assms(2) by (simp add: freeRespValue_def n partialAt_def mem_simps)
qed

text \<open>The next element is built and stored.\<close>

lemma partialAt_step:
  assumes "wf_memory m" and "partialAt (cells m) a e ps vs g (Suc k) z" and "built m m1 p v h"
  obtains m2 where "writeSlot e (length ps) p m1 = Ok m2" and "partialAt (cells m2) a e (ps @ [p]) (vs @ [v]) (g @ h) k z"
    and "grows m m2 (set h \<union> {e})" and "brk m2 = brk m1"
proof -
  have h: "fresh m m1 h" "grows m m1 (set h)" "valueAt (cells m1) p v h" using assms(3) by (auto simp: built_def)
  have below: "x < brk m" if "x \<in> set (g @ [e, a])" for x
    using live_below_set [OF assms(1) partialAt_live [OF assms(2)] that] by simp
  then have new: "x \<notin> set h" if "x \<in> set (g @ [e, a])" for x using that fresh_not_old [OF h(1)] by blast
  then have old: "cells m1 x = cells m x" if "x \<in> set (g @ [e, a])" for x using that h(2) by (simp add: grows_def)
  have part: "a \<noteq> 0" "e \<noteq> 0" "cells m1 a = Some (ValueO RespTypeArray (ArrayD e (length ps + Suc k)))"
      "cells m1 e = Some (PointersO (map Some ps @ z # replicate k z))" "distinct (g @ [e, a])" "slotsAt valueAt (cells m) ps vs g"
    using assms(2) old by (auto simp: partialAt_def)
  define m2 where "m2 = m1\<lparr>cells := (cells m1)(e \<mapsto> PointersO (map Some (ps @ [p]) @ replicate k z))\<rparr>"
  have w: "writeSlot e (length ps) p m1 = Ok m2" using writeSlot_next [OF part(2,4)] by (simp add: m2_def)
  have eg: "e \<notin> set g" "e \<noteq> a" "e \<notin> set h" using part(5) new by auto
  have "agree g (cells m) (cells m2)" unfolding agree_def m2_def using eg old by auto
  then have "slotsAt valueAt (cells m2) ps vs g" by (rule value_mem.slots_frame [OF part(6)])
  moreover have "agree h (cells m1) (cells m2)" unfolding agree_def m2_def using eg by auto
  then have "valueAt (cells m2) p v h" by (rule valueAt_frame [OF h(3)])
  ultimately have "slotsAt valueAt (cells m2) (ps @ [p]) (vs @ [v]) (g @ h @ [])" by (intro slotsAt_append slotsAt.intros)
  moreover have "distinct ((g @ h) @ [e, a])" using part(5) h(1) new by (auto simp: fresh_def)
  ultimately have "partialAt (cells m2) a e (ps @ [p]) (vs @ [v]) (g @ h) k z"
    using part eg by (simp add: partialAt_def m2_def)
  moreover have "grows m1 m2 {e}" unfolding m2_def using grows_wf [OF h(2)] part(4) by (rule grows_write)
  then have "grows m m2 (set h \<union> {e})" by (rule grows_trans [OF h(2)]) auto
  ultimately show ?thesis using that w by (simp add: m2_def)
qed

text \<open>The same for the loop over the elements of an array under construction.\<close>

definition elementsResult ::
  "Memory \<Rightarrow> addr \<Rightarrow> addr \<Rightarrow> addr list \<Rightarrow> RespValue list \<Rightarrow> addr list \<Rightarrow> addr option \<Rightarrow>
     (RespValue list \<times> nat) resp_result run \<Rightarrow> (nat resp_result \<times> Memory) run \<Rightarrow> bool" where
  "elementsResult m a e ps vs g z r s =
     (case r of
        Fault x \<Rightarrow> s = Fault x
      | Ok (RespOk (ws, n)) \<Rightarrow> \<exists>m' qs h. s = Ok (RespOk n, m') \<and> partialAt (cells m') a e (ps @ qs) (vs @ ws) (g @ h) 0 z \<and>
          fresh m m' h \<and> grows m m' (set h \<union> {e})
      | Ok RespErr \<Rightarrow> \<exists>m'. s = Ok (RespErr, m') \<and> cells m' = cells (discard (g @ [e, a]) m) \<and> brk m \<le> brk m'
      | Ok RespIncomplete \<Rightarrow>
          \<exists>m'. s = Ok (RespIncomplete, m') \<and> cells m' = cells (discard (g @ [e, a]) m) \<and> brk m \<le> brk m')"

lemma partial_released:
  assumes "wf_memory m" and "partialAt (cells m) a e ps vs g (Suc k) (unwritten zeroed)"
    and "cells m1 = cells m" and "brk m \<le> brk m1"
  shows "freeRespValue a m1 = (if zeroed then Ok (discard (g @ [e, a]) m1) else Fault UninitRead)"
  using free_partial_zeroed [of m1 a e ps vs g "Suc k"] free_partial_uninit [of m1 a e ps vs g k] wf_memory_mono [OF assms(1,3,4)] assms(2,3)
  by (cases zeroed) (simp_all add: unwritten_def)

lemma discard_grown:
  assumes "wf_memory m" and "fresh m m2 h" and "grows m m2 (set h \<union> {e})"
  shows "cells (discard ((g @ h) @ [e, a]) m2) = cells (discard (g @ [e, a]) m)"
proof
  fix x
  show "cells (discard ((g @ h) @ [e, a]) m2) x = cells (discard (g @ [e, a]) m) x"
    using assms(2,3) wf_memory_fresh [OF assms(1), of x] by (auto simp: grows_def fresh_def)
qed

lemma parseElementsM_refines:
  assumes "wf_memory m" and "partialAt (cells m) a e ps vs g k (unwritten zeroed)"
  shows "elementsResult m a e ps vs g (unwritten zeroed)
    (parseElements zeroed k data) (parseElementsM always a e (length ps) k data m)"
  using assms
proof (induction k arbitrary: m ps vs g data)
  case 0
  then show ?case
    by (auto simp: elementsResult_def fresh_def intro!: exI [of _ m] exI [of _ "[]"])
next
  case (Suc k)
  let ?z = "unwritten zeroed"
  note bulk = parseBulkStringM_refines [OF Suc.prems(1), of data, unfolded heapResult_def]
  show ?case
  proof (cases "parseBulkString data" rule: resp_run_cases)
    case (ok p)
    obtain v c where p: "p = (v, c)" by (cases p)
    from bulk ok p obtain b m1 h where b: "parseBulkStringM always data m = Ok (RespOk (b, c), m1)" "built m m1 b v h" by auto
    from Suc.prems b(2) obtain m2 where m2: "writeSlot e (length ps) b m1 = Ok m2"
        "partialAt (cells m2) a e (ps @ [b]) (vs @ [v]) (g @ h) k ?z" "grows m m2 (set h \<union> {e})" "brk m2 = brk m1"
      by (rule partialAt_step)
    have h: "fresh m m2 h" using b(2) m2(4) by (simp add: built_def fresh_def)
    note IH = Suc.IH [OF grows_wf [OF m2(3)] m2(2), of "drop c data"]
    note disc = discard_grown [OF Suc.prems(1) h m2(3), of g a]
    have brk: "brk m \<le> brk m2" using m2(3) by (simp add: grows_def)
    show ?thesis
    proof (cases "parseElements zeroed k (drop c data)" rule: resp_run_cases)
      case inner: (ok q)
      obtain ws n where q: "q = (ws, n)" by (cases q)
      from IH inner q obtain m3 qs h' where r: "parseElementsM always a e (length (ps @ [b])) k (drop c data) m2 = Ok (RespOk n, m3)"
          "partialAt (cells m3) a e ((ps @ [b]) @ qs) ((vs @ [v]) @ ws) ((g @ h) @ h') 0 ?z"
          "fresh m2 m3 h'" "grows m2 m3 (set h' \<union> {e})"
        unfolding elementsResult_def by auto
      have "fresh m m3 (h @ h')" using r(4) brk by (intro fresh_append [OF h r(3)]) (auto simp: grows_def)
      moreover have "grows m m3 (set (h @ h') \<union> {e})" by (rule grows_trans [OF m2(3) r(4)]) auto
      ultimately show ?thesis
        using r(1,2) ok inner q p b(1) m2(1)
        by (simp add: elementsResult_def, intro exI [of _ "b # qs"] exI [of _ "h @ h'"]) simp
    qed (use IH disc brk ok p b(1) m2(1) in \<open>auto simp: elementsResult_def\<close>)
  qed (use bulk partial_released [OF Suc.prems] in \<open>auto simp: elementsResult_def discard_def\<close>)
qed

lemma parseArrayM_refines:
  assumes "wf_memory m"
  shows "heapResult m (parseArray zeroed data) (parseArrayM always zeroed data m)"
proof (cases "parseLine data")
  case (RespOk p)
  obtain lineLen line where p: "p = (lineLen, line)" by (cases p)
  show ?thesis
  proof (cases "lineNumber line")
    case (Ok len)
    show ?thesis
    proof (cases "len < 0")
      case False
      let ?z = "unwritten zeroed" and ?b = "brk m" and ?d = "drop (lineLen + 2) data"
      define m1 where "m1 = m\<lparr>brk := Suc (Suc ?b), cells := (cells m)(Suc ?b \<mapsto> PointersO (replicate (nat len) ?z), ?b \<mapsto> ValueO RespTypeArray (ArrayD (Suc ?b) (nat len)))\<rparr>"
      have b: "0 < ?b" using assms by (simp add: wf_memory_def)
      have wf: "wf_memory m1" using assms by (auto simp: m1_def wf_memory_iff less_Suc_eq)
      have part: "partialAt (cells m1) ?b (Suc ?b) [] [] [] (nat len) ?z" using b by (simp add: partialAt_def m1_def)
      have run: "parseArrayM always zeroed data m =
          bind_run (parseElementsM always ?b (Suc ?b) 0 (nat len) ?d m1) (\<lambda>(r, m4).
            Ok (case r of RespOk cs \<Rightarrow> RespOk (?b, lineLen + 2 + cs) | RespErr \<Rightarrow> RespErr | RespIncomplete \<Rightarrow> RespIncomplete, m4))"
        using False b by (simp add: parseArrayM_def RespOk p Ok Let_def malloc_always writeCell_Some m1_def fun_upd_twist del: add_2_eq_Suc')
      have base: "cells (discard [Suc ?b, ?b] m1) = cells m" "?b \<le> brk m1"
        using wf_memory_fresh [OF assms] by (auto simp: m1_def)
      note els = parseElementsM_refines [OF wf part, of ?d, unfolded elementsResult_def]
      show ?thesis
      proof (cases "parseElements zeroed (nat len) ?d" rule: resp_run_cases)
        case (ok q)
        obtain vs n where q: "q = (vs, n)" by (cases q)
        from els ok q obtain m2 ps h where r: "parseElementsM always ?b (Suc ?b) 0 (nat len) ?d m1 = Ok (RespOk n, m2)"
            "partialAt (cells m2) ?b (Suc ?b) ps vs h 0 ?z" "fresh m1 m2 h" "grows m1 m2 (set h \<union> {Suc ?b})" by auto
        have "valueAt (cells m2) ?b (RespArray vs) (h @ [Suc ?b, ?b])"
          using r(2) by (intro valueAt.value_array) (auto simp: partialAt_def)
        moreover have "fresh m m2 (h @ [Suc ?b, ?b])" "grows m m2 (set (h @ [Suc ?b, ?b]))"
          using r(2-4) by (auto simp: fresh_def grows_def partialAt_def m1_def)
        ultimately have "built m m2 ?b (RespArray vs) (h @ [Suc ?b, ?b])" by (simp add: built_def)
        then show ?thesis using False by (auto simp: heapResult_def parseArray_def RespOk p Ok Let_def ok q run r(1) simp del: add_2_eq_Suc')
      qed (use els base False in \<open>auto simp: heapResult_def parseArray_def RespOk p Ok Let_def run simp del: add_2_eq_Suc'\<close>)
    qed (simp add: heapResult_def parseArray_def parseArrayM_def RespOk p Ok Let_def)
  qed (simp add: heapResult_def parseArray_def parseArrayM_def RespOk p)
qed (simp_all add: heapResult_def parseArray_def parseArrayM_def)



text \<open>
  C7. From the socket to the queue without a leak: a command that is parsed, queued in a transaction
  and freed by the connection loop, and then released with the queue, leaves the heap of the other
  structures exactly as it was before the command arrived.
\<close>

theorem parse_queue_free:
  assumes "wf_memory m" and "parseCommand zeroed data = Ok (RespOk (v, n))"
    and "queueAt (cells m) q Q f" and "distinct f"
  shows "\<exists>a m1 m2 m3 m4 f'. parseRespM always zeroed data m = Ok (RespOk (a, n), m1) \<and>
    queueCommandM always q a m1 = Ok m2 \<and> freeRespValue a m2 = Ok m3 \<and>
    queueAt (cells m3) q (queueCommand Q v) f' \<and>
    freeCommandQueue q m3 = Ok m4 \<and> cells m4 = cells m |` (- set f)"
proof -
  from parseArrayM_refines [OF assms(1)] parseBulkStringM_refines [OF assms(1)] assms(2)
  have "heapResult m (Ok (RespOk (v, n))) (parseRespM always zeroed data m)"
    unfolding parseCommand_def parseRespM_def by (auto split: if_splits) (metis, metis)
  then obtain a m1 g where p: "parseRespM always zeroed data m = Ok (RespOk (a, n), m1)" "built m m1 a v g"
    by (auto simp: heapResult_def)
  then have g: "valueAt (cells m1) a v g" "distinct g" "wf_memory m1" "grows m m1 (set g)" "fresh m m1 g"
    by (auto simp: built_def fresh_def grows_def)
  have disj: "set f \<inter> set g = {}"
    using live_below_set [OF assms(1) queueAt_live [OF assms(3)]] fresh_not_old [OF g(5)] by blast
  have "agree f (cells m) (cells m1)" using grows_agree [OF g(4)] disj .
  then have at: "queueAt (cells m1) q Q f" by (rule queueAt_frame [OF assms(3)])
  obtain m2 m3 m4 f' where q: "queueCommandM always q a m1 = Ok m2" "freeRespValue a m2 = Ok m3"
      "queueAt (cells m3) q (queueCommand Q v) f'" "freeCommandQueue q m3 = Ok m4" "cells m4 = cells m1 |` (- (set f \<union> set g))"
    using queued_copy_survives [OF g(3) at assms(4) g(1,2) disj] by blast
  have "cells m4 x = (cells m |` (- set f)) x" for x
    using fun_cong [OF discard_fresh [OF assms(1) g(4,5)], of x] disj
    by (auto simp: q(5) restrict_map_def split: if_splits)
  then have "cells m4 = cells m |` (- set f)" by (rule ext)
  with p(1) q show ?thesis by blast
qed

definition example_memory :: Memory where
  "example_memory = \<lparr>cells = [1 \<mapsto> QueueO 0 0 0], brk = 2\<rparr>"

theorem parse_queue_free_witness:
  "\<exists>a m1 m2 m3 m4 f'. parseRespM always False (''*1'' @ crlf @ ''$4'' @ crlf @ ''PING'' @ crlf) example_memory = Ok (RespOk (a, 14), m1) \<and>
    queueCommandM always 1 a m1 = Ok m2 \<and> freeRespValue a m2 = Ok m3 \<and>
    queueAt (cells m3) 1 (queueCommand createCommandQueue (RespArray [RespBulk ''PING''])) f' \<and>
    freeCommandQueue 1 m3 = Ok m4 \<and> cells m4 = cells example_memory |` (- set [1])"
proof (rule parse_queue_free)
  show "wf_memory example_memory" by (auto simp: example_memory_def wf_memory_iff split: if_splits)
  show "parseCommand False (''*1'' @ crlf @ ''$4'' @ crlf @ ''PING'' @ crlf) = Ok (RespOk (RespArray [RespBulk ''PING''], 14))"
    by code_simp
  show "queueAt (cells example_memory) 1 createCommandQueue [1]"
    unfolding createCommandQueue_def by (rule queueAt.queue_empty) (simp_all add: example_memory_def)
qed simp

end
