(* ===== verification/Store_Lifetime.thy ===== *)
theory Store_Lifetime
  imports Store_Update Resp_Memory
begin

text \<open>
  The rest of \<^verbatim>\<open>src/app/redis_store.c\<close> on the heap, \<^verbatim>\<open>storeGet\<close> and \<^verbatim>\<open>storeStreamAdd\<close>,
  and the whole life of a store: created, used by any sequence of operations, released. The
  interface \<open>heap_object\<close> says what an operation on the heap owes to the operation on values it
  implements, and lifts it to sequences; the store and the queue of commands interpret it.
\<close>

section \<open>Reading and appending\<close>

definition storeGetM :: "(addr \<Rightarrow> bool) \<Rightarrow> int \<Rightarrow> addr \<Rightarrow> string \<Rightarrow> Memory \<Rightarrow> (addr \<times> Memory) run" where
  "storeGetM ok now_ms s k m =
     (if s = 0 then Ok (0, m) else bind_run (storeFindM s k m) (\<lambda>b.
       if b = 0 then Ok (0, m)
       else withStoreEntry b m (\<lambda>key t d nx ex.
         if ex \<noteq> 0 \<and> ex \<le> now_ms then Ok (0, m)
         else if t \<noteq> TYPE_STRING then Ok (0, m)
         else case d of
           StreamS _ \<Rightarrow> Fault TypeConfusion
         | StringS p len \<Rightarrow>
             (case c_malloc ok (CharsO []) m of (x, m1) \<Rightarrow>
              if x = 0 then Ok (0, m1)
              else bind_run (readChars p len m1) (\<lambda>v. bind_run (writeCell x (CharsO v) m1) (\<lambda>m2. Ok (x, m2)))))))"

text \<open>The entry of a new stream; of its three allocations the code tests none.\<close>

definition newStreamEntry :: "(addr \<Rightarrow> bool) \<Rightarrow> int \<Rightarrow> addr \<Rightarrow> string \<Rightarrow> Memory \<Rightarrow> (addr \<times> Memory) run" where
  "newStreamEntry ok junk s k m =
     (case c_malloc ok UnsetO m of (a, m1) \<Rightarrow>
      if a = 0 then Fault NullDeref
      else case c_malloc ok (CharsO (k @ [NUL])) m1 of (key, m2) \<Rightarrow>
      case createStreamM ok m2 of (x, m3) \<Rightarrow>
      bind_run (linkFront s k a (\<lambda>nx. StoreEntryO key TYPE_STREAM (StreamS x) nx junk) m3) (\<lambda>m4. Ok (a, m4)))"

text \<open>The call of \<^verbatim>\<open>streamAdd\<close> on the union of the entry, which returns NULL for a NULL stream.\<close>

definition appendAt ::
  "(addr \<Rightarrow> bool) \<Rightarrow> 64 word \<Rightarrow> bool \<Rightarrow> addr \<Rightarrow> string \<Rightarrow> addr \<Rightarrow> addr \<Rightarrow> nat \<Rightarrow> Memory \<Rightarrow> (addr \<times> bool \<times> Memory) run" where
  "appendAt ok now has_new b i sf sv n m =
     withStoreEntry b m (\<lambda>key t d nx ex.
       case d of
         StringS _ _ \<Rightarrow> Fault TypeConfusion
       | StreamS x \<Rightarrow> if x = 0 then Ok (0, has_new, m) else streamAddM ok now has_new x i sf sv n m)"

definition storeStreamAddM ::
  "(addr \<Rightarrow> bool) \<Rightarrow> 64 word \<Rightarrow> int \<Rightarrow> bool \<Rightarrow> addr \<Rightarrow> string \<Rightarrow> string \<Rightarrow> addr \<Rightarrow> addr \<Rightarrow> nat \<Rightarrow> Memory \<Rightarrow> (addr \<times> bool \<times> Memory) run" where
  "storeStreamAddM ok now junk has_new s k i sf sv n m =
     bind_run (storeFindM s k m) (\<lambda>b.
     bind_run (if b = 0 then newStreamEntry ok junk s k m else Ok (b, m)) (\<lambda>(b', m').
       appendAt ok now has_new b' i sf sv n m'))"

section \<open>Reading\<close>

lemma focus_parts:
  assumes "storeFocus (cells m) s st f k b nx e fe fr" and "distinct f"
  shows "storeEntryAt (cells m) b (nx, e) fe" and "distinct fe" and "mset f = mset (fe @ fr)"
proof -
  show "storeEntryAt (cells m) b (nx, e) fe" and f: "mset f = mset (fe @ fr)" using assms(1) by (auto simp: storeFocus_def)
  then show "distinct fe" using assms(2) mset_eq_imp_distinct_iff by (metis distinct_append)
qed

text \<open>The copy that \<^verbatim>\<open>storeGet\<close> hands out is a fresh block of its own.\<close>

lemma copy_chars:
  assumes "wf_memory m" and "storeAt (cells m) s st f" and "distinct f" and "cells m p = Some (CharsO v)" and "p \<noteq> 0"
    and "c_malloc ok (CharsO []) m = (x, m1)" and "x \<noteq> 0"
  shows "\<exists>m2. bind_run (readChars p (length v) m1) (\<lambda>v. bind_run (writeCell x (CharsO v) m1) (\<lambda>m2. Ok (x, m2))) = Ok (x, m2) \<and>
    cells m2 x = Some (CharsO v) \<and> storeAt (cells m2) s st f \<and> replaces m m2 f (nz [x] @ f)"
proof -
  note g = grows_malloc [OF assms(1,6)]
  have x: "x = brk m" "cells m1 = (cells m)(x \<mapsto> CharsO [])" using g assms(7) by (auto split: if_splits)
  have p: "p < brk m" using live_below [OF assms(1,4)] by simp
  have new: "x \<notin> set f" using live_below_set [OF assms(1) storeAt_live [OF assms(2)]] x(1) by auto
  let ?m = "m1\<lparr>cells := (cells m1)(x \<mapsto> CharsO v)\<rparr>"
  have run: "bind_run (readChars p (length v) m1) (\<lambda>v. bind_run (writeCell x (CharsO v) m1) (\<lambda>m2. Ok (x, m2))) = Ok (x, ?m)"
    using assms(4,5,7) x p by (simp add: readChars_def readCell_Some writeCell_Some)
  have "agree f (cells m) (cells ?m)" using new x(2) by (auto simp: agree_def)
  then have "storeAt (cells ?m) s st f" by (rule storeAt_frame [OF assms(2)])
  moreover have r1: "replaces m m1 f (nz [x] @ f)" using assms(6) by (intro replaces_malloc [OF assms(1,3) storeAt_live [OF assms(2)]])
  have "replaces m1 ?m (nz [x] @ f) (nz [x] @ f)" using r1 x(2) assms(7) by (intro replaces_write [where y = "CharsO []"]) (auto simp: replaces_def nz_def)
  then have "replaces m ?m f (nz [x] @ f)" by (rule replaces_trans [OF r1 _ assms(1)])
  ultimately show ?thesis using run by (intro exI [of _ ?m]) simp
qed

lemma storeGetM_result:
  assumes "wf_memory m" and "storeAt (cells m) s st f" and "distinct f" and "0 < tableSize st" and "storeGet always now_ms st k = Ok r"
  shows "\<exists>x m'. storeGetM ok now_ms s k m = Ok (x, m') \<and> storeAt (cells m') s st f \<and> replaces m m' f (nz [x] @ f) \<and>
    (x \<noteq> 0 \<longrightarrow> (\<exists>v. r = Some v \<and> cells m' x = Some (CharsO v))) \<and> ((\<forall>a. ok a) \<longrightarrow> (x = 0 \<longleftrightarrow> r = None))"
proof -
  have s: "s \<noteq> 0" using assms(2) by (auto simp: storeAt_def)
  have none: ?thesis if "storeGetM ok now_ms s k m = Ok (0, m)" "r = None"
    using that assms(2) replaces_refl [OF assms(1,3)] by auto
  show ?thesis
  proof (cases "findEntry st k")
    case None
    then have "storeFindM s k m = Ok 0" using storeFindM_result [OF assms(1-4), of k] by simp
    with None assms(5) s show ?thesis by (intro none) (auto simp: storeGetM_def storeGet_def)
  next
    case (Some e)
    then obtain b nx fe fr where b: "storeFindM s k m = Ok b" and focus: "storeFocus (cells m) s st f k b nx e fe fr"
      using storeFindM_result [OF assms(1-4), of k] by auto
    from focus_parts(1) [OF focus assms(3)] show ?thesis
    proof cases
      case (store_entry key t d g)
      have run: "storeGetM ok now_ms s k m = (if expiry e \<noteq> 0 \<and> expiry e \<le> now_ms then Ok (0, m) else if t \<noteq> TYPE_STRING then Ok (0, m)
          else case d of StreamS _ \<Rightarrow> Fault TypeConfusion
            | StringS p len \<Rightarrow> (case c_malloc ok (CharsO []) m of (x, m1) \<Rightarrow>
                if x = 0 then Ok (0, m1)
                else bind_run (readChars p len m1) (\<lambda>v. bind_run (writeCell x (CharsO v) m1) (\<lambda>m2. Ok (x, m2)))))"
        using s b store_entry(2,3) by (simp add: storeGetM_def withStoreEntry_Some)
      show ?thesis
      proof (cases "expiry e \<noteq> 0 \<and> expiry e \<le> now_ms")
        case True
        with run Some assms(5) show ?thesis by (intro none) (auto simp: storeGet_def)
      next
        case False
        note run = run [unfolded if_not_P [OF False]]
        from store_entry(5) show ?thesis
        proof cases
          case (data_stream x S)
          with run Some False assms(5) show ?thesis by (intro none) (auto simp: storeGet_def)
        next
          case (data_null len)
          with Some False assms(5) show ?thesis by (auto simp: storeGet_def)
        next
          case (data_string p v)
          then have r: "r = Some v" using Some False assms(5) by (auto simp: storeGet_def)
          obtain x m1 where x: "c_malloc ok (CharsO []) m = (x, m1)" by fastforce
          note g = grows_malloc [OF assms(1) x]
          show ?thesis
          proof (cases "x = 0")
            case True
            then have c: "\<not> ok (brk m)" "cells m1 = cells m" using g assms(1) by (auto simp: wf_memory_def split: if_splits)
            have "replaces m m1 f (nz [x] @ f)" using x by (intro replaces_malloc [OF assms(1,3) storeAt_live [OF assms(2)]])
            with True c r run data_string x assms(2) show ?thesis by (intro exI [of _ 0] exI [of _ m1]) auto
          next
            case False
            from copy_chars [OF assms(1-3) data_string(6,5) x this] run data_string x r False show ?thesis by auto
          qed
        qed
      qed
    qed
  qed
qed

section \<open>Appending\<close>

lemma srcAt_mono:
  assumes "srcAt (cells (discard f m)) e i xs"
  shows "srcAt (cells m) e i xs"
proof -
  have same: "cells m y = cells (discard f m) y" if "cells (discard f m) y \<noteq> None" for y using that by (auto split: if_splits)
  from assms show ?thesis by (rule srcAt_frame) (use assms same in \<open>auto simp: srcAt_def simp del: cells_discard\<close>)
qed

lemma appendAt_result:
  assumes "wf_memory m" and "storeAt (cells m) s st f" and "distinct f" and "storeFocus (cells m) s st f k b nx e fe fr"
    and "svalue e = StreamValue S" and "srcAt (cells (discard f m)) sf 0 (map fst fvs)" and "srcAt (cells (discard f m)) sv 0 (map snd fvs)"
    and "streamAdd always now hn S i fvs = Ok (S', hn', r)"
  shows "\<exists>x hn2 S2 m' f'. appendAt ok now hn b i sf sv (length fvs) m = Ok (x, hn2, m') \<and>
    storeAt (cells m') s (updateEntry st k (\<lambda>_. e\<lparr>svalue := StreamValue S2\<rparr>)) f' \<and> replaces m m' f (nz [x] @ f') \<and>
    (S2 = S \<and> hn2 = hn \<or> S2 = S' \<and> hn2 = hn') \<and> (x \<noteq> 0 \<longrightarrow> S2 = S' \<and> (\<exists>t. r = Some t \<and> strAt (cells m') x t)) \<and>
    ((\<forall>a. ok a) \<longrightarrow> S2 = S' \<and> hn2 = hn' \<and> (x = 0 \<longleftrightarrow> r = None))"
  using focus_parts(1) [OF assms(4,3)]
proof cases
  case (store_entry key t d g)
  have mf: "mset f = mset (g @ key # b # fr)" using focus_parts(3) [OF assms(4,3)] store_entry(1) by simp
  have dg: "distinct g" using focus_parts(2) [OF assms(4,3)] store_entry(1) by simp
  obtain y where d: "t = TYPE_STREAM" "d = StreamS y" and y: "streamAt (cells m) y S g"
    using store_entry(5) unfolding assms(5) by cases auto
  have "y \<noteq> 0" using y by cases auto
  then have run: "appendAt ok now hn b i sf sv (length fvs) m = streamAddM ok now hn y i sf sv (length fvs) m"
    using store_entry(2,3) d by (simp add: appendAt_def withStoreEntry_Some)
  have "appendOutcome ok m y g (S, hn) (S', hn', r) (streamAddM ok now hn y i sf sv (length fvs) m)"
    by (rule streamAddM_outcome [OF assms(1) y dg srcAt_mono [OF assms(6)] srcAt_mono [OF assms(7)] assms(8)])
  then obtain x hn2 S2 m' g' where o: "streamAddM ok now hn y i sf sv (length fvs) m = Ok (x, hn2, m')"
      "streamAt (cells m') y S2 g'" "distinct (nz [x] @ g')" "S2 = S \<and> hn2 = hn \<or> S2 = S' \<and> hn2 = hn'"
      "x \<noteq> 0 \<longrightarrow> S2 = S' \<and> (\<exists>t. r = Some t \<and> strAt (cells m') x t)" "(\<forall>a. ok a) \<longrightarrow> S2 = S' \<and> hn2 = hn' \<and> (x = 0 \<longleftrightarrow> r = None)"
      "cells (discard (nz [x] @ g') m') = cells (discard g m)"
    unfolding appendOutcome_def prod.case by blast
  have "set (nz [x] @ g') \<subseteq> dom (cells m')" using streamAt_live [OF o(2)] o(5) by (auto simp: nz_def strAt_def)
  then have r1: "replaces m m' g (nz [x] @ g')"
    using advances_streamAddM [of m ok now hn y i sf sv "length fvs"] o(1,3,7) assms(1) by (intro replaces_accounted) auto
  have fr: "agree (key # b # fr) (cells m) (cells m')"
    using replaces_frame(2) [OF r1 mf refl assms(3,1) storeAt_live [OF assms(2)]] .
  have "storeEntryAt (cells m') b (nx, e\<lparr>svalue := StreamValue S2\<rparr>) (key # g' @ [b])"
    using store_entry(2-4) fr d o(2) strAt_frame [OF store_entry(4)] by (intro storeEntryAt.store_entry) (auto intro: dataAt.intros)
  then obtain f' where f': "storeAt (cells m') s (updateEntry st k (\<lambda>_. e\<lparr>svalue := StreamValue S2\<rparr>)) f'" "mset f' = mset ((key # g' @ [b]) @ fr)"
    using assms(4) fr unfolding storeFocus_def by (metis agree_Cons)
  have "mset (nz [x] @ f') = mset ((nz [x] @ g') @ key # b # fr)" using f'(2) by simp
  from replaces_frame(1) [OF r1 mf this assms(3,1) storeAt_live [OF assms(2)]] show ?thesis using run o(1,4-6) f'(1)
    by (intro exI [of _ x] exI [of _ hn2] exI [of _ S2] exI [of _ m'] exI [of _ f']) simp
qed

lemma newStreamEntry_result:
  assumes "wf_memory m" and "storeAt (cells m) s st f" and "distinct f" and "0 < tableSize st" and "nul_free k" and "findEntry st k = None"
    and "ok (brk m)" and "ok (Suc (brk m))" and "ok (Suc (Suc (brk m)))"
  shows "\<exists>a m' f'. newStreamEntry ok junk s k m = Ok (a, m') \<and> storeAt (cells m') s (ensureStream junk st k) f' \<and> replaces m m' f f' \<and>
    storeFindM s k m' = Ok a"
proof -
  obtain a m1 where a: "c_malloc ok UnsetO m = (a, m1)" by fastforce
  obtain key m2 where key: "c_malloc ok (CharsO (k @ [NUL])) m1 = (key, m2)" by fastforce
  obtain x m3 where x: "c_malloc ok (StreamO 0 0) m2 = (x, m3)" by fastforce
  note al = malloc3 [OF assms(1) a key x]
  have nz: "a \<noteq> 0" "key \<noteq> 0" "x \<noteq> 0" using al(7-9) assms(7-9) by auto
  have c: "a = brk m" "key = Suc (brk m)" "x = Suc (Suc (brk m))" and cells3: "cells m3 = (cells m)(a \<mapsto> UnsetO, key \<mapsto> CharsO (k @ [NUL]), x \<mapsto> StreamO 0 0)"
    using al(13) nz by auto
  have new: "a \<notin> set f" "key \<notin> set f" "x \<notin> set f" using live_below_set [OF assms(1) storeAt_live [OF assms(2)]] c by fastforce+
  then have "agree f (cells m) (cells m3)" using cells3 by (auto simp: agree_def)
  then have at: "storeAt (cells m3) s st f" by (rule storeAt_frame [OF assms(2)])
  have d: "distinct (f @ key # [x] @ [a])" using assms(3) new c by simp
  let ?e = "\<lparr>skey = k, svalue = StreamValue createStream, expiry = junk\<rparr>"
  have "streamAt (cells m3) x \<lparr>entries = []\<rparr> [x]" using cells3 nz by (intro streamAt.stream_empty) auto
  then have dat: "dataAt (cells m3) TYPE_STREAM (StreamS x) (svalue ?e) [x]" by (auto simp: createStream_def intro: dataAt.intros)
  have str: "strAt (cells m3) key (skey ?e)" "cells m3 a = Some UnsetO" using cells3 c nz assms(5) by (simp_all add: strAt_def)
  obtain m' f' where r: "linkFront s (skey ?e) a (\<lambda>nx. StoreEntryO key TYPE_STREAM (StreamS x) nx (expiry ?e)) m3 = Ok m'"
      "storeAt (cells m') s (insertEntry st ?e) f'" "replaces m3 m' (f @ key # [x] @ [a]) f'" "storeFindM s (skey ?e) m' = Ok a"
    using linkFront_result [OF al(3) at assms(4) d str(1) dat nz(1) str(2)] by blast
  have "replaces m m3 f (f @ key # [x] @ [a])" using d al(3,6) c cells3 unfolding replaces_def by simp
  from replaces_trans [OF this r(3) assms(1)] show ?thesis using nz a key x r(1,2,4) assms(6)
    by (intro exI [of _ a] exI [of _ m'] exI [of _ f']) (simp add: newStreamEntry_def createStreamM_def ensureStream_def)
qed

lemma storeStreamAddM_result:
  assumes "wf_memory m" and "storeAt (cells m) s st f" and "distinct f" and "wf_store st" and "nul_free k"
    and "srcAt (cells (discard f m)) sf 0 (map fst fvs)" and "srcAt (cells (discard f m)) sv 0 (map snd fvs)"
    and "storeStreamAdd always now junk hn st k i fvs = Ok (st', hn', r)"
    and "findEntry st k = None \<longrightarrow> ok (brk m) \<and> ok (Suc (brk m)) \<and> ok (Suc (Suc (brk m)))"
  shows "\<exists>x hn2 st2 m' f'. storeStreamAddM ok now junk hn s k i sf sv (length fvs) m = Ok (x, hn2, m') \<and>
    storeAt (cells m') s st2 f' \<and> replaces m m' f (nz [x] @ f') \<and>
    (st2 = ensureStream junk st k \<and> hn2 = hn \<or> st2 = st' \<and> hn2 = hn') \<and> (x \<noteq> 0 \<longrightarrow> st2 = st' \<and> (\<exists>t. r = Some t \<and> strAt (cells m') x t)) \<and>
    ((\<forall>a. ok a) \<longrightarrow> st2 = st' \<and> hn2 = hn' \<and> (x = 0 \<longleftrightarrow> r = None))"
proof -
  let ?st = "ensureStream junk st k"
  have n: "0 < tableSize st" "0 < tableSize ?st" using assms(4) ensureStream_wf [OF assms(4)] by (auto simp: wf_store_def)
  obtain b m1 f1 where s1: "bind_run (storeFindM s k m) (\<lambda>b. if b = 0 then newStreamEntry ok junk s k m else Ok (b, m)) = Ok (b, m1)"
      "storeAt (cells m1) s ?st f1" "replaces m m1 f f1" "storeFindM s k m1 = Ok b"
  proof (cases "findEntry st k")
    case None
    then have "storeFindM s k m = Ok 0" using storeFindM_result [OF assms(1-3) n(1), of k] by simp
    moreover obtain a m' f' where "newStreamEntry ok junk s k m = Ok (a, m')" "storeAt (cells m') s ?st f'" "replaces m m' f f'" "storeFindM s k m' = Ok a"
      using newStreamEntry_result [where ok = ok, OF assms(1-3) n(1) assms(5) None] assms(9) None by blast
    ultimately show ?thesis using that by simp
  next
    case (Some e)
    then obtain b nx fe fr where b: "storeFindM s k m = Ok b" "storeFocus (cells m) s st f k b nx e fe fr"
      using storeFindM_result [OF assms(1-3) n(1), of k] by auto
    have "b \<noteq> 0" using store_mem.rep_head [OF focus_parts(1) [OF b(2) assms(3)]] by simp
    with b that [of b m f] Some assms(2) replaces_refl [OF assms(1,3)] show ?thesis by (simp add: ensureStream_def)
  qed
  have m1: "wf_memory m1" "distinct f1" using s1(3) by (auto simp: replaces_def)
  obtain e where e: "findEntry ?st k = Some e" using findEntry_ensureStream [OF assms(4)] by blast
  then obtain nx fe fr where focus: "storeFocus (cells m1) s ?st f1 k b nx e fe fr"
    using storeFindM_result [OF m1(1) s1(2) m1(2) n(2), of k] s1(4) by auto
  from assms(8) e obtain S S' where S: "svalue e = StreamValue S" "streamAdd always now hn S i fvs = Ok (S', hn', r)"
    and st': "st' = updateEntry ?st k (\<lambda>e. e\<lparr>svalue := StreamValue S'\<rparr>)"
    by (auto simp: storeStreamAdd_def Let_def bind_run_Ok_iff split: StoreValue.splits)
  have out: "cells (discard f1 m1) = cells (discard f m)" by (rule replaces_discard [OF assms(1) s1(3)])
  obtain x hn2 S2 m' f' where a: "appendAt ok now hn b i sf sv (length fvs) m1 = Ok (x, hn2, m')"
      "storeAt (cells m') s (updateEntry ?st k (\<lambda>_. e\<lparr>svalue := StreamValue S2\<rparr>)) f'" "replaces m1 m' f1 (nz [x] @ f')"
      "S2 = S \<and> hn2 = hn \<or> S2 = S' \<and> hn2 = hn'" "x \<noteq> 0 \<longrightarrow> S2 = S' \<and> (\<exists>t. r = Some t \<and> strAt (cells m') x t)"
      "(\<forall>a. ok a) \<longrightarrow> S2 = S' \<and> hn2 = hn' \<and> (x = 0 \<longleftrightarrow> r = None)"
    using appendAt_result [where ok = ok, OF m1(1) s1(2) m1(2) focus S(1) assms(6,7) [folded out] S(2)] by blast
  have upd: "updateEntry ?st k (\<lambda>_. e\<lparr>svalue := StreamValue S'\<rparr>) = st'" "updateEntry ?st k (\<lambda>_. e\<lparr>svalue := StreamValue S\<rparr>) = ?st"
    using st' updateEntry_found [OF e, of "\<lambda>e. e\<lparr>svalue := StreamValue S'\<rparr>"] updateEntry_same [OF e] S(1) by (auto simp flip: S(1))
  have run: "storeStreamAddM ok now junk hn s k i sf sv (length fvs) m = Ok (x, hn2, m')"
    using s1(1) a(1) by (auto simp: storeStreamAddM_def bind_run_assoc [symmetric] split: if_splits)
  show ?thesis using run a(2-6) upd replaces_trans [OF s1(3) a(3) assms(1)]
    by (intro exI [of _ x] exI [of _ hn2] exI [of _ "updateEntry ?st k (\<lambda>_. e\<lparr>svalue := StreamValue S2\<rparr>)"] exI [of _ m'] exI [of _ f']) auto
qed

section \<open>The life of an object on the heap\<close>

text \<open>A sequence of operations; the first fault ends it.\<close>

primrec runOps :: "('op \<Rightarrow> 's \<Rightarrow> 's run) \<Rightarrow> 'op list \<Rightarrow> 's \<Rightarrow> 's run" where
  "runOps step [] s = Ok s"
| "runOps step (op # ops) s = bind_run (step op s) (runOps step ops)"

text \<open>
  What the operations on a structure owe to each other. Every operation may use what the caller
  passes, \<open>args\<close>, which lives outside of the structure; it exchanges the footprint of the
  structure for one that represents the result, and frees whatever else it allocated. Sequences of
  operations then do so too, and a structure that is created, used and released leaves no block.
\<close>

locale heap_object =
  fixes rep :: "cells \<Rightarrow> addr \<Rightarrow> 's \<Rightarrow> addr list \<Rightarrow> bool"
    and inv :: "'s \<Rightarrow> bool"
    and args :: "'op \<Rightarrow> cells \<Rightarrow> bool"
    and spec :: "'op \<Rightarrow> 's \<Rightarrow> 's run"
    and impl :: "'op \<Rightarrow> addr \<Rightarrow> Memory \<Rightarrow> Memory run"
    and create :: "Memory \<Rightarrow> (addr \<times> Memory) run"
    and initial :: 's
    and release :: "addr \<Rightarrow> Memory \<Rightarrow> Memory run"
  assumes step_refines: "wf_memory m \<Longrightarrow> rep (cells m) a s f \<Longrightarrow> distinct f \<Longrightarrow> inv s \<Longrightarrow> args op (cells (discard f m)) \<Longrightarrow>
      spec op s = Ok s' \<Longrightarrow> \<exists>m' f'. impl op a m = Ok m' \<and> rep (cells m') a s' f' \<and> replaces m m' f f'"
    and step_inv: "inv s \<Longrightarrow> spec op s = Ok s' \<Longrightarrow> inv s'"
    and create_rep: "wf_memory m \<Longrightarrow> \<exists>a m' f. create m = Ok (a, m') \<and> rep (cells m') a initial f \<and> replaces m m' [] f"
    and create_inv: "inv initial"
    and release_all: "wf_memory m \<Longrightarrow> rep (cells m) a s f \<Longrightarrow> distinct f \<Longrightarrow> release a m = Ok (discard f m)"
begin

lemma runs_refine:
  assumes "wf_memory m" and "rep (cells m) a s f" and "distinct f" and "inv s"
    and "\<forall>op \<in> set ops. args op (cells (discard f m))" and "runOps spec ops s = Ok s'"
  shows "\<exists>m' f'. runOps (\<lambda>op. impl op a) ops m = Ok m' \<and> rep (cells m') a s' f' \<and> replaces m m' f f'"
  using assms
proof (induction ops arbitrary: m s f)
  case Nil
  then show ?case using replaces_refl by auto
next
  case (Cons op ops)
  from Cons.prems(6) obtain s1 where s1: "spec op s = Ok s1" "runOps spec ops s1 = Ok s'" by (auto simp: bind_run_Ok_iff)
  from step_refines [OF Cons.prems(1-4) _ s1(1)] Cons.prems(5)
  obtain m1 f1 where o: "impl op a m = Ok m1" "rep (cells m1) a s1 f1" "replaces m m1 f f1" by (auto simp del: cells_discard)
  have m1: "wf_memory m1" "distinct f1" using o(3) by (auto simp: replaces_def)
  have "\<forall>op \<in> set ops. args op (cells (discard f1 m1))" unfolding replaces_discard [OF Cons.prems(1) o(3)] using Cons.prems(5) by (simp del: cells_discard)
  from Cons.IH [OF m1(1) o(2) m1(2) step_inv [OF Cons.prems(4) s1(1)] this s1(2)]
  obtain m' f' where "runOps (\<lambda>op. impl op a) ops m1 = Ok m'" "rep (cells m') a s' f'" "replaces m1 m' f1 f'" by blast
  then show ?case using o(1) replaces_trans [OF o(3) _ Cons.prems(1)] by auto
qed

lemma lifetime:
  assumes "wf_memory m" and "\<forall>op \<in> set ops. args op (cells m)" and "runOps spec ops initial = Ok s'"
  shows "\<exists>a m1 m2 m3 f. create m = Ok (a, m1) \<and> runOps (\<lambda>op. impl op a) ops m1 = Ok m2 \<and> rep (cells m2) a s' f \<and>
    release a m2 = Ok m3 \<and> cells m3 = cells m"
proof -
  obtain a m1 f where c: "create m = Ok (a, m1)" "rep (cells m1) a initial f" "replaces m m1 [] f" using create_rep [OF assms(1)] by blast
  have m1: "wf_memory m1" "distinct f" using c(3) by (auto simp: replaces_def)
  have out: "cells (discard f m1) = cells m" using replaces_discard [OF assms(1) c(3)] by simp
  have "\<forall>op \<in> set ops. args op (cells (discard f m1))" using assms(2) unfolding out .
  from runs_refine [OF m1(1) c(2) m1(2) create_inv this assms(3)]
  obtain m2 f' where r: "runOps (\<lambda>op. impl op a) ops m1 = Ok m2" "rep (cells m2) a s' f'" "replaces m1 m2 f f'" by blast
  have m2: "wf_memory m2" "distinct f'" using r(3) by (auto simp: replaces_def)
  have "cells (discard f' m2) = cells m" using replaces_discard [OF m1(1) r(3)] out by simp
  then show ?thesis using c(1) r(1,2) release_all [OF m2(1) r(2) m2(2)] by blast
qed

end

section \<open>The store\<close>

text \<open>
  The calls that the handlers make on the store; the copy that \<^verbatim>\<open>storeGet\<close> returns and the id that
  \<^verbatim>\<open>storeStreamAdd\<close> returns are freed by the caller. The fields and values of an append are two arrays
  of strings of the caller.
\<close>

datatype store_op =
    SetOp string string
  | GetOp int string
  | ExpireOp string int
  | ClearOp int
  | AppendOp "64 word" int bool string string addr addr "(string \<times> string) list"

fun storeSpec :: "store_op \<Rightarrow> RedisStore \<Rightarrow> RedisStore run" where
  "storeSpec (SetOp k v) st = Ok (fst (storeSet always st k v))"
| "storeSpec (GetOp now_ms k) st = bind_run (storeGet always now_ms st k) (\<lambda>_. Ok st)"
| "storeSpec (ExpireOp k t) st = Ok (fst (setExpiry st k t))"
| "storeSpec (ClearOp now_s) st = Ok (clearExpired now_s st)"
| "storeSpec (AppendOp now junk hn k i sf sv fvs) st =
     bind_run (storeStreamAdd always now junk hn st k i fvs) (\<lambda>(st', _, _). Ok st')"

fun storeImpl :: "store_op \<Rightarrow> addr \<Rightarrow> Memory \<Rightarrow> Memory run" where
  "storeImpl (SetOp k v) s m = bind_run (storeSetM always s k v m) (\<lambda>(_, m'). Ok m')"
| "storeImpl (GetOp now_ms k) s m = bind_run (storeGetM always now_ms s k m) (\<lambda>(x, m'). c_free x m')"
| "storeImpl (ExpireOp k t) s m = bind_run (setExpiryM s k t m) (\<lambda>(_, m'). Ok m')"
| "storeImpl (ClearOp now_s) s m = clearExpiredM now_s s m"
| "storeImpl (AppendOp now junk hn k i sf sv fvs) s m =
     bind_run (storeStreamAddM always now junk hn s k i sf sv (length fvs) m) (\<lambda>(x, _, m'). c_free x m')"

fun storeArgs :: "store_op \<Rightarrow> cells \<Rightarrow> bool" where
  "storeArgs (SetOp k v) c = nul_free k"
| "storeArgs (AppendOp now junk hn k i sf sv fvs) c = (nul_free k \<and> srcAt c sf 0 (map fst fvs) \<and> srcAt c sv 0 (map snd fvs))"
| "storeArgs _ c = True"

lemma free_result:
  assumes "wf_memory m" and "replaces m m' f (nz [x] @ f')" and "x \<noteq> 0 \<longrightarrow> x \<in> dom (cells m')"
  shows "\<exists>m2. c_free x m' = Ok m2 \<and> replaces m m2 f f' \<and> agree f' (cells m') (cells m2)"
proof (cases "x = 0")
  case True
  with assms(2) show ?thesis by simp
next
  case False
  then obtain o' where "cells m' x = Some o'" using assms(3) by auto
  then have "c_free x m' = Ok (discard (nz [x]) m')" using False by (simp add: c_free_Some)
  moreover have d: "distinct (nz [x] @ f')" "wf_memory m'" using assms(2) by (auto simp: replaces_def)
  have "replaces m (discard (nz [x]) m') f f'" by (rule replaces_trans [OF assms(2) replaces_discard_part [OF d(2,1)] assms(1)])
  moreover have "agree f' (cells m') (cells (discard (nz [x]) m'))" using d(1) by (intro agree_discard) auto
  ultimately show ?thesis by blast
qed

lemma createStoreM_at:
  assumes "wf_memory m" and "ok (brk m)" and "ok (Suc (brk m))"
  shows "\<exists>s m' f. createStoreM ok True m = Ok (s, m') \<and> storeAt (cells m') s emptyStore f \<and> replaces m m' [] f"
proof -
  let ?s = "brk m" and ?t = "Suc (brk m)"
  let ?m = "m\<lparr>cells := (cells m)(?s \<mapsto> StoreO ?t INITIAL_STORE_SIZE 0, ?t \<mapsto> PointersO (replicate INITIAL_STORE_SIZE (Some 0))), brk := Suc ?t\<rparr>"
  have p: "0 < brk m" using assms(1) by (simp add: wf_memory_def)
  then have run: "createStoreM ok True m = Ok (?s, ?m)"
    using assms(2,3) by (simp add: createStoreM_def c_malloc_def writeCell_Some fun_upd_twist)
  have "storeAt (cells ?m) ?s emptyStore [?t, ?s]" unfolding storeAt_def
    using p empty_buckets [of "cells ?m" INITIAL_STORE_SIZE]
    by (intro exI [of _ ?t] exI [of _ "replicate INITIAL_STORE_SIZE 0"] exI [of _ "[]"]) (simp add: emptyStore_def)
  moreover have "replaces m ?m [] [?t, ?s]" using assms(1) by (auto simp: replaces_def wf_memory_iff less_Suc_eq split: if_splits)
  ultimately show ?thesis using run by blast
qed

lemma setOp_refines:
  assumes "wf_memory m" and "storeAt (cells m) s st f" and "distinct f" and "wf_store st" and "nul_free k"
  shows "\<exists>m' f'. storeImpl (SetOp k v) s m = Ok m' \<and> storeAt (cells m') s (fst (storeSet always st k v)) f' \<and> replaces m m' f f'"
proof -
  have n: "0 < tableSize st" using assms(4) by (simp add: wf_store_def)
  obtain r m' st2 f' where r: "storeSetM always s k v m = Ok (r, m')" "(\<forall>a::addr. always a) \<longrightarrow> r" "setOutcome st k v r st2" "storeAt (cells m') s st2 f'" "replaces m m' f f'"
    using storeSetM_result [where ok = always and v = v, OF assms(1-3) n assms(5)] by auto
  then have "st2 = fst (storeSet always st k v)" by (simp add: setOutcome_def)
  with r show ?thesis by auto
qed

lemma getOp_refines:
  assumes "wf_memory m" and "storeAt (cells m) s st f" and "distinct f" and "wf_store st" and "storeGet always now_ms st k = Ok r"
  shows "\<exists>m' f'. storeImpl (GetOp now_ms k) s m = Ok m' \<and> storeAt (cells m') s st f' \<and> replaces m m' f f'"
proof -
  have n: "0 < tableSize st" using assms(4) by (simp add: wf_store_def)
  obtain x m' where x: "storeGetM always now_ms s k m = Ok (x, m')" "storeAt (cells m') s st f" "replaces m m' f (nz [x] @ f)"
      "x \<noteq> 0 \<longrightarrow> (\<exists>v. r = Some v \<and> cells m' x = Some (CharsO v))"
    using storeGetM_result [where ok = always, OF assms(1-3) n assms(5)] by blast
  have "x \<noteq> 0 \<longrightarrow> x \<in> dom (cells m')" using x(4) by auto
  from free_result [OF assms(1) x(3) this] obtain m2 where m2: "c_free x m' = Ok m2" "replaces m m2 f f" "agree f (cells m') (cells m2)" by blast
  have "storeAt (cells m2) s st f" by (rule storeAt_frame [OF x(2) m2(3)])
  then show ?thesis using x(1) m2(1,2) by auto
qed

lemma appendOp_refines:
  assumes "wf_memory m" and "storeAt (cells m) s st f" and "distinct f" and "wf_store st"
    and "storeArgs (AppendOp now junk hn k i sf sv fvs) (cells (discard f m))" and "storeStreamAdd always now junk hn st k i fvs = Ok (st', hn', r)"
  shows "\<exists>m' f'. storeImpl (AppendOp now junk hn k i sf sv fvs) s m = Ok m' \<and> storeAt (cells m') s st' f' \<and> replaces m m' f f'"
proof -
  have src: "nul_free k" "srcAt (cells (discard f m)) sf 0 (map fst fvs)" "srcAt (cells (discard f m)) sv 0 (map snd fvs)"
    using assms(5) by (simp_all del: cells_discard)
  obtain x hn2 st2 m' f' where x: "storeStreamAddM always now junk hn s k i sf sv (length fvs) m = Ok (x, hn2, m')" "storeAt (cells m') s st2 f'"
      "replaces m m' f (nz [x] @ f')" "x \<noteq> 0 \<longrightarrow> st2 = st' \<and> (\<exists>t. r = Some t \<and> strAt (cells m') x t)"
      "(\<forall>a::addr. always a) \<longrightarrow> st2 = st' \<and> hn2 = hn' \<and> (x = 0 \<longleftrightarrow> r = None)"
    using storeStreamAddM_result [where ok = always, OF assms(1-4) src assms(6)] by blast
  have "x \<noteq> 0 \<longrightarrow> x \<in> dom (cells m')" using x(4) by (auto simp: strAt_def)
  from free_result [OF assms(1) x(3) this] obtain m2 where m2: "c_free x m' = Ok m2" "replaces m m2 f f'" "agree f' (cells m') (cells m2)" by blast
  have "storeAt (cells m2) s st2 f'" by (rule storeAt_frame [OF x(2) m2(3)])
  moreover have "st2 = st'" using x(5) by simp
  ultimately show ?thesis using x(1) m2(1,2) by auto
qed

lemma storeImpl_refines:
  assumes "wf_memory m" and "storeAt (cells m) s st f" and "distinct f" and "wf_store st" and "storeArgs op (cells (discard f m))"
    and "storeSpec op st = Ok st'"
  shows "\<exists>m' f'. storeImpl op s m = Ok m' \<and> storeAt (cells m') s st' f' \<and> replaces m m' f f'"
proof -
  have n: "0 < tableSize st" using assms(4) by (simp add: wf_store_def)
  show ?thesis
  proof (cases op)
    case (SetOp k v)
    have k: "nul_free k" and st': "st' = fst (storeSet always st k v)" using assms(5,6) unfolding SetOp by simp_all
    show ?thesis unfolding SetOp st' by (rule setOp_refines [OF assms(1-4) k])
  next
    case (GetOp now_ms k)
    have "(\<exists>r. storeGet always now_ms st k = Ok r) \<and> st' = st" using assms(6) unfolding GetOp by (auto simp: bind_run_Ok_iff)
    then show ?thesis unfolding GetOp using getOp_refines [OF assms(1-4)] by (elim conjE exE) simp
  next
    case (ExpireOp k t)
    have "st' = fst (setExpiry st k t)" using assms(6) unfolding ExpireOp by simp
    then show ?thesis unfolding ExpireOp using setExpiryM_result [OF assms(1-3) n, of k t] by auto
  next
    case (ClearOp now_s)
    have "st' = clearExpired now_s st" using assms(6) unfolding ClearOp by simp
    then show ?thesis unfolding ClearOp using clearExpiredM_result [OF assms(1-3), of now_s] by auto
  next
    case (AppendOp now junk hn k i sf sv fvs)
    obtain hn' r where "storeStreamAdd always now junk hn st k i fvs = Ok (st', hn', r)" using assms(6) unfolding AppendOp by (auto simp: bind_run_Ok_iff)
    then show ?thesis unfolding AppendOp by (rule appendOp_refines [OF assms(1-4) assms(5) [unfolded AppendOp]])
  qed
qed

lemma storeSpec_keeps_wf: "wf_store st \<Longrightarrow> storeSpec op st = Ok st' \<Longrightarrow> wf_store st'"
  by (cases op) (auto simp: bind_run_Ok_iff storeSet_keeps_wf setExpiry_keeps_wf clearExpired_keeps_wf intro: storeStreamAdd_keeps_wf)

interpretation store_object: heap_object storeAt wf_store storeArgs storeSpec storeImpl "createStoreM always True" emptyStore freeStore
proof unfold_locales
  fix m a st f op st'
  show "wf_memory m \<Longrightarrow> storeAt (cells m) a st f \<Longrightarrow> distinct f \<Longrightarrow> wf_store st \<Longrightarrow> storeArgs op (cells (discard f m)) \<Longrightarrow>
    storeSpec op st = Ok st' \<Longrightarrow> \<exists>m' f'. storeImpl op a m = Ok m' \<and> storeAt (cells m') a st' f' \<and> replaces m m' f f'"
    by (rule storeImpl_refines)
  show "wf_store st \<Longrightarrow> storeSpec op st = Ok st' \<Longrightarrow> wf_store st'" by (rule storeSpec_keeps_wf)
  show "wf_memory m \<Longrightarrow> \<exists>a m' f. createStoreM always True m = Ok (a, m') \<and> storeAt (cells m') a emptyStore f \<and> replaces m m' [] f"
    by (rule createStoreM_at) simp_all
  show "wf_store emptyStore" by (rule emptyStore_wf)
  show "wf_memory m \<Longrightarrow> storeAt (cells m) a st f \<Longrightarrow> distinct f \<Longrightarrow> freeStore a m = Ok (discard f m)" by (rule freeStore_exact)
qed


section \<open>The queue of a transaction\<close>

text \<open>A command that is queued belongs to the caller, who passes its address.\<close>

datatype queue_op = PushOp addr RespValue | ClearQueueOp

fun queueSpec :: "queue_op \<Rightarrow> CommandQueue \<Rightarrow> CommandQueue run" where
  "queueSpec (PushOp a v) q = Ok (queueCommand q v)"
| "queueSpec ClearQueueOp q = Ok (clearCommandQueue q)"

fun queueImpl :: "queue_op \<Rightarrow> addr \<Rightarrow> Memory \<Rightarrow> Memory run" where
  "queueImpl (PushOp a v) q m = queueCommandM always q a m"
| "queueImpl ClearQueueOp q m = clearCommandQueueM q m"

fun queueArgs :: "queue_op \<Rightarrow> cells \<Rightarrow> bool" where
  "queueArgs (PushOp a v) c = (\<exists>h. valueAt c a v h \<and> distinct h)"
| "queueArgs ClearQueueOp c = True"

lemma queueImpl_refines:
  assumes "wf_memory m" and "queueAt (cells m) q Q f" and "distinct f" and "queueArgs op (cells (discard f m))" and "queueSpec op Q = Ok Q'"
  shows "\<exists>m' f'. queueImpl op q m = Ok m' \<and> queueAt (cells m') q Q' f' \<and> replaces m m' f f'"
proof (cases op)
  case (PushOp a v)
  then obtain h where h: "valueAt (cells (discard f m)) a v h" "distinct h" using assms(4) by (auto simp del: cells_discard)
  have dis: "set f \<inter> set h = {}" using valueAt_live [OF h(1)] by (auto split: if_splits)
  have "agree h (cells (discard f m)) (cells m)" using dis by (auto simp: agree_def)
  then have "valueAt (cells m) a v h" by (rule valueAt_frame [OF h(1)])
  from queueCommandM_refines [OF assms(1-3) this h(2) dis] obtain m' f' where "queueCommandM always q a m = Ok m'"
    "queueAt (cells m') q (queueCommand Q v) f'" "replaces m m' f f'" .
  then show ?thesis using PushOp assms(5) by auto
next
  case ClearQueueOp
  obtain g cs n cap where g: "f = g @ [q]" "clearCommandQueueM q m = writeCell q (QueueO 0 0 0) (discard g m)" "q \<noteq> 0"
    and c: "cells (discard g m) q = Some (QueueO cs n cap)" using clearCommandQueueM_exact [OF assms(1-3)] .
  let ?m = "(discard g m)\<lparr>cells := (cells (discard g m))(q \<mapsto> QueueO 0 0 0)\<rparr>"
  have run: "queueImpl op q m = Ok ?m" using ClearQueueOp g writeCell_Some [OF g(3) c] by simp
  have "queueAt (cells ?m) q Q' [q]" using ClearQueueOp assms(5) g(3) by (auto simp: clearCommandQueue_def intro: queueAt.intros)
  moreover have "replaces m (discard g m) f [q]" using replaces_discard_part [OF assms(1)] assms(3) g(1) by simp
  then have "replaces m ?m f [q]" by (rule replaces_trans [OF _ replaces_write [OF wf_memory_discard [OF assms(1)] _ _ c] assms(1)]) simp_all
  ultimately show ?thesis using run by blast
qed

interpretation queue_object: heap_object queueAt "\<lambda>_. True" queueArgs queueSpec queueImpl "createCommandQueueM always" createCommandQueue freeCommandQueue
proof unfold_locales
  fix m a Q f op Q'
  show "wf_memory m \<Longrightarrow> queueAt (cells m) a Q f \<Longrightarrow> distinct f \<Longrightarrow> True \<Longrightarrow> queueArgs op (cells (discard f m)) \<Longrightarrow>
    queueSpec op Q = Ok Q' \<Longrightarrow> \<exists>m' f'. queueImpl op a m = Ok m' \<and> queueAt (cells m') a Q' f' \<and> replaces m m' f f'"
    by (rule queueImpl_refines)
  show "wf_memory m \<Longrightarrow> \<exists>a m' f. createCommandQueueM always m = Ok (a, m') \<and> queueAt (cells m') a createCommandQueue f \<and> replaces m m' [] f"
    using createCommandQueueM_at [of m always] by auto
  show "wf_memory m \<Longrightarrow> queueAt (cells m) a Q f \<Longrightarrow> distinct f \<Longrightarrow> freeCommandQueue a m = Ok (discard f m)" by (rule freeCommandQueue_exact)
qed simp_all

lemma queue_lifetime:
  assumes "wf_memory m" and "\<forall>op \<in> set ops. queueArgs op (cells m)" and "runOps queueSpec ops createCommandQueue = Ok Q"
  shows "\<exists>q m1 m2 m3 f. createCommandQueueM always m = Ok (q, m1) \<and> runOps (\<lambda>op. queueImpl op q) ops m1 = Ok m2 \<and>
    queueAt (cells m2) q Q f \<and> freeCommandQueue q m2 = Ok m3 \<and> cells m3 = cells m"
  by (rule queue_object.lifetime [OF assms])

section \<open>An example\<close>

definition one_field :: Memory where
  "one_field = \<lparr>cells = [1 \<mapsto> PointersO [Some 2], 2 \<mapsto> CharsO (''f'' @ [NUL])], brk = 3\<rparr>"

definition short_life :: "store_op list" where
  "short_life = [SetOp ''k'' ''v'', GetOp 5 ''k'', ExpireOp ''k'' 7, AppendOp 1 0 False ''s'' ''1-1'' 1 1 [(''f'', ''f'')], ClearOp 9, SetOp ''k'' ''w'']"

lemma short_life_runs:
  "case runOps storeSpec short_life emptyStore of
     Ok st \<Rightarrow> used st = 2 \<and> absStore st ''k'' = Some (StringValue ''w'', 0)
   | Fault _ \<Rightarrow> False"
  by code_simp


end
