(* ===== verification/Xread_Memory.thy ===== *)
theory Xread_Memory
  imports Store_Lifetime Command
begin

text \<open>
  \<^verbatim>\<open>XREAD\<close> on the heap, with every block that it allocates: \<^verbatim>\<open>setupXreadStreams\<close>, \<^verbatim>\<open>freeXreadArgs\<close> and
  \<^verbatim>\<open>handleXread\<close> of \<^verbatim>\<open>src/app/command.c\<close>, \<^verbatim>\<open>processStreamReads\<close> and \<^verbatim>\<open>recheckStreams\<close> of
  \<^verbatim>\<open>src/app/stream.c\<close>, and \<^verbatim>\<open>storeGetStream\<close>. The keys stay in the command, the streams in the store;
  identifiers, the three arrays and the results are owned by the handler. The buffer of the reply is
  not modelled here, only what \<^verbatim>\<open>createXreadResponse\<close> reads through the pointers.
\<close>

section \<open>The arguments\<close>

definition storeGetStreamM :: "addr \<Rightarrow> string \<Rightarrow> Memory \<Rightarrow> addr run" where
  "storeGetStreamM s k m =
     bind_run (storeFindM s k m) (\<lambda>b.
       if b = 0 then Ok 0
       else withStoreEntry b m (\<lambda>key t d nx ex.
         if t = TYPE_STREAM then (case d of StreamS x \<Rightarrow> Ok x | StringS _ _ \<Rightarrow> Fault TypeConfusion) else Ok 0))"

definition withArray :: "addr \<Rightarrow> Memory \<Rightarrow> (addr \<Rightarrow> nat \<Rightarrow> 'a run) \<Rightarrow> 'a run" where
  "withArray a m body =
     bind_run (readCell a m) (\<lambda>x. case x of ValueO _ (ArrayD e len) \<Rightarrow> body e len | _ \<Rightarrow> Fault TypeConfusion)"

text \<open>\<^verbatim>\<open>elements[i]->data.string.str\<close>.\<close>

definition elementStr :: "addr \<Rightarrow> nat \<Rightarrow> Memory \<Rightarrow> addr run" where
  "elementStr e i m =
     bind_run (readSlot e i m) (\<lambda>v. bind_run (readCell v m) (\<lambda>x. case x of
       ValueO _ (StringD p len) \<Rightarrow> Ok p
     | _ \<Rightarrow> Fault TypeConfusion))"

definition elementString :: "addr \<Rightarrow> nat \<Rightarrow> Memory \<Rightarrow> string run" where
  "elementString e i m = bind_run (elementStr e i m) (\<lambda>p. loadString p m)"

text \<open>The copy of the identifier, where \<^verbatim>\<open>$\<close> stands for the last one of the stream.\<close>

definition xreadIdM :: "(addr \<Rightarrow> bool) \<Rightarrow> addr \<Rightarrow> addr \<Rightarrow> Memory \<Rightarrow> (addr \<times> Memory) run" where
  "xreadIdM ok st rawId m =
     bind_run (loadString rawId m) (\<lambda>raw.
       if take 1 raw = ''$'' then
         (if st = 0 then Ok (c_malloc ok (CharsO (''0-0'' @ [NUL])) m)
          else withStream st m (\<lambda>h t.
            if t = 0 then Ok (c_malloc ok (CharsO (''0-0'' @ [NUL])) m)
            else withEntry t m (\<lambda>i fs vs n nx. c_strdup ok i m)))
       else c_strdup ok rawId m)"

primrec setupLoop ::
  "(addr \<Rightarrow> bool) \<Rightarrow> addr \<Rightarrow> addr \<Rightarrow> nat \<Rightarrow> nat \<Rightarrow> addr \<Rightarrow> addr \<Rightarrow> addr \<Rightarrow> nat \<Rightarrow> nat \<Rightarrow> Memory \<Rightarrow> (bool \<times> Memory) run" where
  "setupLoop ok s e first n ss ks ids i 0 m = Ok (True, m)"
| "setupLoop ok s e first n ss ks ids i (Suc k) m =
     bind_run (elementStr e (first + 1 + i) m) (\<lambda>key.
     bind_run (writeSlot ks i key m) (\<lambda>m1.
     bind_run (elementStr e (first + 1 + n + i) m1) (\<lambda>rawId.
     bind_run (bind_run (loadString key m1) (\<lambda>x. storeGetStreamM s x m1)) (\<lambda>st.
     bind_run (writeSlot ss i st m1) (\<lambda>m2.
     bind_run (xreadIdM ok st rawId m2) (\<lambda>(p, m3).
     bind_run (writeSlot ids i p m3) (\<lambda>m4.
       if p = 0 then
         bind_run (freeSlots c_free ids 0 i m4) (\<lambda>m5. bind_run (frees [ss, ks, ids] m5) (\<lambda>m6. Ok (False, m6)))
       else setupLoop ok s e first n ss ks ids (Suc i) k m4)))))))"

definition setupXreadStreamsM ::
  "(addr \<Rightarrow> bool) \<Rightarrow> addr \<Rightarrow> addr \<Rightarrow> nat \<Rightarrow> nat \<Rightarrow> Memory \<Rightarrow> ((addr \<times> addr \<times> addr) option \<times> Memory) run" where
  "setupXreadStreamsM ok s e first n m =
     (case c_malloc ok (PointersO (replicate n None)) m of (ss, m1) \<Rightarrow>
      case c_malloc ok (PointersO (replicate n None)) m1 of (ks, m2) \<Rightarrow>
      case c_malloc ok (PointersO (replicate n None)) m2 of (ids, m3) \<Rightarrow>
      if ss = 0 \<or> ks = 0 \<or> ids = 0 then bind_run (frees [ss, ks, ids] m3) (\<lambda>m4. Ok (None, m4))
      else bind_run (setupLoop ok s e first n ss ks ids 0 n m3) (\<lambda>(done, m4).
        Ok (if done then Some (ss, ks, ids) else None, m4)))"

definition freeXreadArgs :: "addr \<Rightarrow> addr \<Rightarrow> addr \<Rightarrow> nat \<Rightarrow> Memory \<Rightarrow> Memory run" where
  "freeXreadArgs ss ks ids numStreams m =
     bind_run (frees [ss, ks] m) (\<lambda>m1.
       if ids = 0 then Ok m1 else bind_run (freeSlots c_free ids 0 numStreams m1) (c_free ids))"

section \<open>Reading the streams\<close>

definition readStreamM ::
  "(addr \<Rightarrow> bool) \<Rightarrow> 64 word \<Rightarrow> addr \<Rightarrow> addr \<Rightarrow> nat \<Rightarrow> Memory \<Rightarrow> (addr \<times> nat option \<times> Memory) run" where
  "readStreamM ok tm ss ids i m =
     bind_run (readSlot ss i m) (\<lambda>st.
       if st = 0 then Ok (0, Some 0, m)
       else bind_run (readSlot ids i m) (\<lambda>p. bind_run (loadString p m) (\<lambda>x. streamReadM ok tm st x m)))"

text \<open>\<^verbatim>\<open>streamInfos[i] = ...\<close>, for the first element that is not written yet.\<close>

definition pushInfo :: "addr \<Rightarrow> nat \<Rightarrow> addr \<times> addr \<times> nat option \<Rightarrow> Memory \<Rightarrow> Memory run" where
  "pushInfo p i info m =
     bind_run (readCell p m) (\<lambda>x. case x of
       InfosO xs \<Rightarrow> if i = length xs then writeCell p (InfosO (xs @ [info])) m else Fault OutOfBounds
     | _ \<Rightarrow> Fault TypeConfusion)"

primrec freeInfoKeys :: "addr \<Rightarrow> nat \<Rightarrow> nat \<Rightarrow> Memory \<Rightarrow> Memory run" where
  "freeInfoKeys p j 0 m = Ok m"
| "freeInfoKeys p j (Suc k) m =
     bind_run (readCell p m) (\<lambda>x. case x of
       InfosO xs \<Rightarrow>
         if j < length xs then bind_run (c_free (fst (xs ! j)) m) (freeInfoKeys p (Suc j) k) else Fault OutOfBounds
     | _ \<Rightarrow> Fault TypeConfusion)"

text \<open>The loops of \<^verbatim>\<open>processStreamReads\<close> and of \<^verbatim>\<open>recheckStreams\<close>.\<close>

primrec processInfos ::
  "(addr \<Rightarrow> bool) \<Rightarrow> 64 word \<Rightarrow> addr \<Rightarrow> addr \<Rightarrow> addr \<Rightarrow> addr \<Rightarrow> nat \<Rightarrow> nat \<Rightarrow> bool \<Rightarrow> Memory \<Rightarrow> (addr \<times> bool \<times> Memory) run" where
  "processInfos ok tm p ss ks ids i 0 hasData m = Ok (p, hasData, m)"
| "processInfos ok tm p ss ks ids i (Suc k) hasData m =
     bind_run (bind_run (readSlot ks i m) (\<lambda>q. c_strdup ok q m)) (\<lambda>(key, m1).
       if key = 0 then
         bind_run (freeInfoKeys p 0 i m1) (\<lambda>m2. bind_run (c_free p m2) (\<lambda>m3. Ok (0, hasData, m3)))
       else bind_run (readStreamM ok tm ss ids i m1) (\<lambda>(es, cnt, m2).
         case cnt of
           None \<Rightarrow> Fault UninitRead
         | Some c \<Rightarrow> bind_run (pushInfo p i (key, es, cnt) m2) (processInfos ok tm p ss ks ids (Suc i) k (hasData \<or> 0 < c))))"

definition processStreamReadsM ::
  "(addr \<Rightarrow> bool) \<Rightarrow> 64 word \<Rightarrow> addr \<Rightarrow> addr \<Rightarrow> addr \<Rightarrow> nat \<Rightarrow> Memory \<Rightarrow> (addr \<times> bool \<times> Memory) run" where
  "processStreamReadsM ok tm ss ks ids numStreams m =
     (if ss = 0 \<or> ks = 0 \<or> ids = 0 \<or> numStreams = 0 then Ok (0, False, m)
      else case c_malloc ok (InfosO []) m of (p, m1) \<Rightarrow>
        if p = 0 then Ok (0, False, m1) else processInfos ok tm p ss ks ids 0 numStreams False m1)"

primrec recheckInfos ::
  "(addr \<Rightarrow> bool) \<Rightarrow> 64 word \<Rightarrow> addr \<Rightarrow> addr \<Rightarrow> addr \<Rightarrow> addr \<Rightarrow> nat \<Rightarrow> nat \<Rightarrow> Memory \<Rightarrow> Memory run" where
  "recheckInfos ok tm p ss ks ids i 0 m = Ok m"
| "recheckInfos ok tm p ss ks ids i (Suc k) m =
     bind_run (bind_run (readSlot ks i m) (\<lambda>q. c_strdup ok q m)) (\<lambda>(key, m1).
     bind_run (readStreamM ok tm ss ids i m1) (\<lambda>(es, cnt, m2).
     bind_run (pushInfo p i (key, es, cnt) m2) (recheckInfos ok tm p ss ks ids (Suc i) k)))"

definition recheckStreamsM ::
  "(addr \<Rightarrow> bool) \<Rightarrow> 64 word \<Rightarrow> addr \<Rightarrow> addr \<Rightarrow> addr \<Rightarrow> nat \<Rightarrow> Memory \<Rightarrow> (addr \<times> Memory) run" where
  "recheckStreamsM ok tm ss ks ids numStreams m =
     (case c_malloc ok (InfosO []) m of (p, m1) \<Rightarrow>
      bind_run (recheckInfos ok tm p ss ks ids 0 numStreams m1) (\<lambda>m2. Ok (p, m2)))"

section \<open>The handler\<close>

text \<open>What \<^verbatim>\<open>createXreadResponse\<close> reads: the keys and the first entry of each stream, if there is one.\<close>

primrec loadStrings :: "addr \<Rightarrow> nat \<Rightarrow> nat \<Rightarrow> Memory \<Rightarrow> string list run" where
  "loadStrings e i 0 m = Ok []"
| "loadStrings e i (Suc k) m =
     bind_run (readSlot e i m) (\<lambda>p. bind_run (loadString p m) (\<lambda>x. bind_run (loadStrings e (Suc i) k m) (\<lambda>xs. Ok (x # xs))))"

definition loadFirst :: "addr \<Rightarrow> Memory \<Rightarrow> StreamEntry list run" where
  "loadFirst a m =
     (if a = 0 then Ok []
      else withEntry a m (\<lambda>i fs vs n nx.
        bind_run (loadString i m) (\<lambda>x.
        bind_run (loadStrings fs 0 n m) (\<lambda>fields.
        bind_run (loadStrings vs 0 n m) (\<lambda>values. Ok [\<lparr>entryId = x, fieldValues = zip fields values\<rparr>])))))"

primrec loadInfos :: "addr \<Rightarrow> nat \<Rightarrow> nat \<Rightarrow> Memory \<Rightarrow> StreamInfo list run" where
  "loadInfos p i 0 m = Ok []"
| "loadInfos p i (Suc k) m =
     bind_run (readCell p m) (\<lambda>x. case x of
       InfosO xs \<Rightarrow>
         if i < length xs then
           (case xs ! i of (key, es, cnt) \<Rightarrow>
              bind_run (loadString key m) (\<lambda>s.
              bind_run (loadFirst es m) (\<lambda>l.
              bind_run (loadInfos p (Suc i) k m) (\<lambda>infos. Ok (\<lparr>infoKey = s, infoEntries = l, infoCount = cnt\<rparr> # infos)))))
         else Fault OutOfBounds
     | _ \<Rightarrow> Fault TypeConfusion)"

definition xreadReplyM :: "addr \<Rightarrow> addr \<Rightarrow> addr \<Rightarrow> addr \<Rightarrow> nat \<Rightarrow> Memory \<Rightarrow> (string \<times> Memory) run" where
  "xreadReplyM p ss ks ids n m =
     bind_run (loadInfos p 0 n m) (\<lambda>infos.
     bind_run (freeStreamInfo p n m) (\<lambda>m1.
     bind_run (freeXreadArgs ss ks ids n m1) (\<lambda>m2. Ok (createXreadResponse infos, m2))))"

text \<open>
  \<^verbatim>\<open>handleXread\<close>, where no other thread changes the store during the wait (a time-out, or a wake-up
  for another stream): from the ptrs on, and as a whole. \<open>clock\<close> is the time of day and \<open>status\<close> how
  the wait ends.
\<close>

definition handleXreadFrom ::
  "(addr \<Rightarrow> bool) \<Rightarrow> int \<times> int \<Rightarrow> wait_status \<Rightarrow> addr \<Rightarrow> addr \<Rightarrow> nat \<Rightarrow> nat \<Rightarrow> XreadArgs \<Rightarrow> Memory \<Rightarrow> (string \<times> Memory) run" where
  "handleXreadFrom ok clock status s e first n args m =
     (let tm = streamTimeMs clock in
      bind_run (setupXreadStreamsM ok s e first n m) (\<lambda>(ptrs, m1).
        case ptrs of
          None \<Rightarrow> Ok (createError ''ERR out of memory'', m1)
        | Some (ss, ks, ids) \<Rightarrow>
            bind_run (processStreamReadsM ok tm ss ks ids n m1) (\<lambda>(p, hasData, m2).
              if blocking args \<and> \<not> hasData then
                bind_run (freeStreamInfo p n m2) (\<lambda>m3.
                  if snd (if blockMs args = 0 then waitForStreamDataInfinite else waitForStreamData clock (blockMs args) status)
                  then bind_run (recheckStreamsM ok tm ss ks ids n m3) (\<lambda>(p', m4). xreadReplyM p' ss ks ids n m4)
                  else bind_run (freeXreadArgs ss ks ids n m3) (\<lambda>m4. Ok (createNullBulkString, m4)))
              else xreadReplyM p ss ks ids n m2)))"

definition handleXreadM ::
  "(addr \<Rightarrow> bool) \<Rightarrow> int \<times> int \<Rightarrow> wait_status \<Rightarrow> addr \<Rightarrow> addr \<Rightarrow> Memory \<Rightarrow> (string \<times> Memory) run" where
  "handleXreadM ok clock status s command m =
     withArray command m (\<lambda>e len.
     bind_run (map_run_list (\<lambda>i. elementString e i m) [1..<len]) (\<lambda>strs.
       let args = parseXreadLoop 1 strs \<lparr>streamsPos = None, blockMs = 0, blocking = False\<rparr> in
       case streamsPos args of
         None \<Rightarrow> Ok (createError ''ERR syntax error'', m)
       | Some first \<Rightarrow> handleXreadFrom ok clock status s e first ((len - first - 1) div 2) args m))"

section \<open>Structures that stay where they are\<close>

text \<open>
  The handler only adds blocks to the heap it starts from, so whatever was there is still there:
  heaps are compared as maps.
\<close>

lemma agree_map_le: "c \<subseteq>\<^sub>m c' \<Longrightarrow> set f \<subseteq> dom c \<Longrightarrow> agree f c c'"
  unfolding agree_def map_le_def by (metis subset_iff)

lemma grown_map_le:
  assumes "wf_memory m" and "grows m m' (set g)" and "fresh m m' g"
  shows "cells m \<subseteq>\<^sub>m cells m'"
  unfolding map_le_def
proof
  fix x assume "x \<in> dom (cells m)"
  then have "x < brk m" using live_below [OF assms(1)] by blast
  then have "x \<notin> set g" using assms(3) by (auto simp: fresh_def)
  then show "cells m x = cells m' x" using assms(2) by (simp add: grows_def)
qed

text \<open>A C string, up to its first NUL.\<close>

definition cstrAt :: "cells \<Rightarrow> addr \<Rightarrow> string \<Rightarrow> bool" where
  "cstrAt c p x = (p \<noteq> 0 \<and> (\<exists>s. c p = Some (CharsO s) \<and> NUL \<in> set s \<and> x = cstr s))"

lemma cstrAt_le: "cstrAt c p x \<Longrightarrow> c \<subseteq>\<^sub>m c' \<Longrightarrow> cstrAt c' p x"
  unfolding cstrAt_def map_le_def by (metis domI)

lemma strAt_le: "strAt c p x \<Longrightarrow> c \<subseteq>\<^sub>m c' \<Longrightarrow> strAt c' p x"
  unfolding strAt_def map_le_def by (metis domI)

lemma streamAt_le: "streamAt c a S f \<Longrightarrow> c \<subseteq>\<^sub>m c' \<Longrightarrow> streamAt c' a S f"
  using streamAt_frame agree_map_le streamAt_live by blast

lemma loadString_cstrAt: "cstrAt (cells m) p x \<Longrightarrow> loadString p m = Ok x \<and> nul_free x"
  by (auto simp: cstrAt_def loadString_def mem_simps)

lemma strdup_cstrAt:
  "cstrAt (cells m) p x \<Longrightarrow> c_strdup always p m = Ok (brk m, m\<lparr>cells := (cells m)(brk m \<mapsto> CharsO (x @ [NUL])), brk := Suc (brk m)\<rparr>)"
  by (auto simp: c_strdup_def malloc_always dest: loadString_cstrAt)

lemma strAt_cstrAt: "strAt c p x \<Longrightarrow> cstrAt c p x"
  by (auto simp: strAt_def cstrAt_def cstr_append_nul_free) (simp add: cstr_def)

lemma slotsAt_nth:
  assumes "slotsAt rep c ps vs g" and "i < length ps"
  shows "\<exists>f. rep c (ps ! i) (vs ! i) f"
  using assms
proof (induction arbitrary: i rule: slotsAt.induct)
  case (slots_Cons p v f ps vs g)
  then show ?case by (cases i) auto
qed simp

text \<open>An argument of the command.\<close>

lemma stringValue_not_array [simp]: "RespArray es \<noteq> stringValue t s"
  by (cases t) simp_all

lemma stringData_stringValue [simp]: "holdsString t \<Longrightarrow> stringData (stringValue t s) = Ok s"
  by (cases t) simp_all

lemma elementStr_result:
  assumes "e \<noteq> 0" and "c \<subseteq>\<^sub>m cells m" and "c e = Some (PointersO (map Some ps))" and "slotsAt valueAt c ps es g" and "argStr es i = Ok x"
  shows "\<exists>p. elementStr e i m = Ok p \<and> cstrAt c p x"
proof -
  from assms(5) obtain y where i: "i < length es" and y: "stringData (es ! i) = Ok y" "x = cstr y"
    by (auto simp: argStr_def argBytes_def bind_run_Ok_iff split: if_splits)
  then have ip: "i < length ps" using slotsAt_length [OF assms(4)] by simp
  obtain f where "valueAt c (ps ! i) (es ! i) f" using slotsAt_nth [OF assms(4) ip] by blast
  then obtain t p where v: "ps ! i \<noteq> 0" "p \<noteq> 0" "c (ps ! i) = Some (ValueO t (StringD p (length y)))" "c p = Some (CharsO (y @ [NUL]))"
    using y(1) by (auto elim!: valueAt.cases)
  have "cells m e = Some (PointersO (map Some ps))" "cells m (ps ! i) = Some (ValueO t (StringD p (length y)))"
    using assms(2,3) v(3) unfolding map_le_def by (metis domI)+
  then have "elementStr e i m = Ok p" using assms(1) v(1) ip by (simp add: elementStr_def readSlot_def readCell_Some)
  moreover have "cstrAt c p x" using v(2,4) y(2) by (auto simp: cstrAt_def cstr_def takeWhile_tail)
  ultimately show ?thesis by blast
qed

lemma storeGetStreamM_result:
  assumes "wf_memory m" and "storeAt (cells m) s st f" and "distinct f" and "0 < tableSize st"
  shows "\<exists>x. storeGetStreamM s k m = Ok x \<and>
    (case storeGetStream st k of None \<Rightarrow> x = 0 | Some S \<Rightarrow> x \<noteq> 0 \<and> (\<exists>g. streamAt (cells m) x S g \<and> distinct g \<and> set g \<subseteq> set f))"
proof (cases "findEntry st k")
  case None
  then have "storeFindM s k m = Ok 0" using storeFindM_result [OF assms, of k] by simp
  with None show ?thesis by (simp add: storeGetStreamM_def storeGetStream_def)
next
  case (Some e)
  then obtain b nx fe fr where b: "storeFindM s k m = Ok b" and focus: "storeFocus (cells m) s st f k b nx e fe fr"
    using storeFindM_result [OF assms, of k] by auto
  from focus_parts(1) [OF focus assms(3)] show ?thesis
  proof cases
    case (store_entry key t d g)
    have run: "storeGetStreamM s k m = (if t = TYPE_STREAM then (case d of StreamS x \<Rightarrow> Ok x | StringS _ _ \<Rightarrow> Fault TypeConfusion) else Ok 0)"
      using b store_entry(2,3) by (simp add: storeGetStreamM_def withStoreEntry_Some)
    have "distinct g" "set g \<subseteq> set f"
      using focus_parts(2) [OF focus assms(3)] mset_eq_setD [OF focus_parts(3) [OF focus assms(3)]] store_entry(1) by auto
    from store_entry(5) show ?thesis
    proof cases
      case (data_stream x S)
      then show ?thesis using run Some \<open>distinct g\<close> \<open>set g \<subseteq> set f\<close> by (auto simp: storeGetStream_def elim: streamAt.cases)
    qed (use run Some in \<open>simp_all add: storeGetStream_def\<close>)
  qed
qed

text \<open>A stream of the store, or a NULL pointer.\<close>

definition streamPtr :: "cells \<Rightarrow> addr \<Rightarrow> Stream option \<Rightarrow> bool" where
  "streamPtr c a S = (case S of None \<Rightarrow> a = 0 | Some S \<Rightarrow> a \<noteq> 0 \<and> (\<exists>g. streamAt c a S g \<and> distinct g))"

lemma streamPtr_le: "streamPtr c a S \<Longrightarrow> c \<subseteq>\<^sub>m c' \<Longrightarrow> streamPtr c' a S"
  by (auto simp: streamPtr_def split: option.splits dest: streamAt_le)

lemma xreadIdM_result:
  assumes "streamPtr (cells m) a S" and "cstrAt (cells m) rawId raw"
  shows "xreadIdM always a rawId m = Ok (c_malloc always (CharsO (xreadId S raw @ [NUL])) m) \<and> nul_free (xreadId S raw)"
proof (cases "take 1 raw = ''$''")
  case False
  then show ?thesis using loadString_cstrAt [OF assms(2)] strdup_cstrAt [OF assms(2)]
    by (simp add: xreadIdM_def xreadId_def malloc_always)
next
  case True
  have raw: "loadString rawId m = Ok raw" using loadString_cstrAt [OF assms(2)] by simp
  have zero: "nul_free ''0-0''" by code_simp
  show ?thesis
  proof (cases S)
    case None
    then show ?thesis using True raw zero assms(1) by (simp add: xreadIdM_def xreadId_def streamPtr_def)
  next
    case (Some T)
    then obtain g where "streamAt (cells m) a T g" using assms(1) by (auto simp: streamPtr_def)
    then show ?thesis
    proof cases
      case stream_empty
      then show ?thesis using Some True raw zero
        by (simp add: xreadIdM_def xreadId_def stream_tail_def withStream_def readCell_Some)
    next
      case (stream_entries h t es f e g')
      from stream_entries(7) obtain i fp vp n where e: "t \<noteq> 0" "cells m t = Some (EntryO i fp vp n 0)" "strAt (cells m) i (entryId e)"
        by cases auto
      then show ?thesis using stream_entries Some True raw strdup_cstrAt [OF strAt_cstrAt [OF e(3)]]
        by (simp add: xreadIdM_def xreadId_def stream_tail_def withStream_def withEntry_def readCell_Some malloc_always strAt_def)
    qed
  qed
qed

section \<open>Setting up\<close>

text \<open>
  The three arrays after \<open>length qs\<close> turns of the loop, where \<open>qs\<close> are the pointers to the stream, the
  key and the identifier; and what these pointers mean: streams and keys in the heap \<open>c\<close> before the
  command, identifiers in new blocks.
\<close>

definition arraysAt :: "cells \<Rightarrow> addr \<Rightarrow> addr \<Rightarrow> addr \<Rightarrow> nat \<Rightarrow> (addr \<times> addr \<times> addr) list \<Rightarrow> bool" where
  "arraysAt c ss ks ids n qs \<longleftrightarrow>
     ss \<noteq> 0 \<and> ks \<noteq> 0 \<and> ids \<noteq> 0 \<and> length qs \<le> n \<and>
     c ss = Some (PointersO (map Some (map fst qs) @ replicate (n - length qs) None)) \<and>
     c ks = Some (PointersO (map Some (map (fst \<circ> snd) qs) @ replicate (n - length qs) None)) \<and>
     c ids = Some (PointersO (map Some (map (snd \<circ> snd) qs) @ replicate (n - length qs) None))"

definition sourceAt :: "cells \<Rightarrow> cells \<Rightarrow> addr \<times> addr \<times> addr \<Rightarrow> Stream option \<times> string \<times> string \<Rightarrow> bool" where
  "sourceAt c c' q r = (streamPtr c (fst q) (fst r) \<and> cstrAt c (fst (snd q)) (fst (snd r)) \<and> strAt c' (snd (snd q)) (snd (snd r)))"

text \<open>One turn of the loop.\<close>

definition setupOne :: "RedisStore \<Rightarrow> RespValue list \<Rightarrow> nat \<Rightarrow> nat \<Rightarrow> nat \<Rightarrow> (Stream option \<times> string \<times> string) run" where
  "setupOne st es first n i =
     bind_run (argStr es (first + 1 + i)) (\<lambda>key.
     bind_run (argStr es (first + 1 + n + i)) (\<lambda>rawId.
       let S = storeGetStream st key in Ok (S, key, xreadId S rawId)))"

lemma replicate_room: "j < n \<Longrightarrow> replicate (n - j) x = x # replicate (n - Suc j) x"
  by (simp add: Suc_diff_Suc flip: replicate_Suc)

lemma writeSlot_room:
  assumes "a \<noteq> 0" and "cells m a = Some (PointersO (map Some xs @ replicate (n - length xs) None))" and "length xs < n"
  shows "writeSlot a (length xs) x m = Ok (m\<lparr>cells := (cells m)(a \<mapsto> PointersO (map Some (xs @ [x]) @ replicate (n - Suc (length xs)) None))\<rparr>)"
  using writeSlot_next [OF assms(1), of m xs None "replicate (n - Suc (length xs)) None"] assms(2,3) by (simp add: replicate_room)

text \<open>The lookup after the heap has grown.\<close>

lemma map_le_write: "c \<subseteq>\<^sub>m c' \<Longrightarrow> x \<notin> dom c \<Longrightarrow> c \<subseteq>\<^sub>m c'(x \<mapsto> y)"
  by (auto simp: map_le_def)

lemma storeGetStreamM_later:
  assumes "wf_memory m" and "storeAt c s st f" and "distinct f" and "0 < tableSize st" and "c \<subseteq>\<^sub>m cells m"
  shows "\<exists>x. storeGetStreamM s k m = Ok x \<and> streamPtr c x (storeGetStream st k)"
proof -
  have live: "set f \<subseteq> dom c" by (rule storeAt_live [OF assms(2)])
  have "storeAt (cells m) s st f" by (rule storeAt_frame [OF assms(2) agree_map_le [OF assms(5) live]])
  from storeGetStreamM_result [OF assms(1) this assms(3,4), of k] obtain x where x: "storeGetStreamM s k m = Ok x"
    "case storeGetStream st k of None \<Rightarrow> x = 0 | Some S \<Rightarrow> x \<noteq> 0 \<and> (\<exists>g. streamAt (cells m) x S g \<and> distinct g \<and> set g \<subseteq> set f)" by blast
  have "streamAt c x S g" if "streamAt (cells m) x S g" "set g \<subseteq> set f" for S g
    using that live by (intro streamAt_frame [OF that(1)] agree_sym [OF agree_map_le [OF assms(5)]]) blast
  then show ?thesis using x by (auto simp: streamPtr_def split: option.splits)
qed

text \<open>The state of the loop: the blocks allocated so far are the identifiers and the arrays.\<close>

definition setUp ::
  "Memory \<Rightarrow> Memory \<Rightarrow> addr \<Rightarrow> addr \<Rightarrow> addr \<Rightarrow> nat \<Rightarrow> (addr \<times> addr \<times> addr) list \<Rightarrow> (Stream option \<times> string \<times> string) list \<Rightarrow> bool" where
  "setUp m0 m ss ks ids n qs rs \<longleftrightarrow>
     grows m0 m (set (map (snd \<circ> snd) qs @ [ss, ks, ids])) \<and> fresh m0 m (map (snd \<circ> snd) qs @ [ss, ks, ids]) \<and>
     arraysAt (cells m) ss ks ids n qs \<and> list_all2 (sourceAt (cells m0) (cells m)) qs rs"

lemma setUp_push:
  assumes "wf_memory m0" and "setUp m0 m ss ks ids n qs rs" and "length qs < n"
    and "streamPtr (cells m0) a S" and "cstrAt (cells m0) key x" and "nul_free y" and "brk m4 = Suc (brk m)"
    and c4: "cells m4 = (cells m)(ks \<mapsto> PointersO (map Some (map (fst \<circ> snd) qs @ [key]) @ replicate (n - Suc (length qs)) None),
        ss \<mapsto> PointersO (map Some (map fst qs @ [a]) @ replicate (n - Suc (length qs)) None), brk m \<mapsto> CharsO (y @ [NUL]),
        ids \<mapsto> PointersO (map Some (map (snd \<circ> snd) qs @ [brk m]) @ replicate (n - Suc (length qs)) None))"
  shows "setUp m0 m4 ss ks ids n (qs @ [(a, key, brk m)]) (rs @ [(S, x, y)])"
proof -
  have inv: "grows m0 m (set (map (snd \<circ> snd) qs @ [ss, ks, ids]))" "fresh m0 m (map (snd \<circ> snd) qs @ [ss, ks, ids])"
    and arr: "arraysAt (cells m) ss ks ids n qs" and src: "list_all2 (sourceAt (cells m0) (cells m)) qs rs"
    using assms(2) by (auto simp: setUp_def)
  have wf: "wf_memory m" and b: "brk m0 \<le> brk m" using inv(1) by (auto simp: grows_def)
  have d: "ss \<noteq> ks" "ss \<noteq> ids" "ks \<noteq> ids" "ss < brk m" "ks < brk m" "ids < brk m" "ss \<noteq> 0" "ks \<noteq> 0" "ids \<noteq> 0" "0 < brk m"
    using inv(2) arr wf by (auto simp: fresh_def arraysAt_def wf_memory_def)
  let ?q = "(a, key, brk m)"
  have "arraysAt (cells m4) ss ks ids n (qs @ [?q])" using d assms(3) by (simp add: arraysAt_def c4)
  moreover have "list_all2 (sourceAt (cells m0) (cells m4)) (qs @ [?q]) (rs @ [(S, x, y)])"
  proof (intro list_all2_appendI)
    have "cells m4 z = cells m z" if "z \<in> set (map (snd \<circ> snd) qs)" for z using that inv(2) d by (auto simp: fresh_def c4)
    then have "cells m4 (snd (snd q)) = cells m (snd (snd q))" if "q \<in> set qs" for q using that by simp
    then show "list_all2 (sourceAt (cells m0) (cells m4)) qs rs" using src
      by (auto simp: list_all2_conv_all_nth sourceAt_def strAt_def)
    show "list_all2 (sourceAt (cells m0) (cells m4)) [?q] [(S, x, y)]" using assms(4-6) d by (simp add: sourceAt_def strAt_def c4)
  qed
  moreover have "fresh m0 m4 (map (snd \<circ> snd) (qs @ [?q]) @ [ss, ks, ids])" using inv(2) b d assms(7) by (auto simp: fresh_def)
  moreover have "wf_memory m4" using wf d assms(7) by (auto simp: c4 wf_memory_iff less_Suc_eq split: if_splits)
  then have "grows m0 m4 (set (map (snd \<circ> snd) (qs @ [?q]) @ [ss, ks, ids]))" using inv(1) b assms(7) by (auto simp: grows_def c4)
  ultimately show ?thesis unfolding setUp_def by blast
qed

lemma setupLoop_step:
  assumes "wf_memory m0" and "storeAt (cells m0) s st f" and "distinct f" and "0 < tableSize st"
    and "e \<noteq> 0" and "cells m0 e = Some (PointersO (map Some ps))" and "slotsAt valueAt (cells m0) ps es g"
    and "setUp m0 m ss ks ids n qs rs" and "length qs < n" and "setupOne st es first n (length qs) = Ok r"
  shows "\<exists>q m'. setupLoop always s e first n ss ks ids (length qs) (Suc k) m = setupLoop always s e first n ss ks ids (Suc (length qs)) k m' \<and>
    setUp m0 m' ss ks ids n (qs @ [q]) (rs @ [r])"
proof -
  from assms(10) obtain x raw where x: "argStr es (first + 1 + length qs) = Ok x" and raw: "argStr es (first + 1 + n + length qs) = Ok raw"
    and r: "r = (storeGetStream st x, x, xreadId (storeGetStream st x) raw)" by (auto simp: setupOne_def Let_def bind_run_Ok_iff)
  have inv: "grows m0 m (set (map (snd \<circ> snd) qs @ [ss, ks, ids]))" "fresh m0 m (map (snd \<circ> snd) qs @ [ss, ks, ids])"
    and arr: "arraysAt (cells m) ss ks ids n qs"
    using assms(8) by (auto simp: setUp_def)
  have wf: "wf_memory m" by (rule grows_wf [OF inv(1)])
  have le: "cells m0 \<subseteq>\<^sub>m cells m" by (rule grown_map_le [OF assms(1) inv])
  have new: "ss \<notin> dom (cells m0)" "ks \<notin> dom (cells m0)" "ids \<notin> dom (cells m0)" "brk m0 \<le> brk m"
    using inv wf_memory_fresh [OF assms(1)] by (auto simp: fresh_def grows_def)
  have d: "ss \<noteq> ks" "ss \<noteq> ids" "ks \<noteq> ids" "ss < brk m" "ks < brk m" "ids < brk m" "ss \<noteq> 0" "ks \<noteq> 0" "ids \<noteq> 0" "0 < brk m"
    using inv(2) arr wf by (auto simp: fresh_def arraysAt_def wf_memory_def)
  let ?j = "length qs" and ?r = "replicate (n - Suc (length qs)) None"
  obtain key where key: "elementStr e (first + 1 + ?j) m = Ok key" "cstrAt (cells m0) key x"
    using elementStr_result [OF assms(5) le assms(6,7) x] by blast
  define m1 where "m1 = m\<lparr>cells := (cells m)(ks \<mapsto> PointersO (map Some (map (fst \<circ> snd) qs @ [key]) @ ?r))\<rparr>"
  have w1: "writeSlot ks ?j key m = Ok m1"
    using writeSlot_room [of ks m "map (fst \<circ> snd) qs" n key] arr assms(9) by (simp add: arraysAt_def m1_def)
  have le1: "cells m0 \<subseteq>\<^sub>m cells m1" using map_le_write [OF le new(2)] by (simp add: m1_def)
  have wf1: "wf_memory m1" using wf d(5,8) by (auto simp: m1_def wf_memory_iff)
  obtain rawId where rid: "elementStr e (first + 1 + n + ?j) m1 = Ok rawId" "cstrAt (cells m0) rawId raw"
    using elementStr_result [OF assms(5) le1 assms(6,7) raw] by blast
  obtain a where a: "storeGetStreamM s x m1 = Ok a" "streamPtr (cells m0) a (storeGetStream st x)"
    using storeGetStreamM_later [OF wf1 assms(2-4) le1] by blast
  have lx: "loadString key m1 = Ok x" using loadString_cstrAt [OF cstrAt_le [OF key(2) le1]] by simp
  define m2 where "m2 = m1\<lparr>cells := (cells m1)(ss \<mapsto> PointersO (map Some (map fst qs @ [a]) @ ?r))\<rparr>"
  have w2: "writeSlot ss ?j a m1 = Ok m2"
    using writeSlot_room [of ss m1 "map fst qs" n a] arr assms(9) d(1) by (simp add: arraysAt_def m2_def m1_def)
  have le2: "cells m0 \<subseteq>\<^sub>m cells m2" using map_le_write [OF le1 new(1)] by (simp add: m2_def)
  let ?p = "brk m" and ?x = "xreadId (storeGetStream st x) raw"
  define m3 where "m3 = m2\<lparr>cells := (cells m2)(?p \<mapsto> CharsO (?x @ [NUL])), brk := Suc ?p\<rparr>"
  have id: "xreadIdM always a rawId m2 = Ok (?p, m3)" "nul_free ?x"
    using xreadIdM_result [OF streamPtr_le [OF a(2) le2] cstrAt_le [OF rid(2) le2]] by (simp_all add: malloc_always m3_def m2_def m1_def)
  define m4 where "m4 = m3\<lparr>cells := (cells m3)(ids \<mapsto> PointersO (map Some (map (snd \<circ> snd) qs @ [?p]) @ ?r))\<rparr>"
  have w4: "writeSlot ids ?j ?p m3 = Ok m4"
    using writeSlot_room [of ids m3 "map (snd \<circ> snd) qs" n ?p] arr assms(9) d by (simp add: arraysAt_def m4_def m3_def m2_def m1_def)
  have run: "setupLoop always s e first n ss ks ids ?j (Suc k) m = setupLoop always s e first n ss ks ids (Suc ?j) k m4"
    using key(1) w1 rid(1) lx a(1) w2 id(1) w4 d(10) by simp
  have "setUp m0 m4 ss ks ids n (qs @ [(a, key, ?p)]) (rs @ [r])" unfolding r
    by (rule setUp_push [OF assms(1,8,9) a(2) key(2) id(2)]) (simp_all add: m4_def m3_def m2_def m1_def)
  then show ?thesis using run by blast
qed

lemma setupLoop_result:
  assumes "wf_memory m0" and "storeAt (cells m0) s st f" and "distinct f" and "0 < tableSize st"
    and "e \<noteq> 0" and "cells m0 e = Some (PointersO (map Some ps))" and "slotsAt valueAt (cells m0) ps es g"
    and "setUp m0 m ss ks ids n qs rs" and "length qs + k = n" and "map_run_list (setupOne st es first n) [length qs..<n] = Ok rs'"
  shows "\<exists>m' qs'. setupLoop always s e first n ss ks ids (length qs) k m = Ok (True, m') \<and> setUp m0 m' ss ks ids n qs' (rs @ rs') \<and> length qs' = n"
  using assms(8-10)
proof (induction k arbitrary: m qs rs rs')
  case 0
  then show ?case by (intro exI [of _ m] exI [of _ qs]) auto
next
  case (Suc k)
  have j: "length qs < n" using Suc.prems(2) by simp
  from Suc.prems(3) obtain r rs2 where r: "setupOne st es first n (length qs) = Ok r" "map_run_list (setupOne st es first n) [Suc (length qs)..<n] = Ok rs2" "rs' = r # rs2"
    by (auto simp: upt_conv_Cons [OF j] bind_run_Ok_iff)
  obtain q m1 where s: "setupLoop always s e first n ss ks ids (length qs) (Suc k) m = setupLoop always s e first n ss ks ids (Suc (length qs)) k m1"
    "setUp m0 m1 ss ks ids n (qs @ [q]) (rs @ [r])" using setupLoop_step [OF assms(1-7) Suc.prems(1) j r(1)] by blast
  have "length (qs @ [q]) + k = n" "map_run_list (setupOne st es first n) [length (qs @ [q])..<n] = Ok rs2" using Suc.prems(2) r(2) by simp_all
  from Suc.IH [OF s(2) this] show ?case unfolding s(1) r(3) by simp
qed

lemma setupXreadStreamsM_result:
  assumes "wf_memory m" and "storeAt (cells m) s st f" and "distinct f" and "0 < tableSize st"
    and "e \<noteq> 0" and "cells m e = Some (PointersO (map Some ps))" and "slotsAt valueAt (cells m) ps es g"
    and "map_run_list (setupOne st es first n) [0..<n] = Ok rs"
  shows "\<exists>ss ks ids m' qs. setupXreadStreamsM always s e first n m = Ok (Some (ss, ks, ids), m') \<and> setUp m m' ss ks ids n qs rs \<and> length qs = n"
proof -
  let ?b = "brk m" and ?x = "PointersO (replicate n None)"
  let ?m = "m\<lparr>cells := (cells m)(?b \<mapsto> ?x, Suc ?b \<mapsto> ?x, Suc (Suc ?b) \<mapsto> ?x), brk := Suc (Suc (Suc ?b))\<rparr>"
  have b: "0 < ?b" using assms(1) by (simp add: wf_memory_def)
  have wf: "wf_memory ?m" using assms(1) by (auto simp: wf_memory_iff less_Suc_eq split: if_splits)
  then have "setUp m ?m ?b (Suc ?b) (Suc (Suc ?b)) n [] []" using b by (auto simp: setUp_def arraysAt_def grows_def fresh_def)
  from setupLoop_result [OF assms(1-7) this, of n first rs] assms(8)
  obtain m' qs where "setupLoop always s e first n ?b (Suc ?b) (Suc (Suc ?b)) 0 n ?m = Ok (True, m')" "setUp m m' ?b (Suc ?b) (Suc (Suc ?b)) n qs rs" "length qs = n"
    by auto
  then show ?thesis using b
    by (intro exI [of _ ?b] exI [of _ "Suc ?b"] exI [of _ "Suc (Suc ?b)"] exI [of _ m'] exI [of _ qs]) (simp add: setupXreadStreamsM_def malloc_always)
qed

text \<open>Strings as structures of a single block.\<close>

interpretation string_mem: destructor "\<lambda>c p x f. strAt c p x \<and> f = [p]" "\<lambda>n. c_free"
  by unfold_locales (auto simp: strAt_def releasable_def agree_def c_free_Some)

lemma strings_slots: "list_all2 (strAt c) ps xs \<Longrightarrow> slotsAt (\<lambda>c p x f. strAt c p x \<and> f = [p]) c ps xs ps"
proof (induction rule: list_all2_induct)
  case (Cons p ps x xs)
  from slotsAt.slots_Cons [where rep = "\<lambda>c p x f. strAt c p x \<and> f = [p]", OF _ Cons(3), of p x "[p]"] Cons(1) show ?case by simp
qed (simp add: slotsAt.intros)

lemma sources_strings: "list_all2 (sourceAt c c') qs rs \<Longrightarrow> list_all2 (strAt c') (map (snd \<circ> snd) qs) (map (snd \<circ> snd) rs)"
  by (auto simp: list_all2_conv_all_nth sourceAt_def)

lemma freeXreadArgs_result:
  assumes "wf_memory m0" and "setUp m0 m1 ss ks ids n qs rs" and "length qs = n" and "wf_memory m" and "cells m = cells m1"
  shows "\<exists>m'. freeXreadArgs ss ks ids n m = Ok m' \<and> cells m' = cells m0"
proof -
  let ?ps = "map (snd \<circ> snd) qs"
  have inv: "grows m0 m1 (set (?ps @ [ss, ks, ids]))" "fresh m0 m1 (?ps @ [ss, ks, ids])" and arr: "arraysAt (cells m) ss ks ids n qs"
    and src: "list_all2 (strAt (cells m)) ?ps (map (snd \<circ> snd) rs)" using assms(2,5) sources_strings by (auto simp: setUp_def)
  have d: "distinct (?ps @ [ss, ks, ids])" using inv(2) by (simp add: fresh_def)
  have nz: "ss \<noteq> 0" "ks \<noteq> 0" "ids \<noteq> 0" using arr by (auto simp: arraysAt_def)
  let ?m1 = "discard [ss, ks] m" and ?m2 = "discard ([ss, ks] @ ?ps) m"
  have f1: "frees [ss, ks] m = Ok ?m1" using frees_exact [of "[ss, ks]" m] arr d by (simp add: arraysAt_def nz_def del: frees.simps)
  have "agree ?ps (cells m) (cells ?m1)" using d by (intro agree_discard) auto
  from string_mem.slots_frame [OF strings_slots [OF src] this]
  have sl: "slotsAt (\<lambda>c p x f. strAt c p x \<and> f = [p]) (cells ?m1) ?ps (map (snd \<circ> snd) rs) ?ps" .
  have "length ?ps \<le> brk ?m1" using string_mem.slots_live [OF sl] d assms(4) by (intro footprint_bound) (auto simp del: cells_discard)
  moreover have "cells ?m1 ids = Some (PointersO (map Some ?ps @ []))" using arr d assms(3) by (simp add: arraysAt_def)
  ultimately have f2: "freeSlots c_free ids 0 n ?m1 = Ok ?m2"
    using string_mem.slots_exact [OF sl, where e = ids and r = "[]"] nz d assms(3) by (simp del: cells_discard)
  have "cells ?m2 ids \<noteq> None" using arr d by (simp add: arraysAt_def)
  then have f3: "c_free ids ?m2 = Ok (discard [ids] ?m2)" using nz c_free_Some [of ids ?m2] by (auto simp del: cells_discard)
  have "discard [ids] ?m2 = discard (?ps @ [ss, ks, ids]) m" by (rule Memory_eqI) auto
  moreover have "cells (discard (?ps @ [ss, ks, ids]) m) = cells m0"
    using discard_fresh [OF assms(1) inv] assms(5) by (simp add: discard_def)
  ultimately show ?thesis using f1 f2 f3 nz by (intro exI [of _ "discard [ids] ?m2"]) (simp add: freeXreadArgs_def del: frees.simps)
qed

section \<open>Reading\<close>

lemma arraysAt_le: "arraysAt c ss ks ids n qs \<Longrightarrow> c \<subseteq>\<^sub>m c' \<Longrightarrow> arraysAt c' ss ks ids n qs"
  unfolding arraysAt_def map_le_def by (metis domI)

lemma sourceAt_le: "sourceAt c d q r \<Longrightarrow> c \<subseteq>\<^sub>m c' \<Longrightarrow> d \<subseteq>\<^sub>m d' \<Longrightarrow> sourceAt c' d' q r"
  by (auto simp: sourceAt_def intro: streamPtr_le cstrAt_le strAt_le)

lemma streamReadM_query:
  "wf_memory m \<Longrightarrow> streamAt (cells m) a S f \<Longrightarrow> distinct f \<Longrightarrow> queryResult ok m (streamRead always tm S i) (streamReadM ok tm a i m)"
  using queryResult_none [of m ok] collectStream_result [of m a S f]
  by (auto simp: streamReadM_def streamRead_def Let_def split: option.split)

lemma streamRead_count: "snd (streamRead alc tm S i) = map_option (\<lambda>_. length (fst (streamRead alc tm S i))) (snd (streamRead alc tm S i))"
  by (auto simp: streamRead_def Let_def split: option.split)

text \<open>What the arguments point to, once they are complete.\<close>

definition argsAt :: "cells \<Rightarrow> addr \<Rightarrow> addr \<Rightarrow> addr \<Rightarrow> (Stream option \<times> string \<times> string) list \<Rightarrow> bool" where
  "argsAt c ss ks ids rs = (\<exists>qs. arraysAt c ss ks ids (length rs) qs \<and> list_all2 (sourceAt c c) qs rs)"

lemma argsAt_le: "argsAt c ss ks ids rs \<Longrightarrow> c \<subseteq>\<^sub>m c' \<Longrightarrow> argsAt c' ss ks ids rs"
  unfolding argsAt_def by (elim exE conjE) (intro exI conjI, erule (1) arraysAt_le, erule list_all2_mono, blast intro: sourceAt_le)

lemma setUp_argsAt:
  assumes "wf_memory m0" and "setUp m0 m ss ks ids n qs rs" and "length qs = n"
  shows "argsAt (cells m) ss ks ids rs"
proof -
  have "cells m0 \<subseteq>\<^sub>m cells m" using assms(2) by (intro grown_map_le [OF assms(1)]) (auto simp: setUp_def)
  moreover have "list_all2 (sourceAt (cells m0) (cells m)) qs rs" "arraysAt (cells m) ss ks ids n qs" using assms(2) by (auto simp: setUp_def)
  ultimately have src: "list_all2 (sourceAt (cells m) (cells m)) qs rs" by (blast intro: list_all2_mono map_le_refl sourceAt_le)
  then show ?thesis using \<open>arraysAt (cells m) ss ks ids n qs\<close> assms(3) list_all2_lengthD [OF src] unfolding argsAt_def by auto
qed

lemma argsAt_nth:
  assumes "argsAt (cells m) ss ks ids rs" and "j < length rs"
  obtains a k p where "readSlot ss j m = Ok a" and "readSlot ks j m = Ok k" and "readSlot ids j m = Ok p"
    and "streamPtr (cells m) a (fst (rs ! j))" and "cstrAt (cells m) k (fst (snd (rs ! j)))" and "strAt (cells m) p (snd (snd (rs ! j)))"
proof -
  from assms(1) obtain qs where q: "arraysAt (cells m) ss ks ids (length rs) qs" "list_all2 (sourceAt (cells m) (cells m)) qs rs" by (auto simp: argsAt_def)
  have l: "length qs = length rs" using list_all2_lengthD [OF q(2)] .
  have "sourceAt (cells m) (cells m) (qs ! j) (rs ! j)" using q(2) assms(2) by (auto simp: list_all2_conv_all_nth)
  moreover have "readSlot ss j m = Ok (fst (qs ! j))" "readSlot ks j m = Ok (fst (snd (qs ! j)))" "readSlot ids j m = Ok (snd (snd (qs ! j)))"
    using q(1) l assms(2) by (simp_all add: arraysAt_def readSlot_def readCell_Some)
  ultimately show ?thesis by (intro that) (auto simp: sourceAt_def)
qed

lemma infoKey_readOne [simp]: "infoKey (readOne alc tm (S, k, i)) = k"
  by (cases S) (simp_all add: readOne_def case_prod_beta)

lemma readStreamM_result:
  assumes "wf_memory m" and "argsAt (cells m) ss ks ids rs" and "j < length rs" and "rs ! j = (S, k, i)"
  shows "\<exists>es m' g. readStreamM always tm ss ids j m = Ok (es, infoCount (readOne always tm (S, k, i)), m') \<and>
    chainAt entryAt (cells m') es (infoEntries (readOne always tm (S, k, i))) g \<and> fresh m m' g \<and> grows m m' (set g)"
proof -
  obtain x p where x: "readSlot ss j m = Ok x" "readSlot ids j m = Ok p" "streamPtr (cells m) x S" "strAt (cells m) p i"
    using argsAt_nth [OF assms(2,3)] unfolding assms(4) fst_conv snd_conv by blast
  show ?thesis
  proof (cases S)
    case None
    then have "readStreamM always tm ss ids j m = Ok (0, Some 0, m)" "readOne always tm (S, k, i) = \<lparr>infoKey = k, infoEntries = [], infoCount = Some 0\<rparr>"
      using x(1,3) by (simp_all add: streamPtr_def readStreamM_def readOne_def)
    then show ?thesis using assms(1) by (intro exI [of _ 0] exI [of _ m] exI [of _ "[]"]) (simp add: fresh_def chainAt.chain_Nil)
  next
    case (Some T)
    then obtain g where t: "x \<noteq> 0" "streamAt (cells m) x T g" "distinct g" using x(3) by (auto simp: streamPtr_def)
    let ?r = "streamRead always tm T i"
    have one: "readOne always tm (S, k, i) = \<lparr>infoKey = k, infoEntries = fst ?r, infoCount = snd ?r\<rparr>"
      unfolding Some readOne_def by (cases ?r) simp
    from streamReadM_query [OF assms(1) t(2,3), of always tm i] obtain es m' xs g' where
      q: "streamReadM always tm x i m = Ok (es, map_option (\<lambda>_. length xs) (snd ?r), m')"
        "chainAt entryAt (cells m') es xs g'" "(\<forall>a::addr. always a) \<longrightarrow> xs = fst ?r" "fresh m m' g'" "grows m m' (set g')"
      unfolding queryResult_def by blast
    have xs: "xs = fst ?r" using q(3) by simp
    have "readStreamM always tm ss ids j m = streamReadM always tm x i m"
      using x(1,2) t(1) loadString_strAt [OF x(4)] by (simp add: readStreamM_def)
    then have "readStreamM always tm ss ids j m = Ok (es, snd ?r, m')" unfolding q(1) xs streamRead_count [symmetric] .
    then show ?thesis unfolding one StreamInfo.select_convs using q(2,4,5) unfolding xs by blast
  qed
qed

lemma info_step:
  assumes "wf_memory m" and "argsAt (cells m) ss ks ids rs" and "j < length rs"
  shows "\<exists>key m1 es m2 g. bind_run (readSlot ks j m) (\<lambda>q. c_strdup always q m) = Ok (key, m1) \<and> key \<noteq> 0 \<and>
    readStreamM always tm ss ids j m1 = Ok (es, infoCount (readOne always tm (rs ! j)), m2) \<and>
    infosAt (cells m2) [(key, es, infoCount (readOne always tm (rs ! j)))] [readOne always tm (rs ! j)] (key # g) \<and>
    fresh m m2 (key # g) \<and> grows m m2 (set (key # g))"
proof -
  obtain S k i where r: "rs ! j = (S, k, i)" by (metis prod_cases3)
  obtain q where a: "readSlot ks j m = Ok q" "cstrAt (cells m) q k" using argsAt_nth [OF assms(2,3)] unfolding r fst_conv snd_conv by blast
  let ?key = "brk m" and ?info = "readOne always tm (S, k, i)"
  define m1 where "m1 = m\<lparr>cells := (cells m)(?key \<mapsto> CharsO (k @ [NUL])), brk := Suc ?key\<rparr>"
  have dup: "c_strdup always q m = Ok (?key, m1)" and k: "nul_free k" using strdup_cstrAt [OF a(2)] loadString_cstrAt [OF a(2)] by (simp_all add: m1_def)
  have key: "0 < ?key" using assms(1) by (simp add: wf_memory_def)
  have wf1: "wf_memory m1" using assms(1) by (auto simp: m1_def wf_memory_iff less_Suc_eq split: if_splits)
  have g1: "grows m m1 {?key}" "fresh m m1 [?key]" using wf1 by (auto simp: grows_def fresh_def m1_def)
  have le: "cells m \<subseteq>\<^sub>m cells m1" using g1 by (intro grown_map_le [OF assms(1)]) auto
  obtain es m2 g where e: "readStreamM always tm ss ids j m1 = Ok (es, infoCount ?info, m2)"
    "chainAt entryAt (cells m2) es (infoEntries ?info) g" "fresh m1 m2 g" "grows m1 m2 (set g)"
    using readStreamM_result [OF wf1 argsAt_le [OF assms(2) le] assms(3) r] by blast
  have "strAt (cells m1) ?key k" using key k by (simp add: strAt_def m1_def)
  then have "strAt (cells m2) ?key k" by (rule strAt_le [OF _ grown_map_le [OF wf1 e(4,3)]])
  then have "infosAt (cells m2) [(?key, es, infoCount ?info)] [?info] (?key # g @ [])"
    using e(2) by (intro infosAt.intros) simp_all
  moreover have "fresh m m2 (?key # g)" using fresh_append [OF g1(2) e(3)] g1(1) e(4) by (simp add: grows_def)
  moreover have "grows m m2 (set (?key # g))" by (rule grows_trans [OF g1(1) e(4)]) auto
  moreover have "bind_run (readSlot ks j m) (\<lambda>q. c_strdup always q m) = Ok (?key, m1)" using a(1) dup by simp
  ultimately show ?thesis unfolding r using e(1) key by (metis append_Nil2 less_not_refl)
qed

text \<open>The results so far: the array and the copies, all in blocks that are newer than \<open>m1\<close>.\<close>

definition infosBuilt :: "Memory \<Rightarrow> Memory \<Rightarrow> addr \<Rightarrow> StreamInfo list \<Rightarrow> bool" where
  "infosBuilt m1 m p infos \<longleftrightarrow>
     p \<noteq> 0 \<and> (\<exists>is h. cells m p = Some (InfosO is) \<and> infosAt (cells m) is infos h \<and> fresh m1 m (h @ [p]) \<and> grows m1 m (set (h @ [p])))"

lemma infosAt_append: "infosAt c is rs f \<Longrightarrow> infosAt c is' rs' f' \<Longrightarrow> infosAt c (is @ is') (rs @ rs') (f @ f')"
  by (induction rule: infosAt.induct) (auto dest: infosAt.infos_Cons)

lemma infosAt_frame: "infosAt c is rs f \<Longrightarrow> agree f c c' \<Longrightarrow> infosAt c' is rs f"
  by (induction rule: infosAt.induct) (auto intro!: infosAt.intros intro: strAt_frame entry_mem.chain_frame)

lemma infosAt_length: "infosAt c is rs f \<Longrightarrow> length is = length rs"
  by (induction rule: infosAt.induct) simp_all

lemma info_push:
  assumes "wf_memory m1" and "infosBuilt m1 m p infos" and "argsAt (cells m1) ss ks ids rs" and "length infos < length rs"
  shows "\<exists>key m' es m2 m3. bind_run (readSlot ks (length infos) m) (\<lambda>q. c_strdup always q m) = Ok (key, m') \<and> key \<noteq> 0 \<and>
    readStreamM always tm ss ids (length infos) m' = Ok (es, infoCount (readOne always tm (rs ! length infos)), m2) \<and>
    pushInfo p (length infos) (key, es, infoCount (readOne always tm (rs ! length infos))) m2 = Ok m3 \<and>
    infosBuilt m1 m3 p (infos @ [readOne always tm (rs ! length infos)])"
proof -
  let ?info = "readOne always tm (rs ! length infos)"
  from assms(2) obtain "is" h where i: "p \<noteq> 0" "cells m p = Some (InfosO is)" "infosAt (cells m) is infos h" "fresh m1 m (h @ [p])" "grows m1 m (set (h @ [p]))"
    by (auto simp: infosBuilt_def)
  have wf: "wf_memory m" by (rule grows_wf [OF i(5)])
  have "argsAt (cells m) ss ks ids rs" by (rule argsAt_le [OF assms(3) grown_map_le [OF assms(1) i(5,4)]])
  from info_step [OF wf this assms(4), of tm] obtain key m' es m2 g where
    s: "bind_run (readSlot ks (length infos) m) (\<lambda>q. c_strdup always q m) = Ok (key, m')" "key \<noteq> 0"
      "readStreamM always tm ss ids (length infos) m' = Ok (es, infoCount ?info, m2)"
    and one: "infosAt (cells m2) [(key, es, infoCount ?info)] [?info] (key # g)" and fr: "fresh m m2 (key # g)" "grows m m2 (set (key # g))" by blast
  have le: "cells m \<subseteq>\<^sub>m cells m2" by (rule grown_map_le [OF wf fr(2,1)])
  have p2: "cells m2 p = Some (InfosO is)" using le i(2) unfolding map_le_def by (metis domI)
  have "p < brk m" using live_below [OF wf i(2)] by simp
  then have pn: "p \<notin> set (h @ key # g)" using i(4) fresh_not_old [OF fr(1)] by (auto simp: fresh_def)
  let ?m3 = "m2\<lparr>cells := (cells m2)(p \<mapsto> InfosO (is @ [(key, es, infoCount ?info)]))\<rparr>"
  have push: "pushInfo p (length infos) (key, es, infoCount ?info) m2 = Ok ?m3"
    using i(1) p2 infosAt_length [OF i(3)] by (simp add: pushInfo_def readCell_Some writeCell_Some)
  have "infosAt (cells m2) is infos h" by (rule infosAt_frame [OF i(3) agree_map_le [OF le infosAt_live [OF i(3)]]])
  from infosAt_append [OF this one] have "infosAt (cells ?m3) (is @ [(key, es, infoCount ?info)]) (infos @ [?info]) (h @ key # g)"
    by (rule infosAt_frame) (use pn in \<open>auto simp: agree_def\<close>)
  moreover have "fresh m1 m2 ((h @ [p]) @ key # g)" using fresh_append [OF i(4) fr(1)] i(5) fr(2) by (simp add: grows_def)
  then have "fresh m1 ?m3 ((h @ key # g) @ [p])" by (auto simp: fresh_def)
  moreover have "grows m1 m2 (set ((h @ key # g) @ [p]))" by (rule grows_trans [OF i(5) fr(2)]) auto
  then have "grows m1 ?m3 (set ((h @ key # g) @ [p]))" by (rule grows_trans [OF _ grows_write [OF grows_wf [OF fr(2)] p2]]) auto
  ultimately have "infosBuilt m1 ?m3 p (infos @ [?info])" using i(1) unfolding infosBuilt_def
    by (intro conjI exI [of _ "is @ [(key, es, infoCount ?info)]"] exI [of _ "h @ key # g"]) simp_all
  then show ?thesis using s push by blast
qed

lemma processInfos_result:
  assumes "wf_memory m1" and "argsAt (cells m1) ss ks ids rs" and "infosBuilt m1 m p infos" and "length infos + k = length rs"
    and "processReadsLoop always tm (drop (length infos) rs) = Ok (o', dat)"
  shows "\<exists>m'. processInfos always tm p ss ks ids (length infos) k hasData m = Ok (p, hasData \<or> dat, m') \<and>
    infosBuilt m1 m' p (infos @ map (readOne always tm) (drop (length infos) rs)) \<and> o' = Some (map (readOne always tm) (drop (length infos) rs))"
  using assms(3-5)
proof (induction k arbitrary: m infos hasData o' dat)
  case 0
  then show ?case by simp
next
  case (Suc k)
  have j: "length infos < length rs" using Suc.prems(2) by simp
  let ?info = "readOne always tm (rs ! length infos)"
  from Suc.prems(3) obtain c o2 dat2 where c: "infoCount ?info = Some c" "processReadsLoop always tm (drop (Suc (length infos)) rs) = Ok (o2, dat2)"
    "o' = map_option (\<lambda>is. ?info # is) o2" "dat \<longleftrightarrow> 0 < c \<or> dat2"
    by (auto simp: Cons_nth_drop_Suc [OF j, symmetric] Let_def strdup_always bind_run_Ok_iff split: option.splits)
  obtain key m' es m2 m3 where s: "bind_run (readSlot ks (length infos) m) (\<lambda>q. c_strdup always q m) = Ok (key, m')" "key \<noteq> 0"
      "readStreamM always tm ss ids (length infos) m' = Ok (es, infoCount ?info, m2)" "pushInfo p (length infos) (key, es, infoCount ?info) m2 = Ok m3"
      "infosBuilt m1 m3 p (infos @ [?info])" using info_push [OF assms(1) Suc.prems(1) assms(2) j, of tm] by blast
  have run: "processInfos always tm p ss ks ids (length infos) (Suc k) hasData m = processInfos always tm p ss ks ids (length (infos @ [?info])) k (hasData \<or> 0 < c) m3"
    using s(1-4) c(1) by simp
  have "length (infos @ [?info]) + k = length rs" "processReadsLoop always tm (drop (length (infos @ [?info])) rs) = Ok (o2, dat2)"
    using Suc.prems(2) c(2) by simp_all
  from Suc.IH [OF s(5) this, of "hasData \<or> 0 < c"] show ?case unfolding run using c(3,4) by (simp add: Cons_nth_drop_Suc [OF j, symmetric] disj_assoc)
qed

lemma recheckInfos_result:
  assumes "wf_memory m1" and "argsAt (cells m1) ss ks ids rs" and "infosBuilt m1 m p infos" and "length infos + k = length rs"
  shows "\<exists>m'. recheckInfos always tm p ss ks ids (length infos) k m = Ok m' \<and> infosBuilt m1 m' p (infos @ map (readOne always tm) (drop (length infos) rs))"
  using assms(3,4)
proof (induction k arbitrary: m infos)
  case 0
  then show ?case by simp
next
  case (Suc k)
  have j: "length infos < length rs" using Suc.prems(2) by simp
  let ?info = "readOne always tm (rs ! length infos)"
  obtain key m' es m2 m3 where s: "bind_run (readSlot ks (length infos) m) (\<lambda>q. c_strdup always q m) = Ok (key, m')" "key \<noteq> 0"
      "readStreamM always tm ss ids (length infos) m' = Ok (es, infoCount ?info, m2)" "pushInfo p (length infos) (key, es, infoCount ?info) m2 = Ok m3"
      "infosBuilt m1 m3 p (infos @ [?info])" using info_push [OF assms(1) Suc.prems(1) assms(2) j, of tm] by blast
  have run: "recheckInfos always tm p ss ks ids (length infos) (Suc k) m = recheckInfos always tm p ss ks ids (length (infos @ [?info])) k m3"
    using s(1-4) by simp
  have "length (infos @ [?info]) + k = length rs" using Suc.prems(2) by simp
  from Suc.IH [OF s(5) this] show ?case unfolding run by (simp add: Cons_nth_drop_Suc [OF j, symmetric])
qed

text \<open>The results in the hands of the handler; for no streams at all there is no array.\<close>

definition infosOwned :: "Memory \<Rightarrow> Memory \<Rightarrow> addr \<Rightarrow> StreamInfo list \<Rightarrow> bool" where
  "infosOwned m1 m p infos = (if p = 0 then infos = [] \<and> m = m1 else infosBuilt m1 m p infos)"

lemma infosBuilt_start:
  assumes "wf_memory m1"
  shows "infosBuilt m1 (m1\<lparr>cells := (cells m1)(brk m1 \<mapsto> InfosO []), brk := Suc (brk m1)\<rparr>) (brk m1) []"
proof -
  have "wf_memory (m1\<lparr>cells := (cells m1)(brk m1 \<mapsto> InfosO []), brk := Suc (brk m1)\<rparr>)" "0 < brk m1"
    using assms by (auto simp: wf_memory_iff less_Suc_eq split: if_splits)
  then show ?thesis unfolding infosBuilt_def by (intro conjI exI [of _ "[]"]) (auto simp: fresh_def grows_def infosAt.intros)
qed

lemma processStreamReadsM_result:
  assumes "wf_memory m1" and "argsAt (cells m1) ss ks ids rs" and "processStreamReads always tm rs = Ok (o', dat)"
  shows "\<exists>p m'. processStreamReadsM always tm ss ks ids (length rs) m1 = Ok (p, dat, m') \<and> infosOwned m1 m' p (map (readOne always tm) rs) \<and>
    o' = (if rs = [] then None else Some (map (readOne always tm) rs))"
proof (cases "rs = []")
  case True
  then show ?thesis using assms(3) by (auto simp: processStreamReads_def processStreamReadsM_def infosOwned_def)
next
  case False
  have nz: "ss \<noteq> 0" "ks \<noteq> 0" "ids \<noteq> 0" "0 < brk m1" using assms(1,2) by (auto simp: argsAt_def arraysAt_def wf_memory_def)
  have "processReadsLoop always tm (drop (length []) rs) = Ok (o', dat)" using assms(3) False by (simp add: processStreamReads_def)
  from processInfos_result [OF assms(1,2) infosBuilt_start [OF assms(1)] _ this, of "length rs" False] show ?thesis
    using False nz by (auto simp: processStreamReadsM_def malloc_always infosOwned_def)
qed

lemma recheckStreamsM_result:
  assumes "wf_memory m1" and "argsAt (cells m1) ss ks ids rs"
  shows "\<exists>p m'. recheckStreamsM always tm ss ks ids (length rs) m1 = Ok (p, m') \<and> infosOwned m1 m' p (map (readOne always tm) rs)"
proof -
  have "0 < brk m1" using assms(1) by (simp add: wf_memory_def)
  with recheckInfos_result [OF assms infosBuilt_start [OF assms(1)], of "length rs" tm] show ?thesis
    by (auto simp: recheckStreamsM_def malloc_always infosOwned_def)
qed

lemma freeStreamInfo_result:
  assumes "wf_memory m1" and "infosOwned m1 m p infos"
  shows "\<exists>m'. freeStreamInfo p (length infos) m = Ok m' \<and> cells m' = cells m1 \<and> wf_memory m'"
proof (cases "p = 0")
  case True
  then show ?thesis using assms by (simp add: infosOwned_def freeStreamInfo_def)
next
  case False
  then obtain "is" h where i: "cells m p = Some (InfosO is)" "infosAt (cells m) is infos h" "fresh m1 m (h @ [p])" "grows m1 m (set (h @ [p]))"
    using assms(2) by (auto simp: infosOwned_def infosBuilt_def)
  have wf: "wf_memory m" by (rule grows_wf [OF i(4)])
  have d: "distinct (h @ [p])" using i(3) by (simp add: fresh_def)
  have "length h \<le> brk m" using footprint_bound [OF wf infosAt_live [OF i(2)]] d by simp
  then have "freeInfos (brk m) p 0 (length is) m = Ok (discard h m)" using d False i(1) by (intro freeInfos_exact [OF i(2)]) auto
  moreover have "c_free p (discard h m) = Ok (discard [p] (discard h m))" using i(1) d False by (intro c_free_Some) auto
  ultimately have "freeStreamInfo p (length infos) m = Ok (discard (h @ [p]) m)"
    unfolding discard_discard using infosAt_length [OF i(2)] by (simp add: freeStreamInfo_def)
  then show ?thesis using discard_fresh [OF assms(1) i(4,3)] wf_memory_discard [OF wf] by blast
qed

section \<open>The reply\<close>

lemma loadStrings_result: "srcAt (cells m) e i xs \<Longrightarrow> loadStrings e i (length xs) m = Ok xs"
proof (induction xs arbitrary: i)
  case (Cons x xs)
  then obtain S p r where s: "e \<noteq> 0" "cells m e = Some (PointersO S)" "drop i S = Some p # r" "strAt (cells m) p x" "srcAt (cells m) e (Suc i) xs"
    by (elim srcAt_Cons)
  then show ?case using Cons.IH [OF s(5)] readSlot_Some [OF s(1-3)] loadString_strAt [OF s(4)] by simp
qed simp

lemma loadFirst_result:
  assumes "chainAt entryAt (cells m) a es g"
  shows "loadFirst a m = Ok (take 1 es)"
  using assms
proof cases
  case (chain_Cons nx e f es' h)
  from chain_Cons(3) show ?thesis
  proof cases
    case (entry fp vp i ps qs)
    let ?fs = "map fst (fieldValues e)" and ?vs = "map snd (fieldValues e)"
    have "srcAt (cells m) fp 0 ?fs" "srcAt (cells m) vp 0 ?vs" using entry by (auto simp: srcAt_def)
    then have "loadStrings fp 0 (length ps) m = Ok ?fs" "loadStrings vp 0 (length ps) m = Ok ?vs"
      using loadStrings_result list_all2_lengthD [OF entry(9)] by fastforce+
    then show ?thesis using entry chain_Cons(1) loadString_strAt [OF entry(6)]
      by (simp add: loadFirst_def withEntry_def readCell_Some zip_map_fst_snd)
  qed
qed (simp add: loadFirst_def)

lemma loadInfos_exact:
  assumes "infosAt (cells m) is infos h" and "p \<noteq> 0" and "cells m p = Some (InfosO xs)" and "drop i xs = is"
  shows "loadInfos p i (length is) m = Ok (map (\<lambda>r. r\<lparr>infoEntries := take 1 (infoEntries r)\<rparr>) infos)"
  using assms(1,4)
proof (induction arbitrary: i rule: infosAt.induct)
  case (infos_Cons key r es g "is" rs h)
  have i: "i < length xs" "xs ! i = (key, es, infoCount r)" "drop (Suc i) xs = is"
    using infos_Cons.prems by (cases "i < length xs", auto simp flip: Cons_nth_drop_Suc)+
  show ?case using i assms(2,3) infos_Cons.IH [OF i(3)] loadString_strAt [OF infos_Cons.hyps(1)] loadFirst_result [OF infos_Cons.hyps(2)]
    by (simp add: readCell_Some)
qed simp

lemma loadInfos_result:
  assumes "infosOwned m1 m p infos"
  shows "loadInfos p 0 (length infos) m = Ok (map (\<lambda>r. r\<lparr>infoEntries := take 1 (infoEntries r)\<rparr>) infos)"
proof (cases "p = 0")
  case False
  then obtain "is" h where i: "cells m p = Some (InfosO is)" "infosAt (cells m) is infos h" using assms by (auto simp: infosOwned_def infosBuilt_def)
  then show ?thesis using loadInfos_exact [OF i(2) False i(1), of 0] infosAt_length [OF i(2)] by simp
qed (use assms in \<open>simp add: infosOwned_def\<close>)

lemma xreadReplyM_result:
  assumes "wf_memory m0" and "setUp m0 m1 ss ks ids n qs rs" and "length qs = n" and "wf_memory m2" and "cells m2 = cells m1"
    and "infosOwned m2 m p infos" and "length infos = n"
  shows "\<exists>m'. xreadReplyM p ss ks ids n m = Ok (createXreadResponse infos, m') \<and> cells m' = cells m0"
proof -
  obtain m3 where f: "freeStreamInfo p n m = Ok m3" "cells m3 = cells m1" "wf_memory m3"
    using freeStreamInfo_result [OF assms(4,6)] assms(5,7) by auto
  obtain m4 where "freeXreadArgs ss ks ids n m3 = Ok m4" "cells m4 = cells m0" using freeXreadArgs_result [OF assms(1-3) f(3,2)] by blast
  then show ?thesis using f(1) loadInfos_result [OF assms(6)] assms(7) conjunct2 [OF createXreadResponse_first_entry [of infos], symmetric]
    by (simp add: xreadReplyM_def)
qed

section \<open>The whole command\<close>

lemma map_run_list_mono:
  assumes "map_run_list f xs = Ok ys" and "\<And>x y. x \<in> set xs \<Longrightarrow> f x = Ok y \<Longrightarrow> g x = Ok y"
  shows "map_run_list g xs = Ok ys"
  using assms by (induction xs arbitrary: ys) (auto simp: bind_run_Ok_iff)

lemma elementString_result:
  assumes "e \<noteq> 0" and "cells m e = Some (PointersO (map Some ps))" and "slotsAt valueAt (cells m) ps es g" and "argStr es i = Ok x"
  shows "elementString e i m = Ok x"
  using elementStr_result [OF assms(1) map_le_refl assms(2-4)] by (auto simp: elementString_def dest: loadString_cstrAt)

text \<open>The streams that were looked up are still the ones that are found.\<close>

lemma refreshStream_same:
  assumes "map_run_list (setupOne st es first n) xs = Ok rs"
  shows "map_run_list (refreshStream st) rs = Ok rs"
  using assms by (induction xs arbitrary: rs) (auto simp: bind_run_Ok_iff setupOne_def Let_def refreshStream_def split: option.splits)

lemma setupXreadStreams_always:
  assumes "alloc env = always" and "setupXreadStreams env st es first = Ok ptrs"
  obtains rs where "ptrs = Some rs" and "map_run_list (setupOne st es first ((length es - first - 1) div 2)) [0..<(length es - first - 1) div 2] = Ok rs"
proof -
  let ?n = "(length es - first - 1) div 2"
  obtain rs where rs: "map_run_list (setupOne st es first ?n) [0..<?n] = Ok rs"
    "ptrs = (if list_all (\<lambda>(_, _, i). strdup_ok always i) rs then Some rs else None)"
    using assms(2) unfolding setupXreadStreams_def assms(1) setupOne_def [abs_def] Let_def by (auto simp: bind_run_Ok_iff simp del: strdup_always)
  have "list_all (\<lambda>(_, _, i). strdup_ok always i) rs" by (auto simp: list_all_iff)
  with rs show ?thesis by (intro that) auto
qed

text \<open>From the ptrs on: the reads, the wait and the reply.\<close>

lemma xread_rest:
  assumes "wf_memory m" and "setUp m m1 ss ks ids (length rs) qs rs" and "length qs = length rs"
    and "processStreamReads always tm rs = Ok (infos, dat)"
  shows "\<exists>p m2 m3. processStreamReadsM always tm ss ks ids (length rs) m1 = Ok (p, dat, m2) \<and>
      (\<exists>m'. xreadReplyM p ss ks ids (length rs) m2 = Ok (createXreadResponse (map (readOne always tm) rs), m') \<and> cells m' = cells m) \<and>
      freeStreamInfo p (length rs) m2 = Ok m3 \<and>
      (\<exists>p' m4 m'. recheckStreamsM always tm ss ks ids (length rs) m3 = Ok (p', m4) \<and>
         xreadReplyM p' ss ks ids (length rs) m4 = Ok (createXreadResponse (map (readOne always tm) rs), m') \<and> cells m' = cells m) \<and>
      (\<exists>m'. freeXreadArgs ss ks ids (length rs) m3 = Ok m' \<and> cells m' = cells m) \<and>
      infos = (if rs = [] then None else Some (map (readOne always tm) rs))"
proof -
  have wf1: "wf_memory m1" using assms(2) by (auto simp: setUp_def dest: grows_wf)
  have args: "argsAt (cells m1) ss ks ids rs" by (rule setUp_argsAt [OF assms(1-3)])
  obtain p m2 where p: "processStreamReadsM always tm ss ks ids (length rs) m1 = Ok (p, dat, m2)" "infosOwned m1 m2 p (map (readOne always tm) rs)"
    "infos = (if rs = [] then None else Some (map (readOne always tm) rs))" using processStreamReadsM_result [OF wf1 args assms(4)] by blast
  obtain m3 where f: "freeStreamInfo p (length rs) m2 = Ok m3" "cells m3 = cells m1" "wf_memory m3" using freeStreamInfo_result [OF wf1 p(2)] by auto
  obtain p' m4 where r: "recheckStreamsM always tm ss ks ids (length rs) m3 = Ok (p', m4)" "infosOwned m3 m4 p' (map (readOne always tm) rs)"
    using recheckStreamsM_result [OF f(3)] args f(2) by metis
  have m3: "\<exists>m'. freeXreadArgs ss ks ids (length rs) m3 = Ok m' \<and> cells m' = cells m" by (rule freeXreadArgs_result [OF assms(1-3) f(3,2)])
  have "\<exists>m'. xreadReplyM p ss ks ids (length rs) m2 = Ok (createXreadResponse (map (readOne always tm) rs), m') \<and> cells m' = cells m"
    by (rule xreadReplyM_result [OF assms(1-3) wf1 refl p(2)]) simp
  moreover have "\<exists>m'. xreadReplyM p' ss ks ids (length rs) m4 = Ok (createXreadResponse (map (readOne always tm) rs), m') \<and> cells m' = cells m"
    by (rule xreadReplyM_result [OF assms(1-3) f(3,2) r(2)]) simp
  ultimately show ?thesis using p(1,3) f(1) r(1) m3 by blast
qed

lemma map_run_list_length: "map_run_list h xs = Ok ys \<Longrightarrow> length ys = length xs"
  by (induction xs arbitrary: ys) (auto simp: bind_run_Ok_iff)

lemma handleXreadFrom_result:
  assumes "wf_memory m" and "storeAt (cells m) s st f" and "distinct f" and "0 < tableSize st"
    and "e \<noteq> 0" and "cells m e = Some (PointersO (map Some ps))" and "slotsAt valueAt (cells m) ps es g"
    and "map_run_list (setupOne st es first n) [0..<n] = Ok rs" and "processStreamReads always (streamTimeMs clock) rs = Ok (infos, dat)"
  shows "\<exists>m'. handleXreadFrom always clock status s e first n a m =
      Ok (if blocking a \<and> \<not> dat \<and> \<not> snd (if blockMs a = 0 then waitForStreamDataInfinite else waitForStreamData clock (blockMs a) status)
          then createNullBulkString else createXreadResponse (map (readOne always (streamTimeMs clock)) rs), m') \<and> cells m' = cells m \<and>
    infos = (if rs = [] then None else Some (map (readOne always (streamTimeMs clock)) rs))"
proof -
  let ?tm = "streamTimeMs clock"
  have n: "length rs = n" using map_run_list_length [OF assms(8)] by simp
  obtain ss ks ids m1 qs where st: "setupXreadStreamsM always s e first n m = Ok (Some (ss, ks, ids), m1)" "setUp m m1 ss ks ids n qs rs" "length qs = n"
    using setupXreadStreamsM_result [OF assms(1-8)] by blast
  from xread_rest [OF assms(1) st(2,3) [folded n] assms(9)] obtain p m2 m3 p' m4 ma mb mc where
    r: "processStreamReadsM always ?tm ss ks ids (length rs) m1 = Ok (p, dat, m2)"
      "xreadReplyM p ss ks ids (length rs) m2 = Ok (createXreadResponse (map (readOne always ?tm) rs), ma)" "cells ma = cells m"
      "freeStreamInfo p (length rs) m2 = Ok m3" "recheckStreamsM always ?tm ss ks ids (length rs) m3 = Ok (p', m4)"
      "xreadReplyM p' ss ks ids (length rs) m4 = Ok (createXreadResponse (map (readOne always ?tm) rs), mb)" "cells mb = cells m"
      "freeXreadArgs ss ks ids (length rs) m3 = Ok mc" "cells mc = cells m"
      "infos = (if rs = [] then None else Some (map (readOne always ?tm) rs))" by blast
  show ?thesis using st(1) r(1,2,4-6,8) [unfolded n] r(3,7,9,10) by (simp add: handleXreadFrom_def Let_def split del: if_split) auto
qed

text \<open>The reply of the handler on values, by its parts.\<close>

lemma handleXread_reply:
  assumes "alloc env = always" and "meanwhile env = (\<lambda>st. st)" and "handleXread env w es c = Ok (w', c', evs, reply)" and "parseXreadArgs es = Ok a"
    and "streamsPos a = Some first" and "setupXreadStreams env (store w) es first = Ok (Some rs)" and "map_run_list (refreshStream (store w)) rs = Ok rs"
    and "processStreamReads always (streamTimeMs (tod env)) rs = Ok (if rs = [] then None else Some (map (readOne always (streamTimeMs (tod env))) rs), dat)"
  shows "reply = Some (if blocking a \<and> \<not> dat \<and> \<not> snd (if blockMs a = 0 then waitForStreamDataInfinite else waitForStreamData (tod env) (blockMs a) (waitOutcome env))
    then createNullBulkString else createXreadResponse (map (readOne always (streamTimeMs (tod env))) rs))"
proof -
  obtain new got where wait: "(if blockMs a = 0 then waitForStreamDataInfinite else waitForStreamData (tod env) (blockMs a) (waitOutcome env)) = (new, got)"
    by fastforce
  have same: "store ((setStore w (store w))\<lparr>has_new_data := new\<rparr>) = store w" by (simp add: store_def setStore_def)
  show ?thesis using assms(3)
    by (cases "rs = []")
      (use assms(1,2,4-8) wait same in \<open>auto simp: handleXread_def streamNow_def replyWith_def xreadReply_def recheckStreams_def Let_def bind_run_Ok_iff split: if_splits\<close>)
qed


section \<open>Examples\<close>

definition one_stream :: Memory where
  "one_stream = \<lparr>cells =
     [1 \<mapsto> StoreO 2 1 1, 2 \<mapsto> PointersO [Some 3], 3 \<mapsto> StoreEntryO 4 TYPE_STREAM (StreamS 5) 0 0, 4 \<mapsto> CharsO (''s'' @ [NUL]), 5 \<mapsto> StreamO 6 6,
      6 \<mapsto> EntryO 7 8 9 1 0, 7 \<mapsto> CharsO (''1-1'' @ [NUL]), 8 \<mapsto> PointersO [Some 10], 9 \<mapsto> PointersO [Some 11], 10 \<mapsto> CharsO (''f'' @ [NUL]),
      11 \<mapsto> CharsO (''v'' @ [NUL]), 12 \<mapsto> ValueO RespTypeArray (ArrayD 13 4), 13 \<mapsto> PointersO [Some 14, Some 16, Some 18, Some 20],
      14 \<mapsto> ValueO RespTypeBulk (StringD 15 5), 15 \<mapsto> CharsO (''XREAD'' @ [NUL]), 16 \<mapsto> ValueO RespTypeBulk (StringD 17 7), 17 \<mapsto> CharsO (''STREAMS'' @ [NUL]),
      18 \<mapsto> ValueO RespTypeBulk (StringD 19 1), 19 \<mapsto> CharsO (''s'' @ [NUL]), 20 \<mapsto> ValueO RespTypeBulk (StringD 21 3), 21 \<mapsto> CharsO (''0-0'' @ [NUL])],
     brk = 22\<rparr>"

definition stream_store :: RedisStore where
  "stream_store = \<lparr>table = [[\<lparr>skey = ''s'', svalue = StreamValue \<lparr>entries = [] @ [\<lparr>entryId = ''1-1'', fieldValues = [(''f'', ''v'')]\<rparr>]\<rparr>, expiry = 0\<rparr>]],
     tableSize = 1, used = 1\<rparr>"

definition xread_args :: "RespValue list" where
  "xread_args = [RespBulk ''XREAD'', RespBulk ''STREAMS'', RespBulk ''s'', RespBulk ''0-0'']"

lemma one_stream_wf: "wf_memory one_stream"
  by (auto simp: one_stream_def wf_memory_iff split: if_splits)

lemma one_stream_entry:
  "entryAt (cells one_stream) 6 (0, \<lparr>entryId = ''1-1'', fieldValues = [(''f'', ''v'')]\<rparr>) (7 # interleave [10] [11] @ [8, 9, 6])"
  by (rule entryAt.entry) (simp_all add: one_stream_def strAt_def)

lemma one_stream_store: "storeAt (cells one_stream) 1 stream_store [4, 7, 10, 11, 8, 9, 6, 5, 3, 2, 1]"
proof -
  let ?c = "cells one_stream" and ?S = "\<lparr>entries = [] @ [\<lparr>entryId = ''1-1'', fieldValues = [(''f'', ''v'')]\<rparr>]\<rparr>"
  have "segAt ?c 6 6 [] []" by (rule segAt.intros)
  from streamAt.stream_entries [OF _ _ _ this one_stream_entry, of 5]
  have "streamAt ?c 5 ?S ([] @ (7 # interleave [10] [11] @ [8, 9, 6]) @ [5])" by (simp add: one_stream_def)
  then have "dataAt ?c TYPE_STREAM (StreamS 5) (StreamValue ?S) ([] @ (7 # interleave [10] [11] @ [8, 9, 6]) @ [5])" by (rule dataAt.intros)
  from storeEntryAt.store_entry [where e = "\<lparr>skey = ''s'', svalue = StreamValue ?S, expiry = 0\<rparr>", unfolded StoreEntry.select_convs, OF _ _ _ this, of 3 4 0]
  have "storeEntryAt ?c 3 (0, \<lparr>skey = ''s'', svalue = StreamValue ?S, expiry = 0\<rparr>) (4 # [7, 10, 11, 8, 9, 6, 5] @ [3])"
    by (simp add: one_stream_def strAt_def)
  from chainAt.chain_Cons [where rep = storeEntryAt, OF this chainAt.chain_Nil]
  have "slotsAt (chainAt storeEntryAt) ?c [3] (table stream_store) (((4 # [7, 10, 11, 8, 9, 6, 5] @ [3]) @ []) @ [])"
    unfolding stream_store_def RedisStore.select_convs by (intro slotsAt.intros) simp
  then show ?thesis unfolding storeAt_def
    by (intro exI [of _ 2] exI [of _ "[3]"] exI [of _ "[4, 7, 10, 11, 8, 9, 6, 5, 3]"]) (simp add: one_stream_def stream_store_def)
qed

lemma bulkAt: "a \<noteq> 0 \<Longrightarrow> p \<noteq> 0 \<Longrightarrow> c a = Some (ValueO RespTypeBulk (StringD p (length s))) \<Longrightarrow> c p = Some (CharsO (s @ [NUL])) \<Longrightarrow> valueAt c a (RespBulk s) [p, a]"
  using valueAt.value_string [of RespTypeBulk a p c s] by simp

lemma one_stream_command: "\<exists>g. valueAt (cells one_stream) 12 (RespArray xread_args) g"
proof -
  have "valueAt (cells one_stream) 14 (RespBulk ''XREAD'') [15, 14]" "valueAt (cells one_stream) 16 (RespBulk ''STREAMS'') [17, 16]"
    "valueAt (cells one_stream) 18 (RespBulk ''s'') [19, 18]" "valueAt (cells one_stream) 20 (RespBulk ''0-0'') [21, 20]"
    by (rule bulkAt; simp add: one_stream_def)+
  then have "slotsAt valueAt (cells one_stream) [14, 16, 18, 20] xread_args ([15, 14] @ [17, 16] @ [19, 18] @ [21, 20] @ [])"
    unfolding xread_args_def by (intro slotsAt.intros)
  from valueAt.value_array [OF _ _ _ _ this, of 12 13] show ?thesis by (auto simp: one_stream_def)
qed


text \<open>
  The clean-up of \<^verbatim>\<open>processStreamReads\<close> after a failed copy of a key is not complete: it frees the keys
  and the array but not the entries that were read before. Here the same stream is read twice and the
  second key cannot be copied: the caller gets NULL, and six blocks are left to which nothing points.
\<close>

definition two_reads :: Memory where
  "two_reads = one_stream\<lparr>cells := (cells one_stream)(22 \<mapsto> PointersO [Some 5, Some 5], 23 \<mapsto> PointersO [Some 19, Some 19], 24 \<mapsto> PointersO [Some 21, Some 21]),
     brk := 25\<rparr>"

theorem processStreamReads_leaks:
  "case processStreamReadsM (\<lambda>a. a \<noteq> 33) 0 22 23 24 2 two_reads of
     Ok (p, _, m') \<Rightarrow> p = 0 \<and> filter (\<lambda>x. cells m' x \<noteq> None) [25..<34] = [27..<33]
   | Fault _ \<Rightarrow> False"
  by code_simp

end
