(* ===== verification/Concurrency.thy ===== *)
theory Concurrency
  imports Command
begin

text \<open>
  Clients are served by the threads of a pool, and the only synchronisation of the commands is the
  lock of the store, which \<^verbatim>\<open>storeGet\<close> and \<^verbatim>\<open>storeSet\<close> hold for their whole bodies. This theory
  looks at \<^verbatim>\<open>INCR\<close>, which calls the one and then the other: its two critical sections are the steps
  of a thread, and other threads may run between them.
\<close>

section \<open>The two halves of INCR\<close>

definition incrFetch :: "Env \<Rightarrow> RedisStore \<Rightarrow> string \<Rightarrow> string option run" where
  "incrFetch env st key = storeGet (alloc env) (now env) st key"

definition incrStore :: "Env \<Rightarrow> RedisStore \<Rightarrow> string \<Rightarrow> string option \<Rightarrow> (RedisStore \<times> string) run" where
  "incrStore env st key v =
     (case v of
        Some numStr \<Rightarrow>
          (let (numValue, endptr) = strtoll (cstr numStr) in
           if endptr \<noteq> [] then Ok (st, createError err_not_integer)
           else if numValue = 2 ^ 63 - 1 then Fault SignedOverflow
           else Ok (fst (storeSet (alloc env) st key (show_int (numValue + 1))), createInteger (numValue + 1)))
      | None \<Rightarrow> Ok (fst (storeSet (alloc env) st key ''1''), createInteger 1))"

text \<open>Without interference the two halves make up the handler.\<close>

lemma handleIncrement_halves:
  "handleIncrement env w es c =
     bind_run (argStr es 1) (\<lambda>key. bind_run (incrFetch env (store w) key) (\<lambda>v.
       bind_run (incrStore env (store w) key v) (\<lambda>(st, r). replyWith (setStore w st) c r)))"
proof -
  have [simp]: "setStore w (store w) = w" by (cases w, rename_tac s x y, case_tac s) (simp add: setStore_def store_def)
  show ?thesis
    by (cases "argStr es 1")
      (auto simp: handleIncrement_def incrFetch_def incrStore_def split: option.split prod.split intro!: arg_cong2 [of _ _ _ _ bind_run])
qed

section \<open>Threads\<close>

datatype incr_pc = Entered | Fetched "string option" | Answered string

text \<open>
  Any number of threads that execute \<^verbatim>\<open>INCR k\<close>, and clients that set other keys. The environments
  may differ from step to step; no allocation fails.
\<close>

inductive incr_step :: "string \<Rightarrow> RedisStore \<times> incr_pc list \<Rightarrow> RedisStore \<times> incr_pc list \<Rightarrow> bool" for k where
  step_fetch: "roomy env \<Longrightarrow> i < length ts \<Longrightarrow> ts ! i = Entered \<Longrightarrow> incrFetch env st k = Ok v \<Longrightarrow>
    incr_step k (st, ts) (st, ts[i := Fetched v])"
| step_store: "roomy env \<Longrightarrow> i < length ts \<Longrightarrow> ts ! i = Fetched v \<Longrightarrow> incrStore env st k v = Ok (st', r) \<Longrightarrow>
    incr_step k (st, ts) (st', ts[i := Answered r])"
| step_other: "roomy env \<Longrightarrow> k' \<noteq> k \<Longrightarrow> incr_step k (st, ts) (fst (storeSet (alloc env) st k' x), ts)"

abbreviation incr_run :: "string \<Rightarrow> RedisStore \<times> incr_pc list \<Rightarrow> RedisStore \<times> incr_pc list \<Rightarrow> bool" where
  "incr_run k \<equiv> (incr_step k)\<^sup>*\<^sup>*"

text \<open>The key holds the text of a number, without an expiry.\<close>

definition holdsInt :: "string \<Rightarrow> RedisStore \<Rightarrow> int \<Rightarrow> bool" where
  "holdsInt k st x = (wf_store st \<and> absStore st k = Some (StringValue (show_int x), 0))"

definition isAnswered :: "incr_pc \<Rightarrow> bool" where
  "isAnswered p = (case p of Answered _ \<Rightarrow> True | _ \<Rightarrow> False)"

definition answered :: "incr_pc list \<Rightarrow> nat" where
  "answered ts = length (filter isAnswered ts)"

lemma isAnswered_simps [simp]: "isAnswered (Answered r)" "\<not> isAnswered Entered" "\<not> isAnswered (Fetched v)"
  by (simp_all add: isAnswered_def)

lemma storeSet_always: "fst (storeSet always st k v) = setAlways st k v"
  by (simp add: setAlways_def)

lemma holdsInt_fetch: "holdsInt k st x \<Longrightarrow> roomy env \<Longrightarrow> incrFetch env st k = Ok (Some (show_int x))"
  by (auto simp: holdsInt_def incrFetch_def roomy_def absStore_def storeGet_def split: option.splits)

lemma holdsInt_store:
  assumes "holdsInt k st x" and "roomy env" and "- (2 ^ 63) \<le> y" and "y < 2 ^ 63 - 1"
  shows "\<exists>st'. incrStore env st k (Some (show_int y)) = Ok (st', createInteger (y + 1)) \<and> holdsInt k st' (y + 1)"
proof -
  have wf: "wf_store st" using assms(1) by (simp add: holdsInt_def)
  have "strtoll (show_int y) = (y, [])" using assms(3,4) strtoll_show_int [of y] by simp
  then have "incrStore env st k (Some (show_int y)) = Ok (setAlways st k (show_int (y + 1)), createInteger (y + 1))"
    using assms(2,4) by (simp add: incrStore_def roomy_def storeSet_always)
  moreover have "holdsInt k (setAlways st k (show_int (y + 1))) (y + 1)"
    using assms(1) strings.inv_put [OF wf] by (auto simp: holdsInt_def absStore_def findEntry_storeSet [OF wf])
  ultimately show ?thesis by blast
qed

lemma holdsInt_other:
  assumes "holdsInt k st x" and "roomy env" and "k' \<noteq> k"
  shows "holdsInt k (fst (storeSet (alloc env) st k' v)) x"
proof -
  have wf: "wf_store st" using assms(1) by (simp add: holdsInt_def)
  then show ?thesis
    using assms strings.inv_put [OF wf] by (auto simp: roomy_def storeSet_always holdsInt_def absStore_def findEntry_storeSet [OF wf])
qed

lemma show_int_inj: "show_int x = show_int y \<Longrightarrow> x = y"
proof -
  have minus: "\<not> is_digit (CHR ''-'')" by (simp add: is_digit_def)
  have hd: "0 \<le> n \<Longrightarrow> show_digits n \<noteq> CHR ''-'' # ds" for n ds
    using show_digits_digits [of n] minus by auto
  assume "show_int x = show_int y"
  then show "x = y"
    using hd [of x "show_digits (- y)"] hd [of y "show_digits (- x)"] show_digits_inj [of x y] show_digits_inj [of "- x" "- y"]
    by (auto simp: show_int_def split: if_splits)
qed

section \<open>Every interleaving\<close>

text \<open>
  The invariant: the value is between \<open>m\<close> and \<open>m\<close> plus the number of threads that answered, and
  above \<open>m\<close> once one has; so is everything that a thread holds between its two halves.
\<close>

definition incrInv :: "string \<Rightarrow> int \<Rightarrow> RedisStore \<times> incr_pc list \<Rightarrow> bool" where
  "incrInv k m s =
     (\<exists>x. holdsInt k (fst s) x \<and> m \<le> x \<and> x \<le> m + int (answered (snd s)) \<and> (0 < answered (snd s) \<longrightarrow> m < x) \<and>
       (\<forall>i v. i < length (snd s) \<longrightarrow> snd s ! i = Fetched v \<longrightarrow> (\<exists>y. v = Some (show_int y) \<and> m \<le> y \<and> y \<le> m + int (answered (snd s)))))"

lemma answered_update:
  assumes "i < length ts" and "\<not> isAnswered (ts ! i)"
  shows "answered (ts[i := p]) = answered ts + (if isAnswered p then 1 else 0)"
proof -
  have "answered (take i ts @ ts ! i # drop (Suc i) ts) = answered (take i ts) + answered (drop (Suc i) ts)"
    using assms(2) by (simp add: answered_def)
  then have "answered ts = answered (take i ts) + answered (drop (Suc i) ts)"
    using id_take_nth_drop [OF assms(1)] by simp
  moreover have "answered (ts[i := p]) = answered (take i ts) + answered (drop (Suc i) ts) + (if isAnswered p then 1 else 0)"
    by (simp add: upd_conv_take_nth_drop [OF assms(1)] answered_def)
  ultimately show ?thesis by simp
qed

lemma answered_le: "i < length ts \<Longrightarrow> \<not> isAnswered (ts ! i) \<Longrightarrow> answered ts < length ts"
  unfolding answered_def by (rule length_filter_less) auto

lemma incr_step_length: "incr_step k s s' \<Longrightarrow> length (snd s') = length (snd s)"
  by (auto elim: incr_step.cases)

lemma incrInv_step:
  assumes "incr_step k s s'" and "incrInv k m s" and "- (2 ^ 63) \<le> m" and "m + int (length (snd s)) < 2 ^ 63"
  shows "incrInv k m s'"
  using assms
proof (induction rule: incr_step.induct)
  case (step_fetch env i ts st v)
  obtain x where x: "holdsInt k st x" "m \<le> x" "x \<le> m + int (answered ts)" "0 < answered ts \<longrightarrow> m < x"
    and fet: "\<And>j w. j < length ts \<Longrightarrow> ts ! j = Fetched w \<Longrightarrow> \<exists>y. w = Some (show_int y) \<and> m \<le> y \<and> y \<le> m + int (answered ts)"
    using step_fetch.prems(1) by (auto simp: incrInv_def)
  have a: "answered (ts[i := Fetched v]) = answered ts"
    using step_fetch.hyps answered_update [of i ts "Fetched v"] by (simp add: isAnswered_def)
  have v: "v = Some (show_int x)" using holdsInt_fetch [OF x(1) step_fetch.hyps(1)] step_fetch.hyps(4) by simp
  have "\<exists>y. w = Some (show_int y) \<and> m \<le> y \<and> y \<le> m + int (answered ts)"
    if "j < length ts" "ts[i := Fetched v] ! j = Fetched w" for j w
    using that fet [of j w] v x(2,3) step_fetch.hyps(2) by (cases "j = i") auto
  with x show ?case unfolding incrInv_def fst_conv snd_conv a by (intro exI [of _ x]) auto
next
  case (step_store env i ts v st st' r)
  obtain x where x: "holdsInt k st x" and fet: "\<And>j v. j < length ts \<Longrightarrow> ts ! j = Fetched v \<Longrightarrow>
      \<exists>y. v = Some (show_int y) \<and> m \<le> y \<and> y \<le> m + int (answered ts)"
    using step_store.prems(1) by (auto simp: incrInv_def)
  obtain y where y: "v = Some (show_int y)" "m \<le> y" "y \<le> m + int (answered ts)" using fet step_store.hyps(2,3) by blast
  have u: "\<not> isAnswered (ts ! i)" using step_store.hyps(3) by (simp add: isAnswered_def)
  have a: "answered (ts[i := Answered r]) = Suc (answered ts)"
    using answered_update [OF step_store.hyps(2) u] by (simp add: isAnswered_def)
  have "y < 2 ^ 63 - 1" "- (2 ^ 63) \<le> y" using y step_store.prems(2,3) answered_le [OF step_store.hyps(2) u] by auto
  then have "holdsInt k st' (y + 1)" using holdsInt_store [OF x step_store.hyps(1), of y] step_store.hyps(4) y(1) by auto
  moreover have "\<exists>z. w = Some (show_int z) \<and> m \<le> z \<and> z \<le> m + int (Suc (answered ts))"
    if "j < length ts" "ts[i := Answered r] ! j = Fetched w" for j w
    using that fet [of j w] step_store.hyps(2) by (fastforce simp: nth_list_update split: if_splits)
  ultimately show ?case unfolding incrInv_def fst_conv snd_conv a length_list_update using y
    by (intro exI [of _ "y + 1"] conjI) auto
next
  case (step_other env k' st ts x)
  then show ?case unfolding incrInv_def by (auto intro: holdsInt_other)
qed

lemma incrInv_run:
  assumes "incr_run k (st, replicate n Entered) s" and "holdsInt k st m" and "- (2 ^ 63) \<le> m" and "m + int n < 2 ^ 63"
  shows "incrInv k m s \<and> length (snd s) = n"
  using assms(1)
proof (induction rule: rtranclp_induct)
  case base
  have "answered (replicate n Entered) = 0" by (simp add: answered_def isAnswered_def)
  with assms(2) show ?case by (auto simp: incrInv_def)
next
  case (step s s')
  then show ?case using incrInv_step [OF step.hyps(2)] incr_step_length [OF step.hyps(2)] assms(3,4) by auto
qed

text \<open>No thread is ever stuck or runs into undefined behaviour.\<close>

lemma incr_progress:
  assumes "incrInv k m (st, ts)" and "- (2 ^ 63) \<le> m" and "m + int (length ts) < 2 ^ 63" and "roomy env"
    and "i < length ts" and "\<not> isAnswered (ts ! i)"
  shows "\<exists>st' p. incr_step k (st, ts) (st', ts[i := p])"
proof (cases "ts ! i")
  case Entered
  obtain x where "holdsInt k st x" using assms(1) by (auto simp: incrInv_def)
  then show ?thesis using incr_step.step_fetch [OF assms(4,5) Entered holdsInt_fetch] assms(4) by blast
next
  case (Fetched v)
  then obtain x y where xy: "holdsInt k st x" "v = Some (show_int y)" "m \<le> y" "y \<le> m + int (answered ts)"
    using assms(1,5) unfolding incrInv_def fst_conv snd_conv by blast
  have "y < 2 ^ 63 - 1" "- (2 ^ 63) \<le> y" using xy assms(2,3) answered_le [OF assms(5,6)] by auto
  then obtain st' where "incrStore env st k v = Ok (st', createInteger (y + 1))" using holdsInt_store [OF xy(1) assms(4)] xy(2) by blast
  then show ?thesis using incr_step.step_store [OF assms(4,5) Fetched] by blast
qed (use assms(6) in \<open>simp add: isAnswered_def\<close>)

section \<open>Lost updates\<close>

lemma run_fetch_all:
  assumes "holdsInt k st x" and "roomy env"
  shows "incr_run k (st, replicate a Entered @ ts) (st, replicate a (Fetched (Some (show_int x))) @ ts)"
proof (induction a arbitrary: ts)
  case (Suc a)
  let ?f = "Fetched (Some (show_int x))"
  have "incr_run k (st, replicate a Entered @ Entered # ts) (st, replicate a ?f @ Entered # ts)" by (rule Suc.IH)
  moreover have "incr_step k (st, replicate a ?f @ Entered # ts) (st, (replicate a ?f @ Entered # ts)[a := ?f])"
    by (rule incr_step.step_fetch [OF assms(2)]) (simp_all add: nth_append holdsInt_fetch [OF assms])
  ultimately show ?case
    by (simp add: replicate_app_Cons_same list_update_append rtranclp.rtrancl_into_rtrancl)
qed simp

lemma run_store_all:
  assumes "holdsInt k st z" and "roomy env" and "- (2 ^ 63) \<le> x" and "x < 2 ^ 63 - 1"
  shows "\<exists>st'. incr_run k (st, replicate a (Fetched (Some (show_int x))) @ ts) (st', replicate a (Answered (createInteger (x + 1))) @ ts) \<and>
    holdsInt k st' (if a = 0 then z else x + 1)"
proof (induction a arbitrary: ts)
  case 0
  with assms(1) show ?case by auto
next
  case (Suc a)
  let ?f = "Fetched (Some (show_int x))" and ?d = "Answered (createInteger (x + 1))"
  obtain st1 where 1: "incr_run k (st, replicate a ?f @ ?f # ts) (st1, replicate a ?d @ ?f # ts)" "holdsInt k st1 (if a = 0 then z else x + 1)"
    using Suc.IH by blast
  obtain st2 where 2: "incrStore env st1 k (Some (show_int x)) = Ok (st2, createInteger (x + 1))" "holdsInt k st2 (x + 1)"
    using holdsInt_store [OF 1(2) assms(2-4)] by blast
  have "incr_step k (st1, replicate a ?d @ ?f # ts) (st2, (replicate a ?d @ ?f # ts)[a := ?d])"
    by (rule incr_step.step_store [OF assms(2) _ _ 2(1)]) (simp_all add: nth_append)
  with 1(1) 2(2) show ?case
    by (intro exI [of _ st2]) (simp add: replicate_app_Cons_same list_update_append rtranclp.rtrancl_into_rtrancl)
qed

lemma run_one_by_one:
  assumes "holdsInt k st x" and "roomy env" and "- (2 ^ 63) \<le> x" and "x + int b < 2 ^ 63"
  shows "\<exists>st' us. incr_run k (st, ts @ replicate b Entered) (st', ts @ us) \<and> holdsInt k st' (x + int b) \<and> length us = b \<and> list_all isAnswered us"
  using assms
proof (induction b arbitrary: st x ts)
  case (Suc b)
  let ?d = "Answered (createInteger (x + 1))"
  have x: "x < 2 ^ 63 - 1" using Suc.prems(4) by simp
  obtain st1 where 1: "incrStore env st k (Some (show_int x)) = Ok (st1, createInteger (x + 1))" "holdsInt k st1 (x + 1)"
    using holdsInt_store [OF Suc.prems(1-3) x] by blast
  let ?r = "replicate b Entered" and ?f = "Fetched (Some (show_int x))"
  have "incr_step k (st, ts @ Entered # ?r) (st, (ts @ Entered # ?r)[length ts := ?f])"
    by (rule incr_step.step_fetch [OF Suc.prems(2)]) (simp_all add: holdsInt_fetch [OF Suc.prems(1,2)])
  moreover have "incr_step k (st, ts @ ?f # ?r) (st1, (ts @ ?f # ?r)[length ts := ?d])"
    by (rule incr_step.step_store [OF Suc.prems(2) _ _ 1(1)]) simp_all
  ultimately have two: "incr_run k (st, ts @ replicate (Suc b) Entered) (st1, (ts @ [?d]) @ ?r)"
    by (simp add: converse_rtranclp_into_rtranclp)
  have "- (2 ^ 63) \<le> x + 1" "x + 1 + int b < 2 ^ 63" using Suc.prems(3,4) by simp_all
  from Suc.IH [OF 1(2) Suc.prems(2) this, of "ts @ [?d]"]
  obtain st' us where "incr_run k (st1, (ts @ [?d]) @ ?r) (st', (ts @ [?d]) @ us)" "holdsInt k st' (x + 1 + int b)" "length us = b" "list_all isAnswered us"
    by blast
  with two show ?case
    by (intro exI [of _ st'] exI [of _ "?d # us"]) (auto simp: algebra_simps intro: rtranclp_trans)
qed auto

lemma incr_outcomes:
  assumes "holdsInt k st m" and "0 < n" and "- (2 ^ 63) \<le> m" and "m + int n < 2 ^ 63" and "roomy env"
  shows "{x. \<exists>st' ts. incr_run k (st, replicate n Entered) (st', ts) \<and> list_all isAnswered ts \<and> holdsInt k st' x} = {m + 1..m + int n}"
proof (intro set_eqI iffI)
  fix x assume "x \<in> {x. \<exists>st' ts. incr_run k (st, replicate n Entered) (st', ts) \<and> list_all isAnswered ts \<and> holdsInt k st' x}"
  then obtain st' ts where r: "incr_run k (st, replicate n Entered) (st', ts)" "list_all isAnswered ts" "holdsInt k st' x" by blast
  have inv: "incrInv k m (st', ts)" and len: "length ts = n" using incrInv_run [OF r(1) assms(1,3,4)] by auto
  have "answered ts = n" using r(2) len by (simp add: answered_def list_all_iff)
  then obtain y where y: "holdsInt k st' y" "m < y" "y \<le> m + int n" using inv assms(2) by (auto simp: incrInv_def)
  have "show_int y = show_int x" using y(1) r(3) by (simp add: holdsInt_def)
  then have "y = x" by (rule show_int_inj)
  with y show "x \<in> {m + 1..m + int n}" by simp
next
  fix x assume x: "x \<in> {m + 1..m + int n}"
  define a where "a = nat (m + int n - x) + 1"
  define b where "b = nat (x - m) - 1"
  have ab: "a + b = n" "0 < a" "x = m + 1 + int b" using x by (auto simp: a_def b_def)
  have m: "m < 2 ^ 63 - 1" "- (2 ^ 63) \<le> m + 1" "m + 1 + int b < 2 ^ 63" using assms(2-4) x ab by auto
  let ?d = "replicate a (Answered (createInteger (m + 1)))"
  have split: "replicate n Entered = replicate a Entered @ replicate b Entered" using ab(1) by (simp flip: replicate_add)
  obtain st1 where 1: "incr_run k (st, replicate a (Fetched (Some (show_int m))) @ replicate b Entered) (st1, ?d @ replicate b Entered)"
      "holdsInt k st1 (m + 1)"
    using run_store_all [OF assms(1,5,3) m(1), of a "replicate b Entered"] ab(2) by auto
  obtain st2 us where 2: "incr_run k (st1, ?d @ replicate b Entered) (st2, ?d @ us)" "holdsInt k st2 (m + 1 + int b)" "list_all isAnswered us"
    using run_one_by_one [OF 1(2) assms(5) m(2,3)] by blast
  have "incr_run k (st, replicate n Entered) (st2, ?d @ us)"
    unfolding split using run_fetch_all [OF assms(1,5)] 1(1) 2(1) by (meson rtranclp_trans)
  moreover have "list_all isAnswered (?d @ us)" using 2(3) by (auto simp: list_all_iff)
  ultimately show "x \<in> {x. \<exists>st' ts. incr_run k (st, replicate n Entered) (st', ts) \<and> list_all isAnswered ts \<and> holdsInt k st' x}"
    using 2(2) ab(3) by blast
qed

text \<open>
  C30. \<^verbatim>\<open>INCR\<close> by several clients loses updates. When \<open>n\<close> clients increment a key that holds \<open>m\<close>, while
  others may set other keys, no thread is ever stuck, and the values that the key can hold when all
  have been answered are exactly \<open>m + 1\<close> up to \<open>m + n\<close>: no interleaving goes outside these bounds, and
  each of them, down to a single increment, is the result of some interleaving.
\<close>

theorem concurrent_incr_outcomes:
  assumes "holdsInt k st m" and "0 < n" and "- (2 ^ 63) \<le> m" and "m + int n < 2 ^ 63" and "roomy env"
  shows "{x. \<exists>st' ts. incr_run k (st, replicate n Entered) (st', ts) \<and> list_all isAnswered ts \<and> holdsInt k st' x} = {m + 1..m + int n} \<and>
    (\<forall>st' ts i. incr_run k (st, replicate n Entered) (st', ts) \<and> i < n \<and> \<not> isAnswered (ts ! i) \<longrightarrow>
      (\<exists>st'' p. incr_step k (st', ts) (st'', ts[i := p])))"
proof
  show "{x. \<exists>st' ts. incr_run k (st, replicate n Entered) (st', ts) \<and> list_all isAnswered ts \<and> holdsInt k st' x} = {m + 1..m + int n}"
    using assms by (rule incr_outcomes)
next
  show "\<forall>st' ts i. incr_run k (st, replicate n Entered) (st', ts) \<and> i < n \<and> \<not> isAnswered (ts ! i) \<longrightarrow>
      (\<exists>st'' p. incr_step k (st', ts) (st'', ts[i := p]))"
    using incrInv_run [OF _ assms(1,3,4)] incr_progress [OF _ assms(3) _ assms(5)] assms(4) by fastforce
qed

definition counter_store :: RedisStore where
  "counter_store = setAlways emptyStore ''k'' ''41''"

theorem concurrent_incr_outcomes_witness:
  "{x. \<exists>st' ts. incr_run ''k'' (counter_store, replicate 2 Entered) (st', ts) \<and> list_all isAnswered ts \<and> holdsInt ''k'' st' x} = {42, 43}"
proof -
  have "wf_store counter_store \<and> absStore counter_store ''k'' = Some (StringValue (show_int 41), 0)" by code_simp
  then have h: "holdsInt ''k'' counter_store 41" by (simp add: holdsInt_def)
  have "{41 + 1..41 + int 2} = {42, 43}" by auto
  then show ?thesis
    using concurrent_incr_outcomes [THEN conjunct1, OF h, of 2 example_env] example_wf(5) by simp
qed

end
