(* ===== verification/Reply_Types.thy ===== *)
theory Reply_Types
  imports Command
begin

text \<open>
  A type system for the replies of \<^verbatim>\<open>command.c\<close>: the types that the protocol gives to the reply of
  each command, and that every handler keeps to them. The code itself has one C type for all
  replies, \<^verbatim>\<open>const char *\<close>.
\<close>

section \<open>Types\<close>

datatype value_type =
    SimpleT | ErrorT | IntegerT | BulkT
  | ListT value_type | PairT value_type value_type | EitherT value_type value_type

primrec hasType :: "value_type \<Rightarrow> RespValue \<Rightarrow> bool" where
  "hasType SimpleT v = (case v of RespString s \<Rightarrow> True | _ \<Rightarrow> False)"
| "hasType ErrorT v = (case v of RespError s \<Rightarrow> True | _ \<Rightarrow> False)"
| "hasType IntegerT v = (case v of RespInteger i \<Rightarrow> True | _ \<Rightarrow> False)"
| "hasType BulkT v = (case v of RespBulk s \<Rightarrow> True | _ \<Rightarrow> False)"
| "hasType (ListT t) v = (case v of RespArray es \<Rightarrow> list_all (hasType t) es | _ \<Rightarrow> False)"
| "hasType (PairT t u) v = (case v of RespArray [a, b] \<Rightarrow> hasType t a \<and> hasType u b | _ \<Rightarrow> False)"
| "hasType (EitherT t u) v = (hasType t v \<or> hasType u v)"

text \<open>
  A reply is a value, the null bulk string, nothing at all (the handler returns NULL), or the
  answer to \<^verbatim>\<open>PSYNC\<close>: a simple string with a bulk header and the snapshot behind it.
\<close>

datatype Reply = Value RespValue | Null | NoReply | Snapshot string

fun encodeReply :: "Reply \<Rightarrow> string option" where
  "encodeReply (Value (RespBulk s)) = Some (createBulkString s)"
| "encodeReply (Value v) = Some (encodeValue v)"
| "encodeReply Null = Some createNullBulkString"
| "encodeReply NoReply = None"
| "encodeReply (Snapshot s) = Some (createSimpleString s @ bulkHeader (length EMPTY_RDB) @ EMPTY_RDB)"

datatype reply_type = ValueT value_type | NullT | NoReplyT | SnapshotT

fun replyHasType :: "reply_type \<Rightarrow> Reply \<Rightarrow> bool" where
  "replyHasType (ValueT t) (Value v) = hasType t v"
| "replyHasType NullT Null = True"
| "replyHasType NoReplyT NoReply = True"
| "replyHasType SnapshotT (Snapshot s) = True"
| "replyHasType _ _ = False"

text \<open>An entry of a stream is an identifier with the flat list of its fields and values.\<close>

definition entryT :: value_type where
  "entryT = PairT BulkT (ListT BulkT)"

text \<open>What \<^verbatim>\<open>EXEC\<close> can make of the reply of a queued command.\<close>

definition queuedT :: value_type where
  "queuedT = EitherT SimpleT (EitherT ErrorT (EitherT IntegerT (EitherT BulkT (ListT BulkT))))"

text \<open>The types of the replies of each handler.\<close>

fun handlerTypes :: "handler \<Rightarrow> reply_type list" where
  "handlerTypes HSet = [ValueT SimpleT]"
| "handlerTypes HGet = [ValueT BulkT, NullT]"
| "handlerTypes HPing = [ValueT SimpleT]"
| "handlerTypes HEcho = [ValueT BulkT]"
| "handlerTypes HType = [ValueT SimpleT]"
| "handlerTypes HXadd = [ValueT BulkT, ValueT ErrorT]"
| "handlerTypes HXrange = [ValueT (ListT entryT)]"
| "handlerTypes HXread = [ValueT (ListT (PairT BulkT (ListT entryT))), NullT, ValueT ErrorT]"
| "handlerTypes HIncr = [ValueT IntegerT, ValueT ErrorT]"
| "handlerTypes HMulti = [ValueT SimpleT]"
| "handlerTypes HExec = [ValueT (ListT queuedT), ValueT ErrorT]"
| "handlerTypes HDiscard = [ValueT SimpleT, ValueT ErrorT]"
| "handlerTypes HConfig = [ValueT (ListT BulkT)]"
| "handlerTypes HKeys = [ValueT (ListT BulkT)]"
| "handlerTypes HInfo = [ValueT BulkT]"
| "handlerTypes HReplconf = [ValueT (ListT BulkT), ValueT SimpleT, NoReplyT]"
| "handlerTypes HPsync = [SnapshotT, NoReplyT]"
| "handlerTypes HWait = [ValueT IntegerT]"

text \<open>
  The types of the replies to a command, by its name, the number of its elements and whether the
  client is in a transaction, where all but the three transactional commands are only queued.
\<close>

definition commandTypes :: "string \<Rightarrow> nat \<Rightarrow> bool \<Rightarrow> reply_type list" where
  "commandTypes name n queueing =
     (case findHandler name of
        None \<Rightarrow> [ValueT ErrorT]
      | Some h \<Rightarrow>
          if n < minArgs h \<or> (case maxArgs h of None \<Rightarrow> False | Some m \<Rightarrow> m < n) then [ValueT ErrorT]
          else if queueing \<and> \<not> isTransactional name then [ValueT SimpleT]
          else handlerTypes (chandler h))"

section \<open>The handlers are well typed\<close>

definition typed :: "reply_type list \<Rightarrow> string option \<Rightarrow> bool" where
  "typed ts r = (\<exists>t \<in> set ts. \<exists>v. replyHasType t v \<and> r = encodeReply v)"

definition typedRun :: "reply_type list \<Rightarrow> reply run \<Rightarrow> bool" where
  "typedRun ts m = (\<forall>w c ev r. m = Ok (w, c, ev, r) \<longrightarrow> typed ts r)"

lemma typedRun_simps [simp]:
  "typedRun ts (Fault e)"
  "typedRun ts (Ok (w, c, ev, r)) \<longleftrightarrow> typed ts r"
  "typedRun ts (replyWith w c s) \<longleftrightarrow> typed ts (Some s)"
  by (simp_all add: typedRun_def replyWith_def)

lemma typedRun_bind: "(\<And>x. m = Ok x \<Longrightarrow> typedRun ts (f x)) \<Longrightarrow> typedRun ts (bind_run m f)"
  by (cases m) simp_all

lemma typedRun_withReplicas: "(\<And>rs. typedRun ts (f rs)) \<Longrightarrow> typedRun ts (withReplicas s f)"
  by (simp add: withReplicas_def split: option.split)

lemma typed_value: "replyHasType t v \<Longrightarrow> t \<in> set ts \<Longrightarrow> encodeReply v = r \<Longrightarrow> typed ts r"
  by (auto simp: typed_def)

lemma typed_plain:
  "ValueT SimpleT \<in> set ts \<Longrightarrow> typed ts (Some (createSimpleString s))"
  "ValueT ErrorT \<in> set ts \<Longrightarrow> typed ts (Some (createError s))"
  "ValueT IntegerT \<in> set ts \<Longrightarrow> typed ts (Some (createInteger i))"
  "ValueT BulkT \<in> set ts \<Longrightarrow> typed ts (Some (createBulkString s))"
  "NullT \<in> set ts \<Longrightarrow> typed ts (Some createNullBulkString)"
  "NoReplyT \<in> set ts \<Longrightarrow> typed ts None"
  by (rule typed_value [of _ "Value (RespString s)"] typed_value [of _ "Value (RespError s)"]
      typed_value [of _ "Value (RespInteger i)"] typed_value [of _ "Value (RespBulk s)"]
      typed_value [of _ Null] typed_value [of _ NoReply]; simp)+

lemma typed_list:
  assumes "ValueT (ListT t) \<in> set ts" and "list_all (hasType t) es" and "s = encodeValue (RespArray es)"
  shows "typed ts (Some s)"
  using assms by (intro typed_value [of "ValueT (ListT t)" "Value (RespArray es)"]) simp_all

lemma typed_empty: "ValueT (ListT t) \<in> set ts \<Longrightarrow> typed ts (Some (createRespArray []))"
  by (rule typed_list [of t _ "[]"]) (simp_all add: createRespArray_eq encodeCommand_def)

lemma typed_elements: "ValueT (ListT t) \<in> set ts \<Longrightarrow> list_all (hasType t) es \<Longrightarrow> typed ts (Some (createRespArrayFromElements es))"
  by (rule typed_list) (simp_all add: createRespArrayFromElements_eq)

lemmas typed_intros = typedRun_bind typedRun_withReplicas typed_plain typed_empty typed_elements

lemma simple_handlers_typed:
  "typedRun [ValueT SimpleT] (handleSet env w es c)"
  "typedRun [ValueT BulkT, NullT] (handleGet env w es c)"
  "typedRun [ValueT SimpleT] (handlePing w c)"
  "typedRun [ValueT BulkT] (handleEcho w es c)"
  "typedRun [ValueT SimpleT] (handleType env w es c)"
  "typedRun [ValueT BulkT, ValueT ErrorT] (handleXadd env w es c)"
  "typedRun [ValueT IntegerT, ValueT ErrorT] (handleIncrement env w es c)"
  "typedRun [ValueT SimpleT] (handleMulti w c)"
  "typedRun [ValueT SimpleT, ValueT ErrorT] (handleDiscard w c)"
  "typedRun [ValueT (ListT BulkT)] (handleConfigGet w es c)"
  "typedRun [ValueT BulkT] (handleInfo w c)"
  "typedRun [ValueT (ListT BulkT), ValueT SimpleT, NoReplyT] (handleReplConf w es c)"
  "typedRun [ValueT IntegerT] (handleWait env w es c)"
  by (auto simp: handleSet_def handleGet_def handlePing_def handleEcho_def handleType_def handleXadd_def
      handleIncrement_def handleMulti_def handleDiscard_def handleConfigGet_def handleInfo_def createFormattedBulkString_def
      handleReplConf_def handleWait_def createRespString_def Let_def intro!: typed_intros
      split: option.split prod.split)

lemma handleKeys_typed: "typedRun [ValueT (ListT BulkT)] (handleKeys env w es c)"
  by (auto simp: handleKeys_def getRdbKeys_def withDatabase_def createRespString_def list_all_iff Let_def
      intro!: typed_intros split: option.splits if_splits prod.splits)

lemma entryValue_typed: "hasType entryT (entryValue e)"
  by (auto simp: entryT_def entryValue_def list_all_iff)

lemma infoValue_typed: "hasType (PairT BulkT (ListT entryT)) (infoValue i)"
  by (simp add: infoValue_def list_all_iff entryValue_typed)

lemma handleXrange_typed: "typedRun [ValueT (ListT entryT)] (handleXrange env w es c)"
proof -
  have "typed [ValueT (ListT entryT)] (Some (createXrangeResponse es (length es)))" for es
    by (rule typed_list [of entryT _ "map entryValue es"])
      (simp_all add: list_all_iff entryValue_typed createXrangeResponse_encode)
  moreover have "createXrangeResponse [] 0 = createRespArray []" by (simp add: createXrangeResponse_def)
  ultimately show ?thesis
    by (auto simp: handleXrange_def streamRange_def Let_def intro!: typed_intros split: option.split)
qed

lemma xreadReply_typed:
  assumes "ValueT (ListT (PairT BulkT (ListT entryT))) \<in> set ts"
  shows "typedRun ts (xreadReply w c n infos)"
proof -
  have "typed ts (Some (createXreadResponse is))" for "is"
    by (rule typed_list [OF assms, of "map infoValue is"])
      (simp_all add: list_all_iff infoValue_typed createXreadResponse_first_entry [THEN conjunct1] del: hasType.simps encodeValue.simps)
  then show ?thesis by (simp add: xreadReply_def split: option.split)
qed

lemma handleXread_typed: "typedRun (handlerTypes HXread) (handleXread env w es c)"
  by (auto simp: handleXread_def Let_def intro!: typed_intros xreadReply_typed split: option.split prod.split)

lemma handlePsync_typed: "typedRun [SnapshotT, NoReplyT] (handlePsync w c)"
proof -
  have nf: "nul_free EMPTY_RDB" by code_simp
  have "psyncResponse ri = createSimpleString (take 4095 (''FULLRESYNC '' @ replication_id ri @ '' '' @ show_int (repl_offset ri))) @
      bulkHeader (length EMPTY_RDB) @ EMPTY_RDB" for ri
    using nf by (simp add: psyncResponse_def bufferString_def buffer_put createRespBuffer_def createFormattedSimpleString_def
        createSimpleString_def)
  then have "typed [SnapshotT, NoReplyT] (Some (psyncResponse ri))" for ri
    by (intro typed_value [of SnapshotT "Snapshot _"]) auto
  then show ?thesis by (auto simp: handlePsync_def intro!: typed_intros)
qed

text \<open>The parser of replies gives a value of one of the types that \<^verbatim>\<open>EXEC\<close> puts into its array.\<close>

lemma parsed_value: "(case p of RespOk (v, c) \<Rightarrow> Some v | _ \<Rightarrow> None) = Some v \<longleftrightarrow> (\<exists>c. p = RespOk (v, c))"
  by (auto split: resp_result.split)

lemma parsed_reply_typed:
  assumes "parseResponseToRespValue z r = Ok (Some v)"
  shows "hasType queuedT v"
proof -
  obtain ch d where r: "cstr r = ch # d" using assms by (cases "cstr r") (simp_all add: parseResponseToRespValue_def)
  have "(\<exists>s. v = RespString s) \<or> (\<exists>s. v = RespError s) \<or> (\<exists>i. v = RespInteger i) \<or>
      (\<exists>c. parseBulkString (ch # d) = Ok (RespOk (v, c))) \<or> (\<exists>c. parseArray z (ch # d) = Ok (RespOk (v, c)))"
    using assms unfolding parseResponseToRespValue_def
    by (auto simp: r Let_def bind_run_Ok_iff parsed_value split: if_splits resp_result.splits)
  then show ?thesis by (auto simp: queuedT_def list_all_iff dest!: parseBulkString_shape parseArray_shape)
qed

lemma execLoop_typed:
  assumes "execLoop exec n z w c cmds = Ok (w', c', evs, vs)" and "Some v \<in> set vs"
  shows "hasType queuedT v"
  using assms
proof (induction cmds arbitrary: n w c w' c' evs vs)
  case (Cons m cmds)
  then obtain w1 c1 r u evs' us where "parseResponseToRespValue z r = Ok u" and vs: "vs = u # us"
    and "execLoop exec (Suc n) z w1 c1 cmds = Ok (w', c', evs', us)"
    by (auto simp: bind_run_Ok_iff split: option.splits)
  then show ?case using Cons.IH Cons.prems(2) parsed_reply_typed by auto
qed simp

lemma handleExec_typed: "typedRun [ValueT (ListT queuedT), ValueT ErrorT] (handleExec exec env w c)"
proof -
  have "list_all (hasType queuedT) (map the vs)"
    if "execLoop exec n z w c cmds = Ok (w', c', evs, vs)" and "None \<notin> set vs" for n z w c cmds w' c' evs vs
    using that(2) execLoop_typed [OF that(1)] by (metis (no_types, lifting) list.pred_map list_all_iff comp_apply option.collapse)
  then show ?thesis
    by (auto simp: handleExec_def intro!: typedRun_bind typed_plain typed_elements [of queuedT] split: option.split prod.split)
qed

lemma runHandler_typed: "typedRun (handlerTypes h) (runHandler exec h env w es c)"
  by (cases h) (simp_all add: runHandler_def simple_handlers_typed handleKeys_typed handleXrange_typed handleXread_typed [simplified]
      handlePsync_typed handleExec_typed)

lemma typedRun_bind_reply:
  assumes "typedRun ts m" and "\<And>w c ev r. typed ts r \<Longrightarrow> typedRun ts (f (w, c, ev, r))"
  shows "typedRun ts (bind_run m f)"
  using assms by (intro typedRun_bind) (auto simp: typedRun_def)

lemma dispatch_typed: "typedRun (commandTypes name (length es) (in_transaction c)) (dispatch exec env w (RespArray es) c)"
  if "argStr es 0 = Ok name"
  using that unfolding dispatch_def commandTypes_def
  by (auto simp: argStr_def argBytes_def runHandler_typed intro!: typed_intros typedRun_bind_reply [OF runHandler_typed]
      split: option.split if_splits)

section \<open>Properties\<close>

text \<open>
  C12. Type soundness of the replies: whatever a command finds in the store, in the files and on the
  network, a reply to it is the encoding of a value of one of the types that its name, the number
  of its arguments and the state of the transaction allow, down to the elements of nested arrays:
  for instance a list of pairs of an identifier and a list of bulk strings for \<^verbatim>\<open>XRANGE\<close>. No
  handler returns NULL but those of \<^verbatim>\<open>REPLCONF\<close> and \<^verbatim>\<open>PSYNC\<close>.
\<close>

theorem replies_typed:
  assumes "executeCommand env envs w (RespArray es) c = Ok (w', c', ev, r)" and "argStr es 0 = Ok name"
  shows "\<exists>t \<in> set (commandTypes name (length es) (in_transaction c)). \<exists>v. replyHasType t v \<and> r = encodeReply v"
  using dispatch_typed [OF assms(2)] assms(1) by (auto simp: executeCommand_def typedRun_def typed_def)

theorem replies_typed_witness:
  "\<exists>r. (\<exists>w' c' ev. executeCommand example_env (\<lambda>_. example_env) example_world (cmd [''INCR'', ''n'']) example_client = Ok (w', c', ev, r)) \<and>
     (\<exists>t \<in> {ValueT IntegerT, ValueT ErrorT}. \<exists>v. replyHasType t v \<and> r = encodeReply v)"
proof -
  let ?run = "executeCommand example_env (\<lambda>_. example_env) example_world (cmd [''INCR'', ''n'']) example_client"
  have "(case ?run of Ok x \<Rightarrow> True | Fault e \<Rightarrow> False)" by code_simp
  then obtain w' c' ev r where run: "?run = Ok (w', c', ev, r)" by (auto split: run.splits)
  have types: "commandTypes ''INCR'' 2 (in_transaction example_client) = [ValueT IntegerT, ValueT ErrorT]" by code_simp
  have "\<exists>t \<in> set (commandTypes ''INCR'' 2 (in_transaction example_client)). \<exists>v. replyHasType t v \<and> r = encodeReply v"
    using replies_typed [OF run [unfolded cmd_def], of "''INCR''"] by (simp add: argStr_def argBytes_def cstr_def numeral_2_eq_2)
  with run show ?thesis unfolding types by auto
qed

end
